(* ===== verification/Prelude.thy ===== *)
theory Prelude
  imports Main "HOL-Library.Word"
begin

unbundle bit_operations_syntax

text \<open>
  What every component of the daemon shares: the machine integers the C code is
  compiled with (LP64: \<open>size_t\<close> and \<open>uint64_t\<close> are 64 bit words), the faults a
  statement of the program can end in, pointers that may be NULL or dangling,
  and the overflow macros of \<^verbatim>\<open>daemon/incs/array.h\<close> with the facts on
  \<^const>\<open>unat\<close> that let the component proofs leave the words behind.
\<close>

section \<open>Machine integers, faults and results\<close>

type_synonym u8 = "8 word"
type_synonym u32 = "32 word"
type_synonym u64 = "64 word"
type_synonym bytes = "u8 list"

text \<open>
  \<^item> \<open>Hardened_Check\<close>: a \<^verbatim>\<open>notify_bug_on\<close> of the hardened runtime fired (it logs
    and then stores through the null pointer);
  \<^item> \<open>Out_Of_Bounds\<close>: an access outside the block the pointer belongs to;
  \<^item> \<open>Use_After_Free\<close>: an access through a pointer whose block was released;
  \<^item> \<open>Bad_Va_Arg\<close>: \<^verbatim>\<open>va_arg\<close> with a type that is not the one of the argument, or past the last one;
  \<^item> \<open>Read_Only_Write\<close>: a store into a string literal;
  \<^item> \<open>Signed_Overflow\<close>: signed arithmetic whose result the type cannot hold, which is undefined in C;
  \<^item> \<open>Indeterminate\<close>: a read of an array whose contents the C library leaves indeterminate;
  \<^item> \<open>Out_Of_Fuel\<close>: no fault of the program; a recursion of the model was cut off.
\<close>

datatype fault = Hardened_Check | Out_Of_Bounds | Null_Dereference | Use_After_Free | Bad_Va_Arg
  | Read_Only_Write | Signed_Overflow | Indeterminate | Out_Of_Fuel

type_synonym 'a res = "fault + 'a"

definition bind_res :: "'e + 'a \<Rightarrow> ('a \<Rightarrow> 'e + 'b) \<Rightarrow> 'e + 'b" where
  "bind_res m f = (case m of Inl e \<Rightarrow> Inl e | Inr x \<Rightarrow> f x)"

definition map_res :: "('a \<Rightarrow> 'b) \<Rightarrow> 'e + 'a \<Rightarrow> 'e + 'b" where
  "map_res f m = bind_res m (\<lambda>x. Inr (f x))"

lemma bind_res_simps [simp]:
  "bind_res (Inl e) f = Inl e"
  "bind_res (Inr x) f = f x"
  by (simp_all add: bind_res_def)

lemma map_res_simps [simp]:
  "map_res f (Inl e) = Inl e"
  "map_res f (Inr x) = Inr (f x)"
  by (simp_all add: map_res_def)

lemma bind_res_cong [fundef_cong]:
  "m = m' \<Longrightarrow> (\<And>x. m' = Inr x \<Longrightarrow> f x = f' x) \<Longrightarrow> bind_res m f = bind_res m' f'"
  by (cases m') auto

lemma bind_res_Inr_iff: "bind_res m f = Inr y \<longleftrightarrow> (\<exists>x. m = Inr x \<and> f x = Inr y)"
  by (cases m) auto

lemma bind_res_Inl_iff: "bind_res m f = Inl e \<longleftrightarrow> m = Inl e \<or> (\<exists>x. m = Inr x \<and> f x = Inl e)"
  by (cases m) auto

lemma bind_res_split:
  "P (bind_res m f) \<longleftrightarrow> (\<forall>e. m = Inl e \<longrightarrow> P (Inl e)) \<and> (\<forall>x. m = Inr x \<longrightarrow> P (f x))"
  by (cases m) auto

lemma map_res_Inr_iff: "map_res f m = Inr y \<longleftrightarrow> (\<exists>x. m = Inr x \<and> y = f x)"
  by (cases m) auto

lemma map_res_Inl_iff: "map_res f m = Inl e \<longleftrightarrow> m = Inl e"
  by (cases m) auto

text \<open>A pointer result: NULL, a pointer to a released block, or a pointer to a live object.\<close>

datatype 'a cptr = Null | Dangling | Ptr 'a

fun deref :: "'a cptr \<Rightarrow> 'a res" where
  "deref Null = Inl Null_Dereference"
| "deref Dangling = Inl Use_After_Free"
| "deref (Ptr x) = Inr x"

lemma deref_Inr_iff [simp]: "deref p = Inr x \<longleftrightarrow> p = Ptr x"
  by (cases p) auto

text \<open>Reading and writing one slot of an array of the code.\<close>

definition load_slot :: "'a list \<Rightarrow> nat \<Rightarrow> 'a res" where
  "load_slot xs i = (if i < length xs then Inr (xs ! i) else Inl Out_Of_Bounds)"

definition store_slot :: "'a list \<Rightarrow> nat \<Rightarrow> 'a \<Rightarrow> 'a list res" where
  "store_slot xs i x = (if i < length xs then Inr (xs[i := x]) else Inl Out_Of_Bounds)"

text \<open>An operation applied to every element of a list in turn.\<close>

fun each_res :: "('a \<Rightarrow> 's \<Rightarrow> 's res) \<Rightarrow> 'a list \<Rightarrow> 's \<Rightarrow> 's res" where
  "each_res f [] s = Inr s"
| "each_res f (x # xs) s = bind_res (f x s) (each_res f xs)"

lemma each_res_append: "each_res f (xs @ ys) s = bind_res (each_res f xs s) (each_res f ys)"
proof (induction xs arbitrary: s)
  case (Cons x xs)
  then show ?case
    by (cases "f x s") simp_all
qed simp

section \<open>Facts on words\<close>

named_theorems wordnat \<open>reading 64 bit arithmetic on \<^const>\<open>unat\<close>\<close>

abbreviation SIZE_MAX :: u64 where
  "SIZE_MAX \<equiv> - 1"

lemma unat_SIZE_MAX [wordnat]: "unat SIZE_MAX = 2 ^ 64 - 1"
  by (simp add: unsigned_minus_1_eq_mask mask_eq_exp_minus_1)

lemma unat_u64_lt [simp]: "unat (x :: u64) < 2 ^ 64"
  using unsigned_less [of x] by simp

lemma unat_u64_add [wordnat]:
  "unat a + unat b < 2 ^ 64 \<Longrightarrow> unat (a + b :: u64) = unat a + unat b"
  using unat_add_lem [of a b] by simp

lemma unat_u64_mult [wordnat]:
  "unat a * unat b < 2 ^ 64 \<Longrightarrow> unat (a * b :: u64) = unat a * unat b"
  using unat_mult_lem [of a b] by simp

lemma unat_u64_sub [wordnat]: "unat b \<le> unat a \<Longrightarrow> unat (a - b :: u64) = unat a - unat b"
  by (simp add: unat_sub word_le_nat_alt)

lemma unat_u64_of_nat [wordnat]: "n < 2 ^ 64 \<Longrightarrow> unat (of_nat n :: u64) = n"
  by (simp add: unat_of_nat)

lemma u64_of_nat_unat [simp]: "(of_nat (unat x) :: u64) = x"
  by simp

text \<open>Signed readings of a 64 bit word (\<open>ssize_t\<close>).\<close>

lemma unat_u64_lt_int: "int (unat (x :: u64)) < 2 ^ 64"
  using unsigned_less [of x] by simp

lemma sint_word:
  fixes w :: "'a :: len word"
  assumes n: "LENGTH('a) = Suc n"
  shows "sint w = (if unat w < 2 ^ n then int (unat w) else int (unat w) - 2 ^ Suc n)"
proof -
  define u where "u = uint w"
  have u: "u < 2 * 2 ^ n" "0 \<le> u"
    using unsigned_less [of w] n by (simp_all add: u_def)
  have "(u + 2 ^ n) mod (2 * 2 ^ n) = (if u < 2 ^ n then u + 2 ^ n else u - 2 ^ n)"
  proof (cases "u < 2 ^ n")
    case False
    have "(u + 2 ^ n) mod (2 * 2 ^ n) = (u - 2 ^ n + 2 * 2 ^ n) mod (2 * 2 ^ n)"
      by (simp add: algebra_simps)
    also have "\<dots> = u - 2 ^ n"
      using False u by (simp only: mod_add_self2) (simp add: mod_pos_pos_trivial)
    finally show ?thesis using False by simp
  qed (use u in \<open>simp add: mod_pos_pos_trivial\<close>)
  moreover have "sint w = (u + 2 ^ n) mod (2 * 2 ^ n) - 2 ^ n"
    unfolding u_def
    by (simp only: sint_uint n diff_Suc_Suc diff_zero signed_take_bit_eq_take_bit_shift)
       (simp add: take_bit_eq_mod)
  moreover have "unat w < 2 ^ n \<longleftrightarrow> u < 2 ^ n" and "int (unat w) = u"
    using nat_less_iff [of "uint w" "2 ^ n"] by (simp_all add: u_def)
  ultimately show ?thesis
    by (simp split: if_splits)
qed

lemma sint_u64: "sint (w :: u64) = (if unat w < 2 ^ 63 then int (unat w) else int (unat w) - 2 ^ 64)"
  using sint_word [of 63 w] by simp

lemma sint_u32: "sint (w :: u32) = (if unat w < 2 ^ 31 then int (unat w) else int (unat w) - 2 ^ 32)"
  using sint_word [of 31 w] by simp

lemma unat_u32_lt: "unat (x :: u32) < 2 ^ 32"
  using unsigned_less [of x] by simp

lemma unat_u32_neg: "w \<noteq> 0 \<Longrightarrow> unat (- w :: u32) = 2 ^ 32 - unat w"
  using unat_sub_if_size [of 0 w] by (simp add: word_size unat_gt_0 [symmetric])

lemma unat_neg: "unat (- w :: u64) = (if w = 0 then 0 else 2 ^ 64 - unat w)"
proof (cases "w = 0")
  case False
  have "unat (SIZE_MAX - w) = 2 ^ 64 - 1 - unat w"
    using unat_u64_lt [of w] by (subst unat_u64_sub) (simp_all add: unat_SIZE_MAX)
  moreover have "- w = (SIZE_MAX - w) + 1" by simp
  moreover have "0 < unat w" using False by (simp add: unat_gt_0)
  ultimately show ?thesis
    using False unat_u64_add [of "SIZE_MAX - w" 1] unat_u64_lt [of w] by simp
qed simp

lemma int_unat_neg: "w \<noteq> 0 \<Longrightarrow> int (unat (- w :: u64)) = 2 ^ 64 - int (unat w)"
  using unat_u64_lt [of w] by (simp only: unat_neg if_False of_nat_diff less_imp_le) simp

lemma sint_u64_diff:
  assumes "- (2 ^ 63) \<le> sint x - sint y" and "sint x - sint y < 2 ^ 63"
  shows "sint (x - y :: u64) = sint x - sint y"
proof -
  have "x - y = of_int (sint x - sint y)"
    by simp
  moreover have "sint (of_int (sint x - sint y) :: u64) = signed_take_bit 63 (sint x - sint y)"
    by (simp only: signed_of_int) simp
  ultimately show ?thesis
    using assms by (simp add: signed_take_bit_int_eq_self_iff)
qed

lemma unat_of_sint: "0 \<le> sint (w :: u64) \<Longrightarrow> int (unat w) = sint w"
  using unat_u64_lt_int [of w] by (auto simp: sint_u64 split: if_splits)

section \<open>Overflow checks of array.h\<close>

definition SAFE_TO_MUL :: "u64 \<Rightarrow> u64 \<Rightarrow> u64 \<Rightarrow> bool" where
  "SAFE_TO_MUL a b mx \<longleftrightarrow> b = 0 \<or> a \<le> mx div b"

definition SAFE_TO_ADD :: "u64 \<Rightarrow> u64 \<Rightarrow> u64 \<Rightarrow> bool" where
  "SAFE_TO_ADD a b mx \<longleftrightarrow> a \<le> mx - b"

definition SAFE_TO_SUB :: "u64 \<Rightarrow> u64 \<Rightarrow> u64 \<Rightarrow> bool" where
  "SAFE_TO_SUB a b mn \<longleftrightarrow> a \<ge> mn + b"

abbreviation SIZE_T_SAFE_TO_MUL :: "u64 \<Rightarrow> u64 \<Rightarrow> bool" where
  "SIZE_T_SAFE_TO_MUL a b \<equiv> SAFE_TO_MUL a b SIZE_MAX"

abbreviation SIZE_T_SAFE_TO_ADD :: "u64 \<Rightarrow> u64 \<Rightarrow> bool" where
  "SIZE_T_SAFE_TO_ADD a b \<equiv> SAFE_TO_ADD a b SIZE_MAX"

abbreviation SIZE_T_SAFE_TO_SUB :: "u64 \<Rightarrow> u64 \<Rightarrow> bool" where
  "SIZE_T_SAFE_TO_SUB a b \<equiv> SAFE_TO_SUB a b 0"

lemma SAFE_TO_MUL_iff: "SIZE_T_SAFE_TO_MUL a b \<longleftrightarrow> unat a * unat b < 2 ^ 64"
proof (cases "b = 0")
  case False
  then have pos: "0 < unat b"
    by (simp add: unat_gt_0)
  have "a \<le> SIZE_MAX div b \<longleftrightarrow> unat a \<le> (2 ^ 64 - 1) div unat b"
    by (simp add: word_le_nat_alt unat_div unat_SIZE_MAX)
  also have "\<dots> \<longleftrightarrow> unat a * unat b \<le> 2 ^ 64 - 1"
    using pos by (simp add: less_eq_div_iff_mult_less_eq)
  finally show ?thesis
    using False by (simp add: SAFE_TO_MUL_def) linarith
qed (simp add: SAFE_TO_MUL_def)

lemma SAFE_TO_ADD_iff: "SIZE_T_SAFE_TO_ADD a b \<longleftrightarrow> unat a + unat b < 2 ^ 64"
proof -
  have "unat (SIZE_MAX - b) = 2 ^ 64 - 1 - unat b"
    using unat_u64_lt [of b] by (subst unat_u64_sub) (simp_all add: unat_SIZE_MAX)
  then show ?thesis
    using unat_u64_lt [of b] by (simp add: SAFE_TO_ADD_def word_le_nat_alt) linarith
qed

lemma SAFE_TO_SUB_iff: "SIZE_T_SAFE_TO_SUB a b \<longleftrightarrow> unat b \<le> unat a"
  by (simp add: SAFE_TO_SUB_def word_le_nat_alt)

lemmas safe_iffs = SAFE_TO_MUL_iff SAFE_TO_ADD_iff SAFE_TO_SUB_iff

section \<open>Rounding a size up to the machine word\<close>

text \<open>\<^verbatim>\<open>size_align\<close> of \<^verbatim>\<open>daemon/srcs/lib/array.c\<close>; \<open>sizeof(void *)\<close> is 8.\<close>

definition size_align :: "u64 \<Rightarrow> u64" where
  "size_align n = (n + 8 - 1) AND NOT (8 - 1)"

lemma and_not_7: "unat (x AND NOT 7 :: u64) = unat x div 8 * 8"
proof -
  have m: "(7 :: u64) = mask 3"
    by (simp add: mask_eq_exp_minus_1)
  have "x - take_bit 3 x = x AND NOT (take_bit 3 x)"
    by (rule disjunctive_diff) (simp add: bit_simps)
  also have "\<dots> = x AND NOT 7"
    unfolding m by (rule bit_eqI) (auto simp: bit_simps)
  finally have "x AND NOT 7 = x - take_bit 3 x" ..
  moreover have "unat (take_bit 3 x) = unat x mod 8"
    by (simp only: unsigned_take_bit_eq) (simp add: take_bit_eq_mod)
  ultimately show ?thesis
    by (simp add: unat_u64_sub minus_mod_eq_div_mult)
qed

lemma unat_size_align:
  assumes "unat n + 7 < 2 ^ 64"
  shows "unat (size_align n) = (unat n + 7) div 8 * 8"
proof -
  have seven: "unat (7 :: u64) = 7"
    by simp
  have "size_align n = (n + 7) AND NOT 7"
    by (simp add: size_align_def add.commute)
  then show ?thesis
    using assms unat_u64_add [of n 7] unfolding seven by (simp only: and_not_7)
qed

lemma size_align_ge: "unat n + 7 < 2 ^ 64 \<Longrightarrow> unat n \<le> unat (size_align n)"
  by (simp add: unat_size_align)

end
