(* ===== verification/Memory.thy ===== *)
theory Memory
  imports Prelude
begin

text \<open>
  Blocks of memory as byte lists. A pointer into a block is the block and an offset;
  \<^verbatim>\<open>memcpy\<close> and \<^verbatim>\<open>memmove\<close> check their ranges against the block, so an access outside
  it is the fault \<^const>\<open>Out_Of_Bounds\<close> and never an unspecified value. The second half
  is the allocator (\<^verbatim>\<open>malloc\<close>, \<^verbatim>\<open>realloc\<close>) behind the function pointers of
  \<^verbatim>\<open>array_allocator_t\<close>: what it decides (to refuse a size, the junk in fresh memory,
  whether \<^verbatim>\<open>realloc(p, 0)\<close> releases the block) is a parameter.
\<close>

section \<open>Reading and writing a block\<close>

definition mem_load :: "'a list \<Rightarrow> nat \<Rightarrow> nat \<Rightarrow> 'a list res" where
  "mem_load buf off n =
     (if off + n \<le> length buf then Inr (take n (drop off buf)) else Inl Out_Of_Bounds)"

definition mem_store :: "'a list \<Rightarrow> nat \<Rightarrow> 'a list \<Rightarrow> 'a list res" where
  "mem_store buf off xs =
     (if off + length xs \<le> length buf
      then Inr (take off buf @ xs @ drop (off + length xs) buf) else Inl Out_Of_Bounds)"

text \<open>\<open>mem_copy dst d src s n\<close> copies \<open>n\<close> bytes from offset \<open>s\<close> of \<open>src\<close> to offset \<open>d\<close> of \<open>dst\<close>.\<close>

definition mem_copy :: "'a list \<Rightarrow> nat \<Rightarrow> 'a list \<Rightarrow> nat \<Rightarrow> nat \<Rightarrow> 'a list res" where
  "mem_copy dst d src s n = bind_res (mem_load src s n) (mem_store dst d)"

text \<open>Within one block the ranges may overlap: all is read before anything is written.\<close>

definition mem_move :: "'a list \<Rightarrow> nat \<Rightarrow> nat \<Rightarrow> nat \<Rightarrow> 'a list res" where
  "mem_move buf d s n = mem_copy buf d buf s n"

lemma mem_load_append:
  "i = length xs \<Longrightarrow> n = length ys \<Longrightarrow> mem_load (xs @ ys @ zs) i n = Inr ys"
  by (simp add: mem_load_def)

lemma mem_load_all: "n = length ys \<Longrightarrow> mem_load ys 0 n = Inr ys"
  by (simp add: mem_load_def)

lemma mem_store_append:
  "i = length xs \<Longrightarrow> length ys' = length ys \<Longrightarrow>
   mem_store (xs @ ys @ zs) i ys' = Inr (xs @ ys' @ zs)"
  by (simp add: mem_store_def)

lemma mem_store_length: "mem_store buf off xs = Inr buf' \<Longrightarrow> length buf' = length buf"
  by (auto simp: mem_store_def split: if_splits)

lemma mem_copy_append:
  assumes "d = length xs" and "s = length us" and "n = length vs" and "length ys = length vs"
  shows "mem_copy (xs @ ys @ zs) d (us @ vs @ ws) s n = Inr (xs @ vs @ zs)"
  using assms by (simp add: mem_copy_def mem_load_append mem_store_append)

lemma mem_copy_from_start:
  assumes "d = length xs" and "n = length vs" and "length ys = length vs"
  shows "mem_copy (xs @ ys @ zs) d vs 0 n = Inr (xs @ vs @ zs)"
  using mem_copy_append [of d xs 0 "[]" n vs ys zs "[]"] assms by simp

text \<open>Shifting the tail \<open>B\<close> of a used region up by \<open>k\<close> opens a gap; shifting it down closes one.\<close>

lemma mem_move_split:
  assumes "buf = P @ B @ Q" and "buf = X @ Y @ Z" and "length Y = length B"
    and "s = length P" and "d = length X" and "n = length B"
  shows "mem_move buf d s n = Inr (X @ B @ Z)"
proof -
  have "mem_load buf s n = Inr B"
    unfolding assms(1) using assms(4,6) by (simp add: mem_load_append)
  moreover have "mem_store buf d B = Inr (X @ B @ Z)"
    unfolding assms(2) using assms(3,5) by (simp add: mem_store_append)
  ultimately show ?thesis
    by (simp add: mem_move_def mem_copy_def)
qed

lemma mem_move_up:
  assumes "length S = k"
  obtains X where "length X = k"
    and "mem_move (A @ B @ S @ R) (length A + k) (length A) (length B) = Inr (A @ X @ B @ R)"
proof -
  let ?X = "take k (B @ S)" and ?Y = "drop k (B @ S)"
  have eq: "A @ B @ S @ R = (A @ ?X) @ ?Y @ R"
    by (metis append.assoc append_take_drop_id)
  have len: "length ?X = k" "length ?Y = length B"
    using assms by simp_all
  have "mem_move (A @ B @ S @ R) (length A + k) (length A) (length B) = Inr ((A @ ?X) @ B @ R)"
    by (rule mem_move_split [OF refl eq len(2) refl _ refl]) (simp add: assms)
  then show thesis
    using that [OF len(1)] by simp
qed

lemma mem_move_down:
  obtains S where "length S = length X"
    and "mem_move (A @ X @ B @ R) (length A) (length A + length X) (length B) = Inr (A @ B @ S @ R)"
proof -
  let ?Y = "take (length B) (X @ B)" and ?S = "drop (length B) (X @ B)"
  have eq: "A @ X @ B @ R = A @ ?Y @ ?S @ R" and eq': "A @ X @ B @ R = (A @ X) @ B @ R"
    by (metis append.assoc append_take_drop_id) simp
  have len: "length ?S = length X" "length ?Y = length B"
    by simp_all
  have "mem_move (A @ X @ B @ R) (length A) (length A + length X) (length B) = Inr (A @ B @ ?S @ R)"
    by (rule mem_move_split [OF eq' eq len(2) _ refl refl]) simp
  then show thesis
    using that [OF len(1)] by simp
qed

section \<open>A block as a row of elements\<close>

fun chunks :: "nat \<Rightarrow> nat \<Rightarrow> 'a list \<Rightarrow> 'a list list" where
  "chunks w 0 xs = []"
| "chunks w (Suc n) xs = take w xs # chunks w n (drop w xs)"

lemma length_chunks [simp]: "length (chunks w n xs) = n"
  by (induction w n xs rule: chunks.induct) auto

lemma chunks_concat:
  "\<forall>e \<in> set es. length e = w \<Longrightarrow> chunks w (length es) (concat es @ rest) = es"
  by (induction es) auto

lemma concat_chunks: "n * w \<le> length xs \<Longrightarrow> concat (chunks w n xs) = take (n * w) xs"
  by (induction w n xs rule: chunks.induct) (auto simp: take_add)

lemma chunks_width: "n * w \<le> length xs \<Longrightarrow> e \<in> set (chunks w n xs) \<Longrightarrow> length e = w"
  by (induction w n xs rule: chunks.induct) auto

lemma length_concat_width:
  "\<forall>e \<in> set es. length e = w \<Longrightarrow> length (concat es) = length es * w"
  by (induction es) auto

lemma chunks_nth: "i < n \<Longrightarrow> chunks w n xs ! i = take w (drop (i * w) xs)"
  by (induction w n xs arbitrary: i rule: chunks.induct)
     (auto simp: nth_Cons drop_drop add.commute split: nat.splits)

section \<open>The allocator\<close>

record allocator =
  grants :: "u64 \<Rightarrow> bool"
  junk :: "nat \<Rightarrow> u8"
  zero_frees :: bool

definition malloc :: "allocator \<Rightarrow> u64 \<Rightarrow> bytes option" where
  "malloc al n = (if grants al n then Some (map (junk al) [0..<unat n]) else None)"

text \<open>
  The three outcomes of \<^verbatim>\<open>realloc\<close>: NULL with the old block untouched, NULL with the old
  block released (permitted for size 0 only), or a block of the new size whose common
  prefix is the old content.
\<close>

datatype realloc_result = Realloc_Failed | Realloc_Released | Realloc_Moved bytes

definition realloc :: "allocator \<Rightarrow> bytes \<Rightarrow> u64 \<Rightarrow> realloc_result" where
  "realloc al old n =
     (if n = 0 \<and> zero_frees al then Realloc_Released
      else if \<not> grants al n then Realloc_Failed
      else Realloc_Moved (take (unat n) old @ map (junk al) [length old..<unat n]))"

locale allocator_contract =
  fixes alloc :: "u64 \<Rightarrow> bytes option"
    and resize :: "bytes \<Rightarrow> u64 \<Rightarrow> realloc_result"
  assumes alloc_length: "alloc n = Some b \<Longrightarrow> length b = unat n"
    and resize_length: "resize b n = Realloc_Moved b' \<Longrightarrow> length b' = unat n"
    and resize_prefix:
      "resize b n = Realloc_Moved b' \<Longrightarrow> k \<le> length b \<Longrightarrow> k \<le> unat n \<Longrightarrow> take k b' = take k b"
    and resize_released: "resize b n = Realloc_Released \<Longrightarrow> n = 0"
begin

text \<open>What a client needs when a block grows: the used part is still there.\<close>

lemma resize_keeps:
  assumes "resize (xs @ ys) n = Realloc_Moved b'" and "length xs \<le> unat n"
  obtains zs where "b' = xs @ zs" and "length xs + length zs = unat n"
proof -
  have "take (length xs) b' = xs"
    using resize_prefix [OF assms(1), of "length xs"] assms(2) by simp
  moreover have "length b' = unat n"
    using assms(1) by (rule resize_length)
  ultimately show thesis
    using that [of "drop (length xs) b'"] assms(2)
    by (metis append_take_drop_id length_append)
qed

lemma resize_used:
  assumes "resize b n = Realloc_Moved b'" and "k \<le> length b" and "k \<le> unat n"
  shows "take k b' = take k b" and "k \<le> length b'"
  using resize_prefix [OF assms] resize_length [OF assms(1)] assms(3) by simp_all

end

interpretation libc: allocator_contract "malloc al" "realloc al" for al
  by unfold_locales (auto simp: malloc_def realloc_def min_def split: if_splits)

lemma malloc_None_iff: "malloc al n = None \<longleftrightarrow> \<not> grants al n"
  by (simp add: malloc_def)

text \<open>Whether \<^verbatim>\<open>realloc\<close> moves the block does not depend on its content.\<close>

definition resizes :: "allocator \<Rightarrow> u64 \<Rightarrow> bool" where
  "resizes al n \<longleftrightarrow> grants al n \<and> \<not> (n = 0 \<and> zero_frees al)"

lemma realloc_moved_iff: "(\<exists>b'. realloc al b n = Realloc_Moved b') \<longleftrightarrow> resizes al n"
  by (simp add: realloc_def resizes_def)

end
