(* ===== verification/Sequence.thy ===== *)
theory Sequence
  imports Memory
begin

text \<open>
  The contract of \<^verbatim>\<open>daemon/srcs/lib/array.c\<close> without its bytes: when an array grows
  (\<open>adjust_plan\<close>, the arithmetic of \<^verbatim>\<open>array_adjust\<close>), and a sequence of typed elements
  with the same capacity bookkeeping. The byte arrays of theory \<open>Array\<close> refine it; the
  components that keep typed elements in an array (events, children) work on it.
\<close>

section \<open>When an array grows\<close>

datatype growth = Fits | Refused | Grow u64

definition ARRAY_INITIAL_SIZE :: u64 where
  "ARRAY_INITIAL_SIZE = 64"

definition SIZE_TYPE_MAX :: u64 where
  "SIZE_TYPE_MAX = 2147483647"

definition adjust_plan :: "u64 \<Rightarrow> u64 \<Rightarrow> u64 \<Rightarrow> bool \<Rightarrow> u64 \<Rightarrow> growth res" where
  "adjust_plan nmemb cap elt settled n =
    (if \<not> SIZE_T_SAFE_TO_MUL cap 2 then Inl Hardened_Check
     else if \<not> SIZE_T_SAFE_TO_ADD nmemb n then Inl Hardened_Check
     else if \<not> SIZE_T_SAFE_TO_MUL (nmemb + n) elt then Inl Hardened_Check
     else
       let n = (n + nmemb) * elt in
       if n < cap then Inr Fits
       else if settled then Inr Refused
       else
         let cap_2x = cap * 2 in
         if \<not> cap_2x < ARRAY_INITIAL_SIZE \<and> cap_2x > SIZE_TYPE_MAX then Inr Refused
         else
           let cap_2x = (if cap_2x < ARRAY_INITIAL_SIZE then ARRAY_INITIAL_SIZE else cap_2x)
           in Inr (Grow (if n > cap_2x then size_align n else cap_2x)))"

text \<open>The bytes needed for \<open>n\<close> more elements stay below the sizes \<^const>\<open>size_align\<close> wraps at.\<close>

definition addressable :: "u64 \<Rightarrow> u64 \<Rightarrow> u64 \<Rightarrow> bool" where
  "addressable nmemb elt n \<longleftrightarrow> (unat nmemb + unat n) * unat elt + 7 < 2 ^ 64"

lemma adjust_plan_checks:
  assumes "adjust_plan nmemb cap elt settled n = Inr g"
  shows "unat cap * 2 < 2 ^ 64" and "unat nmemb + unat n < 2 ^ 64"
    and "(unat nmemb + unat n) * unat elt < 2 ^ 64"
  using assms by (auto simp: adjust_plan_def safe_iffs unat_u64_add split: if_splits)

text \<open>The number of bytes \<^verbatim>\<open>array_adjust\<close> computes is the exact one once its checks have passed.\<close>

lemma adjust_plan_bytes:
  assumes "adjust_plan nmemb cap elt settled n = Inr g"
  shows "unat ((n + nmemb) * elt) = (unat nmemb + unat n) * unat elt"
proof -
  note checks = adjust_plan_checks [OF assms]
  have "unat (n + nmemb) = unat nmemb + unat n"
    using checks(2) by (simp add: unat_u64_add add.commute)
  then show ?thesis
    using checks(3) by (simp add: unat_u64_mult)
qed

lemma adjust_plan_cases:
  assumes plan: "adjust_plan nmemb cap elt settled n = Inr g"
  shows "case g of
      Fits \<Rightarrow> (unat nmemb + unat n) * unat elt < unat cap
    | Refused \<Rightarrow> settled \<or> SIZE_TYPE_MAX < cap * 2
    | Grow m \<Rightarrow> \<not> settled \<and> unat cap \<le> (unat nmemb + unat n) * unat elt"
proof -
  note bytes = adjust_plan_bytes [OF plan]
  show ?thesis
    using plan unfolding adjust_plan_def Let_def
    by (auto simp: bytes word_less_nat_alt not_less split: if_splits growth.splits)
qed

text \<open>The new capacity: the doubled one (64 at least), or the aligned need when that is more.\<close>

lemma adjust_plan_new_size:
  assumes plan: "adjust_plan nmemb cap elt settled n = Inr (Grow m)"
  obtains c2 where "64 \<le> unat c2" and "2 * unat cap \<le> unat c2"
    and "m = (if (n + nmemb) * elt > c2 then size_align ((n + nmemb) * elt) else c2)"
proof -
  let ?c2 = "if cap * 2 < 64 then 64 else cap * 2"
  have "unat (cap * 2) = 2 * unat cap"
    using adjust_plan_checks(1) [OF plan] by (simp add: unat_u64_mult)
  then have "64 \<le> unat ?c2" "2 * unat cap \<le> unat ?c2"
    by (auto simp: word_less_nat_alt)
  moreover have "m = (if (n + nmemb) * elt > ?c2 then size_align ((n + nmemb) * elt) else ?c2)"
    using plan unfolding adjust_plan_def Let_def ARRAY_INITIAL_SIZE_def
    by (simp split: if_splits)
  ultimately show thesis
    by (rule that)
qed

lemma adjust_plan_Grow:
  assumes plan: "adjust_plan nmemb cap elt settled n = Inr (Grow m)"
    and room: "addressable nmemb elt n"
  shows "(unat nmemb + unat n) * unat elt \<le> unat m" and "unat cap \<le> unat m" and "m \<noteq> 0"
    and "64 \<le> unat m"
proof -
  let ?need = "(unat nmemb + unat n) * unat elt"
  obtain c2 where c2: "64 \<le> unat c2" "2 * unat cap \<le> unat c2"
    and m: "m = (if (n + nmemb) * elt > c2 then size_align ((n + nmemb) * elt) else c2)"
    using adjust_plan_new_size [OF plan] by blast
  note bytes = adjust_plan_bytes [OF plan]
  have align: "?need \<le> unat (size_align ((n + nmemb) * elt))"
    using size_align_ge [of "(n + nmemb) * elt"] room by (simp add: bytes addressable_def)
  show "?need \<le> unat m" "unat cap \<le> unat m" "64 \<le> unat m"
    using align c2 by (auto simp: m bytes word_less_nat_alt)
  then show "m \<noteq> 0"
    by auto
qed

section \<open>The contract of a growable sequence\<close>

text \<open>
  What a client of an array relies on: a push that returns keeps the invariant and either
  appends the element or, when it reports failure, leaves the elements alone.
\<close>

fun push_all :: "('s \<Rightarrow> 'e \<Rightarrow> ('s \<times> bool) res) \<Rightarrow> 's \<Rightarrow> 'e list \<Rightarrow> ('s \<times> bool) res" where
  "push_all push s [] = Inr (s, True)"
| "push_all push s (x # xs) =
     bind_res (push s x) (\<lambda>(s, ok). if ok then push_all push s xs else Inr (s, False))"

locale growable_sequence =
  fixes items :: "'s \<Rightarrow> 'e list"
    and invar :: "'s \<Rightarrow> bool"
    and admits :: "'s \<Rightarrow> 'e \<Rightarrow> bool"
    and push :: "'s \<Rightarrow> 'e \<Rightarrow> ('s \<times> bool) res"
  assumes push_items: "invar s \<Longrightarrow> admits s x \<Longrightarrow> push s x = Inr (s', ok) \<Longrightarrow>
      items s' = (if ok then items s @ [x] else items s)"
    and push_invar: "invar s \<Longrightarrow> admits s x \<Longrightarrow> push s x = Inr (s', ok) \<Longrightarrow> invar s'"
    and push_admits: "invar s \<Longrightarrow> admits s x \<Longrightarrow> push s x = Inr (s', ok) \<Longrightarrow> admits s' = admits s"
    and push_faults: "invar s \<Longrightarrow> admits s x \<Longrightarrow> push s x = Inl f \<Longrightarrow> f = Hardened_Check"
begin

lemmas push_laws = push_items push_invar push_admits

text \<open>A run of pushes appends a prefix of what it was given, all of it when it succeeds.\<close>

lemma push_all_items:
  assumes "invar s" and "\<forall>x \<in> set xs. admits s x" and "push_all push s xs = Inr (s', ok)"
  shows "invar s' \<and> admits s' = admits s \<and>
    (\<exists>k \<le> length xs. items s' = items s @ take k xs \<and> (ok \<longleftrightarrow> k = length xs))"
  using assms
proof (induction xs arbitrary: s)
  case Nil
  then show ?case by simp
next
  case (Cons x xs)
  from Cons.prems(3) obtain t b where step: "push s x = Inr (t, b)"
    and rest: "(if b then push_all push t xs else Inr (t, False)) = Inr (s', ok)"
    by (auto simp: bind_res_Inr_iff)
  have x: "admits s x"
    using Cons.prems(2) by simp
  note laws = push_laws [OF Cons.prems(1) x step]
  show ?case
  proof (cases b)
    case True
    then have run: "push_all push t xs = Inr (s', ok)"
      using rest by simp
    have ih: "invar s' \<and> admits s' = admits t \<and>
        (\<exists>k \<le> length xs. items s' = items t @ take k xs \<and> (ok \<longleftrightarrow> k = length xs))"
      by (rule Cons.IH [OF laws(2) _ run]) (use Cons.prems(2) laws(3) in simp)
    then obtain k where "k \<le> length xs" "items s' = items t @ take k xs" "ok \<longleftrightarrow> k = length xs"
      by blast
    then have "Suc k \<le> length (x # xs) \<and> items s' = items s @ take (Suc k) (x # xs) \<and>
        (ok \<longleftrightarrow> Suc k = length (x # xs))"
      using laws(1) True by simp
    then show ?thesis
      using ih laws(3) by (metis)
  next
    case False
    then have "s' = t" "\<not> ok"
      using rest by simp_all
    then have "items s' = items s @ take 0 (x # xs) \<and> (ok \<longleftrightarrow> 0 = length (x # xs))"
      using laws(1) False by simp
    then show ?thesis
      using laws(2,3) \<open>s' = t\<close> by blast
  qed
qed

lemma push_all_faults:
  assumes "invar s" and "\<forall>x \<in> set xs. admits s x" and "push_all push s xs = Inl f"
  shows "f = Hardened_Check"
  using assms
proof (induction xs arbitrary: s)
  case Nil
  then show ?case by simp
next
  case (Cons x xs)
  have x: "admits s x"
    using Cons.prems(2) by simp
  show ?case
  proof (cases "push s x")
    case (Inl e)
    then show ?thesis
      using Cons.prems(3) push_faults [OF Cons.prems(1) x Inl] by simp
  next
    case (Inr r)
    then obtain t b where step: "push s x = Inr (t, b)"
      by (cases r) simp
    note laws = push_laws [OF Cons.prems(1) x step]
    have run: "push_all push t xs = Inl f"
      using Cons.prems(3) step by (cases b) simp_all
    show ?thesis
      by (rule Cons.IH [OF laws(2) _ run]) (use Cons.prems(2) laws(3) in simp)
  qed
qed

end

section \<open>Typed sequences\<close>

record 'e seq =
  s_items :: "'e list"
  s_cap :: u64
  s_elt_size :: u64
  s_settled :: bool

abbreviation s_nmemb :: "('e, 'b) seq_scheme \<Rightarrow> u64" where
  "s_nmemb s \<equiv> of_nat (length (s_items s))"

fun apply_growth :: "allocator \<Rightarrow> 'e seq \<Rightarrow> growth \<Rightarrow> 'e seq \<times> bool" where
  "apply_growth al s Fits = (s, True)"
| "apply_growth al s Refused = (s, False)"
| "apply_growth al s (Grow m) = (if resizes al m then (s\<lparr>s_cap := m\<rparr>, True) else (s, False))"

definition seq_adjust :: "allocator \<Rightarrow> 'e seq \<Rightarrow> u64 \<Rightarrow> ('e seq \<times> bool) res" where
  "seq_adjust al s n = map_res (apply_growth al s)
     (adjust_plan (s_nmemb s) (s_cap s) (s_elt_size s) (s_settled s) n)"

definition seq_push :: "allocator \<Rightarrow> 'e seq \<Rightarrow> 'e \<Rightarrow> ('e seq \<times> bool) res" where
  "seq_push al s x =
     map_res (\<lambda>(s, ok). (if ok then s\<lparr>s_items := s_items s @ [x]\<rparr> else s, ok)) (seq_adjust al s 1)"

definition seq_inject :: "allocator \<Rightarrow> 'e seq \<Rightarrow> nat \<Rightarrow> 'e list \<Rightarrow> ('e seq \<times> bool) res" where
  "seq_inject al s p xs =
     map_res (\<lambda>(s, ok).
         (if ok then s\<lparr>s_items := take p (s_items s) @ xs @ drop p (s_items s)\<rparr> else s, ok))
       (seq_adjust al s (of_nat (length xs)))"

definition seq_tail :: "'e seq \<Rightarrow> 'e option" where
  "seq_tail s = (if s_items s = [] then None else Some (last (s_items s)))"

definition sizeof_array_t :: u64 where
  "sizeof_array_t = 48"

text \<open>\<^verbatim>\<open>array_create\<close> for typed elements: NULL, a released header, or an empty sequence.\<close>

definition seq_create :: "allocator \<Rightarrow> u64 \<Rightarrow> u64 \<Rightarrow> 'e seq cptr res" where
  "seq_create al elt n =
     (if elt = 0 then Inl Hardened_Check
      else if \<not> SIZE_T_SAFE_TO_MUL elt n then Inl Hardened_Check
      else
        let n = (if n = 0 then ARRAY_INITIAL_SIZE else n);
            cap = size_align (elt * n) in
        if \<not> grants al sizeof_array_t then Inr Null
        else if \<not> grants al cap then Inr Dangling
        else Inr (Ptr \<lparr>s_items = [], s_cap = cap, s_elt_size = elt, s_settled = False\<rparr>))"

definition seq_wf :: "'e seq \<Rightarrow> bool" where
  "seq_wf s \<longleftrightarrow> 0 < unat (s_elt_size s) \<and> unat (s_elt_size s) < 2 ^ 62 \<and>
     length (s_items s) * unat (s_elt_size s) \<le> unat (s_cap s)"

lemma apply_growth_frame:
  "apply_growth al s g = (s', ok) \<Longrightarrow>
   s_items s' = s_items s \<and> s_elt_size s' = s_elt_size s \<and> s_settled s' = s_settled s"
  by (cases g) (auto split: if_splits)

lemma seq_push_items:
  "seq_push al s x = Inr (s', ok) \<Longrightarrow>
   s_items s' = (if ok then s_items s @ [x] else s_items s) \<and>
   s_elt_size s' = s_elt_size s \<and> s_settled s' = s_settled s"
  by (auto simp: seq_push_def seq_adjust_def map_res_Inr_iff dest!: apply_growth_frame [OF sym]
      split: prod.splits if_splits)

lemma seq_adjust_items: "seq_adjust al s n = Inr (s', ok) \<Longrightarrow> s_items s' = s_items s"
  by (auto simp: seq_adjust_def map_res_Inr_iff dest!: apply_growth_frame [OF sym])

lemma seq_push_inject: "seq_inject al s (length (s_items s)) [x] = seq_push al s x"
proof (cases "seq_adjust al s 1")
  case (Inr r)
  then obtain s' ok where "seq_adjust al s 1 = Inr (s', ok)"
    by (cases r) simp
  then show ?thesis
    using seq_adjust_items [of al s 1 s' ok] by (simp add: seq_inject_def seq_push_def)
qed (simp add: seq_inject_def seq_push_def)

text \<open>A well-formed sequence never wraps when it grows by one: its elements are small objects.\<close>

lemma seq_wf_bounds:
  assumes "seq_wf s"
  shows "length (s_items s) < 2 ^ 64" and "unat (s_nmemb s) = length (s_items s)"
proof -
  have "length (s_items s) \<le> length (s_items s) * unat (s_elt_size s)"
    using assms by (simp add: seq_wf_def)
  also have "\<dots> \<le> unat (s_cap s)"
    using assms by (simp add: seq_wf_def)
  also have "\<dots> < 2 ^ 64"
    by (rule unat_u64_lt)
  finally show "length (s_items s) < 2 ^ 64" .
  then show "unat (s_nmemb s) = length (s_items s)"
    by (simp add: unat_u64_of_nat)
qed

lemma addressable_1:
  assumes "adjust_plan nmemb cap elt settled 1 = Inr g"
    and "unat nmemb * unat elt \<le> unat cap" and "unat elt < 2 ^ 62"
  shows "addressable nmemb elt 1"
  using adjust_plan_checks(1) [OF assms(1)] assms(2,3) by (simp add: addressable_def algebra_simps)

lemma seq_push_wf:
  assumes wf: "seq_wf s" and push: "seq_push al s x = Inr (s', ok)"
  shows "seq_wf s'"
proof -
  obtain g where plan: "adjust_plan (s_nmemb s) (s_cap s) (s_elt_size s) (s_settled s) 1 = Inr g"
    using push by (auto simp: seq_push_def seq_adjust_def map_res_Inr_iff)
  note n = seq_wf_bounds [OF wf]
  have room: "addressable (s_nmemb s) (s_elt_size s) 1"
    using addressable_1 [OF plan] wf n by (simp add: seq_wf_def)
  have "(length (s_items s) + 1) * unat (s_elt_size s) \<le> unat m" if "g = Grow m" for m
    using adjust_plan_Grow(1) [of "s_nmemb s" _ _ _ 1 m, OF plan [unfolded that] room] n by simp
  moreover have "(length (s_items s) + 1) * unat (s_elt_size s) < unat (s_cap s)" if "g = Fits"
    using adjust_plan_cases [OF plan] that n by simp
  ultimately show ?thesis
    using push plan wf
    by (cases g) (auto simp: seq_push_def seq_adjust_def seq_wf_def split: if_splits)
qed

lemma adjust_plan_faults: "adjust_plan nmemb cap elt settled n = Inl f \<Longrightarrow> f = Hardened_Check"
  by (simp add: adjust_plan_def Let_def split: if_splits)

lemma seq_push_faults: "seq_push al s x = Inl f \<Longrightarrow> f = Hardened_Check"
  by (auto simp: seq_push_def seq_adjust_def map_res_Inl_iff dest: adjust_plan_faults)

interpretation typed: growable_sequence s_items seq_wf "\<lambda>s x. True" "seq_push al" for al
  by unfold_locales (auto dest: seq_push_items seq_push_wf seq_push_faults)

section \<open>Sequences of small objects\<close>

text \<open>Small sequences: no check of the hardened runtime can fire, and the capacity stays small.\<close>

lemma adjust_plan_small:
  assumes cap: "unat cap \<le> 2 ^ 31" and fits: "unat nmemb * unat elt \<le> unat cap"
    and elt: "0 < unat elt" "unat elt \<le> 2 ^ 20"
  obtains g where "adjust_plan nmemb cap elt settled 1 = Inr g"
    and "\<And>m. g = Grow m \<Longrightarrow> unat m \<le> 2 ^ 31"
proof -
  have "unat nmemb \<le> unat nmemb * unat elt"
    using elt by simp
  then have n: "unat nmemb \<le> 2 ^ 31"
    using fits cap by linarith
  then have n1: "unat (nmemb + 1) = unat nmemb + 1"
    by (simp add: unat_u64_add)
  have need: "unat (nmemb + 1) * unat elt \<le> unat cap + unat elt"
    using fits by (simp add: n1)
  have checks: "SIZE_T_SAFE_TO_MUL cap 2" "SIZE_T_SAFE_TO_ADD nmemb 1" "SIZE_T_SAFE_TO_MUL (nmemb + 1) elt"
    using cap n need elt by (simp_all add: safe_iffs)
  then obtain g where plan: "adjust_plan nmemb cap elt settled 1 = Inr g"
    by (cases "adjust_plan nmemb cap elt settled 1")
       (auto simp: adjust_plan_def Let_def split: if_splits)
  have "unat m \<le> 2 ^ 31" if g: "g = Grow m" for m
  proof -
    have c2: "unat (cap * 2) = unat cap * 2"
      using cap by (simp add: unat_u64_mult)
    have b: "unat ((1 + nmemb) * elt) = (unat nmemb + 1) * unat elt"
      using adjust_plan_bytes [OF plan] by simp
    have align: "unat (size_align ((1 + nmemb) * elt)) \<le> unat cap + unat elt + 7"
      using need cap elt by (subst unat_size_align) (simp_all add: b n1)
    show ?thesis
      using plan g align b need c2 elt cap unfolding adjust_plan_def Let_def ARRAY_INITIAL_SIZE_def SIZE_TYPE_MAX_def
      by (auto simp: word_less_nat_alt n1 split: if_splits)
  qed
  with plan show thesis
    by (rule that)
qed

definition seq_small :: "'e seq \<Rightarrow> bool" where
  "seq_small s \<longleftrightarrow> seq_wf s \<and> unat (s_cap s) \<le> 2 ^ 31 \<and> unat (s_elt_size s) \<le> 2 ^ 20"

lemma seq_push_small:
  assumes "seq_small s"
  obtains s' ok where "seq_push al s x = Inr (s', ok)" and "seq_small s'"
    and "unat (s_cap s) \<le> unat (s_cap s')"
    and "(length (s_items s) + 1) * unat (s_elt_size s) < unat (s_cap s) \<Longrightarrow> ok"
proof -
  note n = seq_wf_bounds [of s]
  obtain g where plan: "adjust_plan (s_nmemb s) (s_cap s) (s_elt_size s) (s_settled s) 1 = Inr g"
    and m: "\<And>m. g = Grow m \<Longrightarrow> unat m \<le> 2 ^ 31"
    using adjust_plan_small [of "s_cap s" "s_nmemb s" "s_elt_size s" "s_settled s"] assms n
    unfolding seq_small_def seq_wf_def by (metis)
  obtain s' ok where push: "seq_push al s x = Inr (s', ok)"
    using plan by (cases "apply_growth al s g") (simp add: seq_push_def seq_adjust_def)
  have "seq_wf s'" "s_elt_size s' = s_elt_size s"
    using assms seq_push_wf [OF _ push] seq_push_items [OF push] by (simp_all add: seq_small_def)
  moreover have "unat (s_cap s') \<le> 2 ^ 31 \<and> unat (s_cap s) \<le> unat (s_cap s') \<and>
      ((length (s_items s) + 1) * unat (s_elt_size s) < unat (s_cap s) \<longrightarrow> ok)"
  proof (cases g)
    case (Grow k)
    have "addressable (s_nmemb s) (s_elt_size s) 1"
      using addressable_1 [OF plan] assms n by (simp add: seq_small_def seq_wf_def)
    then have "unat (s_cap s) \<le> unat k"
      using adjust_plan_Grow(2) plan Grow by blast
    moreover have "unat (s_cap s) \<le> (length (s_items s) + 1) * unat (s_elt_size s)"
      using adjust_plan_cases [OF plan] Grow n assms by (simp add: seq_small_def)
    ultimately show ?thesis
      using push plan Grow m [OF Grow] assms
      by (auto simp: seq_push_def seq_adjust_def seq_small_def split: if_splits)
  next
    case Fits
    then show ?thesis
      using push plan assms by (auto simp: seq_push_def seq_adjust_def seq_small_def)
  next
    case Refused
    have "unat (s_cap s) \<le> (length (s_items s) + 1) * unat (s_elt_size s)"
      using plan adjust_plan_bytes [OF plan] Refused n assms
      by (auto simp: adjust_plan_def Let_def word_less_nat_alt seq_small_def split: if_splits)
    then show ?thesis
      using push plan assms Refused by (auto simp: seq_push_def seq_adjust_def seq_small_def)
  qed
  ultimately show thesis
    using that push assms by (simp add: seq_small_def)
qed

text \<open>A push is refused only from a gigabyte on, or when the heap refuses.\<close>

lemma seq_push_room:
  assumes small: "seq_small s" and mem: "\<And>n. grants al n" and free: "\<not> s_settled s"
    and room: "(length (s_items s) + 1) * unat (s_elt_size s) < 2 ^ 30"
  obtains s' where "seq_push al s x = Inr (s', True)" and "seq_small s'" and "s_items s' = s_items s @ [x]"
    and "s_elt_size s' = s_elt_size s" and "s_settled s' = s_settled s"
proof -
  obtain s' ok where push: "seq_push al s x = Inr (s', ok)" and s': "seq_small s'"
    using seq_push_small [OF small] by blast
  obtain g where plan: "adjust_plan (s_nmemb s) (s_cap s) (s_elt_size s) (s_settled s) 1 = Inr g"
    and growth: "ok = snd (apply_growth al s g)"
    using push by (auto simp: seq_push_def seq_adjust_def map_res_Inr_iff dest: arg_cong [of _ _ snd])
  have n: "unat (s_nmemb s) = length (s_items s)"
    using small by (simp add: seq_small_def seq_wf_bounds)
  have ok
  proof (cases g)
    case (Grow m)
    have "addressable (s_nmemb s) (s_elt_size s) 1"
      using addressable_1 [OF plan] small n by (simp add: seq_small_def seq_wf_def)
    then have "m \<noteq> 0"
      using adjust_plan_Grow(3) plan Grow by blast
    then show ok
      using growth Grow mem by (simp add: resizes_def)
  next
    case Fits
    then show ok
      using growth by simp
  next
    case Refused
    have "unat (s_cap s * 2) = 2 * unat (s_cap s)"
      using adjust_plan_checks(1) [OF plan] by (simp add: unat_u64_mult)
    moreover have "unat (s_cap s) \<le> (length (s_items s) + 1) * unat (s_elt_size s)"
      using plan adjust_plan_bytes [OF plan] Refused n
      by (auto simp: adjust_plan_def Let_def word_less_nat_alt split: if_splits)
    ultimately show ok
      using adjust_plan_cases [OF plan] Refused free room by (simp add: SIZE_TYPE_MAX_def word_less_nat_alt)
  qed
  then show thesis
    using that [of s'] push s' seq_push_items [OF push] by simp
qed

end
