(* ===== verification/Array.thy ===== *)
theory Array
  imports Sequence
begin

text \<open>
  The dynamic array of \<^verbatim>\<open>daemon/srcs/lib/array.c\<close> on its bytes. \<open>array\<close> is \<^verbatim>\<open>array_t\<close>:
  \<open>a_ptr\<close> is the content of the block \<^verbatim>\<open>_ptr\<close> points to (empty once that block is
  released), the sizes are 64 bit words and every product of them wraps as in C. Each
  operation returns the array it leaves behind; one that runs the element destructor
  \<^verbatim>\<open>_free\<close> also returns the elements it destroyed, in order. A \<^verbatim>\<open>notify_bug_on\<close> that
  fires is the fault \<^const>\<open>Hardened_Check\<close>; \<open>self\<close> and element pointers are not NULL (the
  hardened runtime traps a NULL \<open>self\<close>), and the element given to a push does not point
  into the array's own block.
\<close>

section \<open>State\<close>

record array =
  a_ptr :: bytes
  a_nmemb :: u64
  a_cap :: u64
  a_elt_size :: u64
  a_is_own_buffer :: bool
  a_settled :: bool
  a_free :: bool

text \<open>\<open>relative_data\<close>: the offset \<^verbatim>\<open>_elt_size * pos\<close> into the block.\<close>

definition relative_data :: "array \<Rightarrow> u64 \<Rightarrow> nat" where
  "relative_data self pos = unat (a_elt_size self * pos)"

definition zeroed_array :: array where
  "zeroed_array = \<lparr>a_ptr = [], a_nmemb = 0, a_cap = 0, a_elt_size = 0,
     a_is_own_buffer = False, a_settled = False, a_free = False\<rparr>"

section \<open>Construction\<close>

text \<open>On a failed second allocation \<^verbatim>\<open>*self\<close> is released but keeps its value.\<close>

definition array_init :: "allocator \<Rightarrow> u64 \<Rightarrow> array cptr \<times> bool" where
  "array_init al sz =
     (if \<not> grants al sizeof_array_t then (Null, False)
      else case malloc al sz of
        None \<Rightarrow> (Dangling, False)
      | Some block \<Rightarrow> (Ptr (zeroed_array\<lparr>a_ptr := block\<rparr>), True))"

definition array_create :: "allocator \<Rightarrow> u64 \<Rightarrow> u64 \<Rightarrow> bool \<Rightarrow> array cptr res" where
  "array_create al elt n free =
     (if elt = 0 then Inl Hardened_Check
      else if \<not> SIZE_T_SAFE_TO_MUL elt n then Inl Hardened_Check
      else
        let n = (if n = 0 then ARRAY_INITIAL_SIZE else n);
            init_cap = size_align (elt * n) in
        case array_init al init_cap of
          (Ptr a, True) \<Rightarrow>
            Inr (Ptr (a\<lparr>a_elt_size := elt, a_cap := init_cap, a_free := free,
                        a_is_own_buffer := True\<rparr>))
        | (p, _) \<Rightarrow> Inr p)"

definition array_seize_buffer ::
  "allocator \<Rightarrow> bytes \<Rightarrow> u64 \<Rightarrow> u64 \<Rightarrow> u64 \<Rightarrow> bool \<Rightarrow> array cptr res" where
  "array_seize_buffer al buffer bufsize elt n free =
     (if elt = 0 then Inl Hardened_Check
      else if \<not> SIZE_T_SAFE_TO_MUL elt n then Inl Hardened_Check
      else if \<not> grants al sizeof_array_t then Inr Null
      else Inr (Ptr (zeroed_array\<lparr>a_cap := bufsize, a_nmemb := n, a_elt_size := elt,
             a_ptr := buffer, a_free := free, a_is_own_buffer := True, a_settled := False\<rparr>)))"

definition array_borrow_buffer ::
  "allocator \<Rightarrow> bytes \<Rightarrow> u64 \<Rightarrow> u64 \<Rightarrow> u64 \<Rightarrow> bool \<Rightarrow> array cptr res" where
  "array_borrow_buffer al buffer bufsize elt n free =
     (if elt = 0 then Inl Hardened_Check
      else if \<not> SIZE_T_SAFE_TO_MUL elt n then Inl Hardened_Check
      else if \<not> grants al sizeof_array_t then Inr Null
      else Inr (Ptr (zeroed_array\<lparr>a_cap := bufsize, a_nmemb := n, a_elt_size := elt,
             a_ptr := buffer, a_free := free, a_is_own_buffer := False, a_settled := True\<rparr>)))"

section \<open>Sizes and positions\<close>

definition array_size :: "array \<Rightarrow> u64" where
  "array_size self = a_nmemb self"

definition array_sizeof :: "array \<Rightarrow> u64" where
  "array_sizeof self = a_nmemb self * a_elt_size self"

definition array_cap :: "array \<Rightarrow> u64" where
  "array_cap self = a_cap self"

definition array_at :: "array \<Rightarrow> u64 \<Rightarrow> nat option res" where
  "array_at self p =
     (if p \<ge> a_nmemb self then Inl Hardened_Check
      else if p \<ge> a_nmemb self then Inr None
      else Inr (Some (relative_data self p)))"

definition array_unsafe_at :: "array \<Rightarrow> u64 \<Rightarrow> nat" where
  "array_unsafe_at self p = relative_data self p"

definition array_access :: "array \<Rightarrow> u64 \<Rightarrow> nat option res" where
  "array_access self p =
     (if a_nmemb self \<le> p then Inl Hardened_Check
      else if p \<ge> a_nmemb self then Inr None
      else Inr (Some (relative_data self p)))"

definition array_unsafe_access :: "array \<Rightarrow> u64 \<Rightarrow> nat" where
  "array_unsafe_access self p = relative_data self p"

definition array_head :: "array \<Rightarrow> nat option res" where
  "array_head self = array_access self 0"

definition array_tail :: "array \<Rightarrow> nat option res" where
  "array_tail self =
     (if a_nmemb self \<noteq> 0 then array_access self (a_nmemb self - 1) else Inr None)"

definition array_data :: "array \<Rightarrow> nat option res" where
  "array_data self = array_head self"

definition array_uninitialized_data :: "array \<Rightarrow> nat" where
  "array_uninitialized_data self = array_unsafe_access self (a_nmemb self)"

definition array_uninitialized_size :: "array \<Rightarrow> u64 res" where
  "array_uninitialized_size self =
     (if \<not> SIZE_T_SAFE_TO_SUB (a_cap self) (array_sizeof self) then Inl Hardened_Check
      else
        let size_in_bytes = a_cap self - array_sizeof self in
        Inr (if size_in_bytes \<noteq> 0 then size_in_bytes div a_elt_size self else size_in_bytes))"

definition array_append_from_capacity :: "array \<Rightarrow> u64 \<Rightarrow> (array \<times> bool) res" where
  "array_append_from_capacity self n =
     bind_res (array_uninitialized_size self) (\<lambda>room.
       if n > room then Inr (self, False)
       else Inr (self\<lparr>a_nmemb := a_nmemb self + n\<rparr>, True))"

section \<open>Capacity\<close>

text \<open>The end of \<^verbatim>\<open>array_adjust\<close>: what is left to do once the new size is known.\<close>

fun adjust_to :: "allocator \<Rightarrow> array \<Rightarrow> growth \<Rightarrow> array \<times> bool" where
  "adjust_to al self Fits = (self, True)"
| "adjust_to al self Refused = (self, False)"
| "adjust_to al self (Grow new_size) =
     (case realloc al (a_ptr self) new_size of
        Realloc_Failed \<Rightarrow> (self, False)
      | Realloc_Released \<Rightarrow> (self\<lparr>a_ptr := []\<rparr>, False)
      | Realloc_Moved ptr \<Rightarrow> (self\<lparr>a_ptr := ptr, a_cap := new_size\<rparr>, True))"

definition array_adjust :: "allocator \<Rightarrow> array \<Rightarrow> u64 \<Rightarrow> (array \<times> bool) res" where
  "array_adjust al self n = map_res (adjust_to al self)
     (adjust_plan (a_nmemb self) (a_cap self) (a_elt_size self) (a_settled self) n)"

definition array_slimcheck :: "allocator \<Rightarrow> array \<Rightarrow> array \<times> bool" where
  "array_slimcheck al self =
     (if a_settled self then (self, False)
      else if a_cap self \<noteq> 0 then
        let sz = array_sizeof self in
        if sz < a_cap self div 2 then
          (case realloc al (a_ptr self) sz of
             Realloc_Failed \<Rightarrow> (self, False)
           | Realloc_Released \<Rightarrow> (self\<lparr>a_ptr := []\<rparr>, False)
           | Realloc_Moved ptr \<Rightarrow> (self\<lparr>a_ptr := ptr, a_cap := sz\<rparr>, True))
        else (self, True)
      else (self, True))"

definition array_settle :: "array \<Rightarrow> array" where
  "array_settle self = self\<lparr>a_settled := True\<rparr>"

definition array_unsettle :: "array \<Rightarrow> array res" where
  "array_unsettle self =
     (if \<not> a_is_own_buffer self then Inl Hardened_Check else Inr (self\<lparr>a_settled := False\<rparr>))"

definition array_is_settled :: "array \<Rightarrow> bool" where
  "array_is_settled self = a_settled self"

section \<open>Adding elements\<close>

text \<open>\<open>e\<close> and \<open>src\<close> are the bytes the argument points to.\<close>

definition array_push :: "allocator \<Rightarrow> array \<Rightarrow> bytes \<Rightarrow> (array \<times> bool) res" where
  "array_push al self e =
     bind_res (array_adjust al self 1) (\<lambda>(self, ok).
       if \<not> ok then Inr (self, False)
       else
         bind_res (mem_copy (a_ptr self) (relative_data self (a_nmemb self)) e 0
                    (unat (a_elt_size self))) (\<lambda>ptr.
           Inr (self\<lparr>a_ptr := ptr, a_nmemb := a_nmemb self + 1\<rparr>, True)))"

definition array_insert :: "allocator \<Rightarrow> array \<Rightarrow> u64 \<Rightarrow> bytes \<Rightarrow> (array \<times> bool) res" where
  "array_insert al self p e =
     (if \<not> p \<le> a_nmemb self then Inl Hardened_Check
      else
        bind_res (array_adjust al self 1) (\<lambda>(self, ok).
          if \<not> ok then Inr (self, False)
          else
            bind_res
              (if a_nmemb self = 0 \<or> p = a_nmemb self then Inr (a_ptr self)
               else mem_move (a_ptr self) (relative_data self (p + 1)) (relative_data self p)
                      (unat (a_nmemb self * a_elt_size self - p * a_elt_size self))) (\<lambda>ptr.
            bind_res (mem_copy ptr (relative_data self p) e 0 (unat (a_elt_size self))) (\<lambda>ptr.
              Inr (self\<lparr>a_ptr := ptr, a_nmemb := a_nmemb self + 1\<rparr>, True)))))"

definition array_pushf :: "allocator \<Rightarrow> array \<Rightarrow> bytes \<Rightarrow> (array \<times> bool) res" where
  "array_pushf al self e = array_insert al self 0 e"

definition array_tipex :: "array \<Rightarrow> u64 \<Rightarrow> bytes \<Rightarrow> u64 \<Rightarrow> array res" where
  "array_tipex self off src n =
     bind_res (mem_copy (a_ptr self) (unat off) src 0 (unat n)) (\<lambda>ptr. Inr (self\<lparr>a_ptr := ptr\<rparr>))"

definition array_inject ::
  "allocator \<Rightarrow> array \<Rightarrow> u64 \<Rightarrow> bytes \<Rightarrow> u64 \<Rightarrow> (array \<times> bool) res" where
  "array_inject al self p src n =
     (if p > a_nmemb self then Inl Hardened_Check
      else if \<not> SIZE_T_SAFE_TO_ADD p n then Inl Hardened_Check
      else
        bind_res (array_adjust al self n) (\<lambda>(self, ok).
          if \<not> ok then Inr (self, False)
          else if n = 0 then Inr (self, True)
          else
            bind_res
              (if a_nmemb self = 0 \<or> p = a_nmemb self then Inr (a_ptr self)
               else mem_move (a_ptr self) (relative_data self (p + n)) (relative_data self p)
                      (unat (a_elt_size self * (a_nmemb self - p)))) (\<lambda>ptr.
            bind_res (mem_copy ptr (relative_data self p) src 0
                       (unat (a_elt_size self * n))) (\<lambda>ptr.
              Inr (self\<lparr>a_ptr := ptr, a_nmemb := a_nmemb self + n\<rparr>, True)))))"

definition array_append :: "allocator \<Rightarrow> array \<Rightarrow> bytes \<Rightarrow> u64 \<Rightarrow> (array \<times> bool) res" where
  "array_append al self src n =
     bind_res (array_adjust al self n) (\<lambda>(self, ok).
       if \<not> ok then Inr (self, False)
       else
         bind_res (mem_copy (a_ptr self) (relative_data self (a_nmemb self)) src 0
                    (unat (a_elt_size self * n))) (\<lambda>ptr.
           Inr (self\<lparr>a_ptr := ptr, a_nmemb := a_nmemb self + n\<rparr>, True)))"

text \<open>\<open>other\<close> is a different array (its block is not moved by the call).\<close>

definition array_concat :: "allocator \<Rightarrow> array \<Rightarrow> array \<Rightarrow> (array \<times> bool) res" where
  "array_concat al self other =
     (if a_elt_size self \<noteq> a_elt_size other then Inl Hardened_Check
      else
        bind_res (array_adjust al self (array_size self + array_size other)) (\<lambda>(self, ok).
          if \<not> ok then Inr (self, False)
          else
            bind_res (mem_copy (a_ptr self) (relative_data self (a_nmemb self)) (a_ptr other) 0
                       (unat (array_sizeof other))) (\<lambda>ptr.
              Inr (self\<lparr>a_ptr := ptr, a_nmemb := a_nmemb self + array_size other\<rparr>, True))))"

section \<open>Removing elements\<close>

text \<open>The bytes of the element at position \<open>p\<close>, as the destructor finds them.\<close>

definition elem_at :: "array \<Rightarrow> u64 \<Rightarrow> bytes res" where
  "elem_at self p = mem_load (a_ptr self) (relative_data self p) (unat (a_elt_size self))"

definition array_pop :: "array \<Rightarrow> bool \<Rightarrow> (array \<times> bytes option \<times> bytes list) res" where
  "array_pop self into =
     (if a_nmemb self = 0 then Inl Hardened_Check
      else
        let self = self\<lparr>a_nmemb := a_nmemb self - 1\<rparr> in
        bind_res (if into then map_res Some (elem_at self (a_nmemb self)) else Inr None) (\<lambda>out.
        bind_res (if a_free self then map_res (\<lambda>e. [e]) (elem_at self (a_nmemb self)) else Inr [])
          (\<lambda>destroyed. Inr (self, out, destroyed))))"

definition array_evict :: "array \<Rightarrow> u64 \<Rightarrow> (array \<times> bytes list) res" where
  "array_evict self p =
     (if p \<ge> a_nmemb self then Inl Hardened_Check
      else
        let n = (a_nmemb self - p) * a_elt_size self in
        bind_res (if a_free self then map_res (\<lambda>e. [e]) (elem_at self p) else Inr []) (\<lambda>destroyed.
          let self = self\<lparr>a_nmemb := a_nmemb self - 1\<rparr> in
          bind_res
            (if p \<le> a_nmemb self
             then mem_move (a_ptr self) (relative_data self p) (relative_data self (p + 1))
                    (unat (n - a_elt_size self))
             else Inr (a_ptr self)) (\<lambda>ptr.
            Inr (self\<lparr>a_ptr := ptr\<rparr>, destroyed))))"

definition array_popf :: "array \<Rightarrow> bool \<Rightarrow> (array \<times> bytes option \<times> bytes list) res" where
  "array_popf self into =
     (if a_nmemb self = 0 then Inl Hardened_Check
      else
        bind_res (if into then map_res Some (mem_load (a_ptr self) 0 (unat (a_elt_size self)))
                  else Inr None) (\<lambda>out.
        bind_res (array_evict self 0) (\<lambda>(self, destroyed). Inr (self, out, destroyed))))"

text \<open>\<open>while (i < n) { _free(relative_data(i)); i++; }\<close>; the last argument is \<open>n - i\<close>.\<close>

fun wipe_loop :: "array \<Rightarrow> u64 \<Rightarrow> nat \<Rightarrow> bytes list res" where
  "wipe_loop self i 0 = Inr []"
| "wipe_loop self i (Suc k) =
     bind_res (elem_at self i) (\<lambda>e. map_res (\<lambda>es. e # es) (wipe_loop self (i + 1) k))"

definition array_wipe :: "array \<Rightarrow> u64 \<Rightarrow> u64 \<Rightarrow> (array \<times> bytes list) res" where
  "array_wipe self start end' =
     (if \<not> SIZE_T_SAFE_TO_SUB end' start then Inl Hardened_Check
      else if end' - start > a_nmemb self then Inl Hardened_Check
      else
        let n = end' - start in
        bind_res (if a_free self then wipe_loop self 0 (unat n) else Inr []) (\<lambda>destroyed.
        bind_res (mem_move (a_ptr self) (relative_data self start) (relative_data self end')
                   (unat ((a_nmemb self - start - n) * a_elt_size self))) (\<lambda>ptr.
          Inr (self\<lparr>a_ptr := ptr, a_nmemb := a_nmemb self - n\<rparr>, destroyed))))"

text \<open>\<open>while (_nmemb--) _free(relative_data(_nmemb))\<close>: from the last element to the first.\<close>

fun clear_loop :: "array \<Rightarrow> nat \<Rightarrow> bytes list res" where
  "clear_loop self 0 = Inr []"
| "clear_loop self (Suc k) =
     bind_res (elem_at self (of_nat k)) (\<lambda>e. map_res (\<lambda>es. e # es) (clear_loop self k))"

definition array_clear :: "array \<Rightarrow> (array \<times> bytes list) res" where
  "array_clear self =
     map_res (\<lambda>destroyed. (self\<lparr>a_nmemb := 0\<rparr>, destroyed))
       (if a_free self then clear_loop self (unat (a_nmemb self)) else Inr [])"

text \<open>The elements destroyed, and whether the element block was released with the array.\<close>

definition array_kill :: "array \<Rightarrow> (bytes list \<times> bool) res" where
  "array_kill self =
     map_res (\<lambda>(self, destroyed). (destroyed, a_is_own_buffer self)) (array_clear self)"

section \<open>Exchanging elements\<close>

text \<open>\<^verbatim>\<open>*p ^= *q; *q ^= *p; *p ^= *q;\<close> on the bytes at \<open>p\<close> and \<open>q\<close>.\<close>

definition xor_exchange :: "bytes \<Rightarrow> nat \<Rightarrow> nat \<Rightarrow> bytes" where
  "xor_exchange b p q =
     (let b = b[p := b ! p XOR b ! q];
          b = b[q := b ! q XOR b ! p];
          b = b[p := b ! p XOR b ! q] in b)"

fun xor_bytes :: "bytes \<Rightarrow> nat \<Rightarrow> nat \<Rightarrow> nat \<Rightarrow> bytes res" where
  "xor_bytes b p q 0 = Inr b"
| "xor_bytes b p q (Suc n) =
     (if \<not> (p < length b \<and> q < length b) then Inl Out_Of_Bounds
      else xor_bytes (xor_exchange b p q) (p + 1) (q + 1) n)"

definition array_swap_elems :: "array \<Rightarrow> u64 \<Rightarrow> u64 \<Rightarrow> array res" where
  "array_swap_elems self a b =
     (if a \<ge> a_nmemb self then Inl Hardened_Check
      else if b \<ge> a_nmemb self then Inl Hardened_Check
      else
        map_res (\<lambda>ptr. self\<lparr>a_ptr := ptr\<rparr>)
          (xor_bytes (a_ptr self) (relative_data self a) (relative_data self b)
            (unat (a_elt_size self))))"

definition array_swap :: "'p \<times> 'p \<Rightarrow> 'p \<times> 'p" where
  "array_swap = (\<lambda>(self, other). (let tmp = self; self = other; other = tmp in (self, other)))"

section \<open>Copies\<close>

definition array_extract :: "allocator \<Rightarrow> array \<Rightarrow> u64 \<Rightarrow> u64 \<Rightarrow> bytes option res" where
  "array_extract al src start end' =
     (if \<not> SIZE_T_SAFE_TO_SUB end' start then Inl Hardened_Check
      else if \<not> SIZE_T_SAFE_TO_MUL (end' - start) (a_elt_size src) then Inl Hardened_Check
      else if \<not> SIZE_T_SAFE_TO_SUB (a_nmemb src) start then Inl Hardened_Check
      else if a_nmemb src - start < end' - start then Inl Hardened_Check
      else
        case malloc al ((end' - start) * a_elt_size src) of
          None \<Rightarrow> Inr None
        | Some ptr \<Rightarrow>
            map_res Some (mem_copy ptr 0 (a_ptr src) (relative_data src start)
                            (unat ((end' - start) * a_elt_size src))))"

definition ABS :: "u64 \<Rightarrow> u64" where
  "ABS a = (if sint a < 0 then - a else a)"

text \<open>\<open>while (start != end) { copy one element; start--; }\<close>; the last argument is \<open>start - end\<close>.\<close>

fun pull_loop :: "bytes \<Rightarrow> nat \<Rightarrow> array \<Rightarrow> u64 \<Rightarrow> nat \<Rightarrow> bytes res" where
  "pull_loop dst off src start 0 = Inr dst"
| "pull_loop dst off src start (Suc k) =
     bind_res (mem_copy dst off (a_ptr src) (relative_data src start) (unat (a_elt_size src)))
       (\<lambda>dst. pull_loop dst (off + unat (a_elt_size src)) src (start - 1) k)"

definition array_pull :: "allocator \<Rightarrow> array \<Rightarrow> u64 \<Rightarrow> u64 \<Rightarrow> array cptr res" where
  "array_pull al src start end' =
     (if a_nmemb src \<le> ABS start then Inl Hardened_Check
      else if a_nmemb src \<le> ABS end' then Inl Hardened_Check
      else
        let start = (if sint start < 0 then start + a_nmemb src else start);
            end' = (if sint end' < 0 then end' + a_nmemb src else end');
            end' = (if sint start < sint end' then end' + 1 else end' - 1);
            n_elems = ABS (start - end');
            buffersize = n_elems * a_elt_size src in
        case array_init al buffersize of
          (Ptr arr, True) \<Rightarrow>
            let arr = arr\<lparr>a_elt_size := a_elt_size src, a_free := a_free src, a_cap := buffersize,
                          a_nmemb := n_elems, a_settled := True, a_is_own_buffer := True\<rparr> in
            map_res (\<lambda>ptr. Ptr (arr\<lparr>a_ptr := ptr\<rparr>))
              (if sint start < sint end'
               then mem_copy (a_ptr arr) 0 (a_ptr src) (relative_data src start) (unat buffersize)
               else pull_loop (a_ptr arr) 0 src start (unat (start - end')))
        | _ \<Rightarrow> Inr Null)"

definition array_dup :: "allocator \<Rightarrow> array \<Rightarrow> (array cptr \<times> bytes list) res" where
  "array_dup al self =
     bind_res (array_create al (a_elt_size self) (a_nmemb self) (a_free self)) (\<lambda>p.
       if p = Null then Inr (Null, [])
       else
         bind_res (deref p) (\<lambda>arr.
         bind_res (array_concat al arr self) (\<lambda>(arr, ok).
           if \<not> ok then map_res (\<lambda>(destroyed, _). (Null, destroyed)) (array_kill arr)
           else Inr (Ptr arr, []))))"

text \<open>\<open>while (i < size)\<close> of the filter; the last argument is \<open>size - i\<close>.\<close>

fun filter_loop ::
  "allocator \<Rightarrow> array \<Rightarrow> (bytes \<Rightarrow> bool) \<Rightarrow> array cptr \<Rightarrow> u64 \<Rightarrow> nat \<Rightarrow> (array cptr \<times> bool) res"
where
  "filter_loop al self callback arr i 0 = Inr (arr, True)"
| "filter_loop al self callback arr i (Suc k) =
     bind_res (array_at self i) (\<lambda>elem.
       case elem of
         None \<Rightarrow> Inr (arr, False)
       | Some off \<Rightarrow>
           bind_res (mem_load (a_ptr self) off (unat (a_elt_size self))) (\<lambda>e.
             if callback e then
               bind_res (deref arr) (\<lambda>a.
               bind_res (array_push al a e) (\<lambda>(a, ok).
                 if ok then filter_loop al self callback (Ptr a) (i + 1) k
                 else Inr (Ptr a, False)))
             else filter_loop al self callback arr (i + 1) k))"

definition array_filter ::
  "allocator \<Rightarrow> array \<Rightarrow> (bytes \<Rightarrow> bool) \<Rightarrow> (array cptr \<times> bytes list) res" where
  "array_filter al self callback =
     bind_res (array_create al (a_elt_size self) ARRAY_INITIAL_SIZE (a_free self)) (\<lambda>arr.
       if arr = Null then Inr (Null, [])
       else
         bind_res (filter_loop al self callback arr 0 (unat (array_size self))) (\<lambda>(arr, ok).
           if ok then Inr (arr, [])
           else bind_res (deref arr) (\<lambda>a.
             map_res (\<lambda>(destroyed, _). (Null, destroyed)) (array_kill a))))"

end
