(* ===== verification/Array_Refine.thy ===== *)
theory Array_Refine
  imports Array
begin

text \<open>
  The invariant of \<^typ>\<open>array\<close>, its elements, and the refinement: every operation of
  \<^verbatim>\<open>array.c\<close> on a well-formed array does to the list \<open>elems\<close> what its name says, faults
  on a hardened check at most and never touches memory outside its block.
\<close>

section \<open>Invariant and abstraction\<close>

text \<open>
  An element is an object of the C program, far smaller than the address space; the block
  has exactly the capacity the header records and holds the elements in use.
\<close>

definition array_wf :: "array \<Rightarrow> bool" where
  "array_wf a \<longleftrightarrow> 0 < unat (a_elt_size a) \<and> unat (a_elt_size a) < 2 ^ 62 \<and>
     length (a_ptr a) = unat (a_cap a) \<and>
     unat (a_nmemb a) * unat (a_elt_size a) \<le> unat (a_cap a)"

definition elems :: "array \<Rightarrow> bytes list" where
  "elems a = chunks (unat (a_elt_size a)) (unat (a_nmemb a)) (a_ptr a)"

definition abs_array :: "array \<Rightarrow> bytes seq" where
  "abs_array a = \<lparr>s_items = elems a, s_cap = a_cap a, s_elt_size = a_elt_size a,
     s_settled = a_settled a\<rparr>"

lemma length_elems [simp]: "length (elems a) = unat (a_nmemb a)"
  by (simp add: elems_def)

lemma rowsI:
  assumes "a_ptr a = concat es @ slack" and "\<forall>e \<in> set es. length e = unat (a_elt_size a)"
    and "unat (a_nmemb a) = length es" and "length (a_ptr a) = unat (a_cap a)"
    and "0 < unat (a_elt_size a)" and "unat (a_elt_size a) < 2 ^ 62"
  shows "array_wf a" and "elems a = es"
proof -
  have "length es * unat (a_elt_size a) = length (concat es)"
    using assms(2) by (rule length_concat_width [symmetric])
  then have "length es * unat (a_elt_size a) \<le> length (a_ptr a)"
    unfolding assms(1) by (simp only: length_append)
  then show "array_wf a"
    using assms(3-6) by (simp add: array_wf_def)
  show "elems a = es"
    using assms(1-3) by (simp add: elems_def chunks_concat)
qed

lemma rowsE:
  assumes "array_wf a"
  obtains slack where "a_ptr a = concat (elems a) @ slack"
    and "\<forall>e \<in> set (elems a). length e = unat (a_elt_size a)"
    and "length (concat (elems a)) = unat (a_nmemb a) * unat (a_elt_size a)"
proof -
  let ?n = "unat (a_nmemb a) * unat (a_elt_size a)"
  have fits: "?n \<le> length (a_ptr a)"
    using assms by (simp add: array_wf_def)
  then have "concat (elems a) = take ?n (a_ptr a)"
    by (simp add: elems_def concat_chunks)
  moreover have "\<forall>e \<in> set (elems a). length e = unat (a_elt_size a)"
    using fits by (auto simp: elems_def dest: chunks_width)
  ultimately show thesis
    using that [of "drop ?n (a_ptr a)"] fits by simp
qed

text \<open>The elements are read from the used prefix of the block only.\<close>

lemma elems_prefix:
  assumes "array_wf a"
  shows "chunks (unat (a_elt_size a)) (unat (a_nmemb a)) (concat (elems a) @ zs) = elems a"
proof -
  have "\<forall>e \<in> set (elems a). length e = unat (a_elt_size a)"
    using rowsE [OF assms] by blast
  from chunks_concat [OF this] show ?thesis
    by simp
qed

lemma relative_data_eq:
  "unat p * unat (a_elt_size a) < 2 ^ 64 \<Longrightarrow> relative_data a p = unat p * unat (a_elt_size a)"
  by (simp add: relative_data_def unat_u64_mult mult.commute)

lemma array_wf_offset:
  assumes "array_wf a" and "unat p \<le> unat (a_nmemb a)"
  shows "relative_data a p = unat p * unat (a_elt_size a)"
    and "unat p * unat (a_elt_size a) \<le> unat (a_cap a)"
proof -
  have "unat p * unat (a_elt_size a) \<le> unat (a_nmemb a) * unat (a_elt_size a)"
    using assms(2) by simp
  also have "\<dots> \<le> unat (a_cap a)"
    using assms(1) by (simp add: array_wf_def)
  finally show le: "unat p * unat (a_elt_size a) \<le> unat (a_cap a)" .
  then have "unat p * unat (a_elt_size a) < 2 ^ 64"
    using unat_u64_lt [of "a_cap a"] by linarith
  then show "relative_data a p = unat p * unat (a_elt_size a)"
    by (rule relative_data_eq)
qed

lemma elem_at_elems:
  assumes "array_wf a" and "unat p < unat (a_nmemb a)"
  shows "elem_at a p = Inr (elems a ! unat p)"
proof -
  have "(unat p + 1) * unat (a_elt_size a) \<le> unat (a_nmemb a) * unat (a_elt_size a)"
    using assms(2) by (intro mult_le_mono1) simp
  then have "unat p * unat (a_elt_size a) + unat (a_elt_size a) \<le> length (a_ptr a)"
    using assms(1) by (simp add: array_wf_def)
  then show ?thesis
    using assms array_wf_offset(1) [of a p]
    by (simp add: elem_at_def mem_load_def elems_def chunks_nth)
qed

section \<open>Growing\<close>

lemma array_adjust_refines:
  assumes wf: "array_wf a" and room: "addressable (a_nmemb a) (a_elt_size a) n"
  shows "map_res (\<lambda>(a, ok). (abs_array a, ok)) (array_adjust al a n) = seq_adjust al (abs_array a) n"
proof (cases "adjust_plan (a_nmemb a) (a_cap a) (a_elt_size a) (a_settled a) n")
  case (Inr g)
  obtain slack where rows: "a_ptr a = concat (elems a) @ slack"
    "length (concat (elems a)) = unat (a_nmemb a) * unat (a_elt_size a)"
    using rowsE [OF wf] by blast
  have moved: "elems (a\<lparr>a_ptr := p, a_cap := m\<rparr>) = elems a"
    if g: "g = Grow m" and p: "realloc al (a_ptr a) m = Realloc_Moved p" for m p
  proof -
    have "unat (a_nmemb a) * unat (a_elt_size a) \<le> unat m"
      using adjust_plan_Grow(2) [OF Inr [unfolded g] room] wf by (simp add: array_wf_def)
    then obtain zs where "p = concat (elems a) @ zs"
      using libc.resize_keeps [of al "concat (elems a)" slack m p] p [unfolded rows(1)] rows(2)
      by metis
    then show ?thesis
      using elems_prefix [OF wf, of zs] by (simp add: elems_def)
  qed
  show ?thesis
  proof (cases g)
    case (Grow m)
    have m: "m \<noteq> 0"
      using adjust_plan_Grow(3) [OF Inr [unfolded Grow] room] .
    show ?thesis
    proof (cases "realloc al (a_ptr a) m")
      case (Realloc_Moved p)
      then have "resizes al m"
        using realloc_moved_iff by blast
      then show ?thesis
        using Inr Grow moved [OF Grow Realloc_Moved] Realloc_Moved
        by (simp add: array_adjust_def seq_adjust_def abs_array_def)
    next
      case Realloc_Failed
      then have "\<not> resizes al m"
        using realloc_moved_iff [of al "a_ptr a" m] by simp
      then show ?thesis
        using Inr Grow Realloc_Failed by (simp add: array_adjust_def seq_adjust_def abs_array_def)
    next
      case Realloc_Released
      then show ?thesis
        using m libc.resize_released by blast
    qed
  qed (simp_all add: Inr array_adjust_def seq_adjust_def abs_array_def)
qed (simp add: array_adjust_def seq_adjust_def abs_array_def)

lemma array_adjust_grown:
  assumes wf: "array_wf a" and room: "addressable (a_nmemb a) (a_elt_size a) n"
    and adjust: "array_adjust al a n = Inr (a', True)"
  obtains slack where "a_ptr a' = concat (elems a) @ slack"
    and "length (a_ptr a') = unat (a_cap a')"
    and "unat n * unat (a_elt_size a) \<le> length slack"
    and "a' = a\<lparr>a_ptr := a_ptr a', a_cap := a_cap a'\<rparr>"
    and "elems a' = elems a"
proof -
  let ?need = "(unat (a_nmemb a) + unat n) * unat (a_elt_size a)"
  obtain slack where rows: "a_ptr a = concat (elems a) @ slack"
    "length (concat (elems a)) = unat (a_nmemb a) * unat (a_elt_size a)"
    using rowsE [OF wf] by blast
  obtain g where plan: "adjust_plan (a_nmemb a) (a_cap a) (a_elt_size a) (a_settled a) n = Inr g"
    using adjust by (auto simp: array_adjust_def map_res_Inr_iff)
  have keep: "\<exists>slack. a_ptr a' = concat (elems a) @ slack \<and> length (a_ptr a') = unat (a_cap a') \<and>
      ?need \<le> unat (a_cap a') \<and> a' = a\<lparr>a_ptr := a_ptr a', a_cap := a_cap a'\<rparr>"
  proof (cases g)
    case Fits
    then show ?thesis
      using adjust plan adjust_plan_cases [OF plan] wf rows(1)
      by (simp add: array_adjust_def array_wf_def)
  next
    case Refused
    then show ?thesis
      using adjust plan by (simp add: array_adjust_def)
  next
    case (Grow m)
    then obtain p where p: "realloc al (a_ptr a) m = Realloc_Moved p"
      and a': "a' = a\<lparr>a_ptr := p, a_cap := m\<rparr>"
      using adjust plan by (auto simp: array_adjust_def split: realloc_result.splits)
    have m: "?need \<le> unat m" "unat (a_nmemb a) * unat (a_elt_size a) \<le> unat m"
      using adjust_plan_Grow(1,2) [OF plan [unfolded Grow] room] wf by (simp_all add: array_wf_def)
    have "length p = unat m"
      using p by (rule libc.resize_length)
    moreover obtain zs where "p = concat (elems a) @ zs"
      using libc.resize_keeps [of al "concat (elems a)" slack m p] p [unfolded rows(1)] rows(2) m(2)
      by metis
    ultimately have "\<exists>zs. p = concat (elems a) @ zs \<and> length p = unat m"
      by blast
    then show ?thesis
      using a' m(1) by simp
  qed
  then obtain slack' where s: "a_ptr a' = concat (elems a) @ slack'" 
    and l: "length (a_ptr a') = unat (a_cap a')" and n: "?need \<le> unat (a_cap a')"
    and a': "a' = a\<lparr>a_ptr := a_ptr a', a_cap := a_cap a'\<rparr>"
    by blast
  have "length slack' = unat (a_cap a') - unat (a_nmemb a) * unat (a_elt_size a)"
    using s l rows(2) by simp
  then have "unat n * unat (a_elt_size a) \<le> length slack'"
    using n by (simp add: add_mult_distrib)
  moreover have hdr: "a_elt_size a' = a_elt_size a" "a_nmemb a' = a_nmemb a"
    by (subst a', simp)+
  moreover have "elems a' = elems a"
    using elems_prefix [OF wf, of slack'] s hdr by (simp add: elems_def)
  ultimately show thesis
    using that s l a' by blast
qed

lemma array_adjust_refused:
  assumes "addressable (a_nmemb a) (a_elt_size a) n" and "array_adjust al a n = Inr (a', False)"
  shows "a' = a"
proof -
  obtain g where plan: "adjust_plan (a_nmemb a) (a_cap a) (a_elt_size a) (a_settled a) n = Inr g"
    using assms(2) by (auto simp: array_adjust_def map_res_Inr_iff)
  show ?thesis
  proof (cases g)
    case (Grow m)
    have "m \<noteq> 0"
      using adjust_plan_Grow(3) [OF plan [unfolded Grow] assms(1)] .
    then show ?thesis
      using assms(2) plan Grow libc.resize_released [of al "a_ptr a" m]
      by (auto simp: array_adjust_def split: realloc_result.splits)
  qed (use assms(2) plan in \<open>simp_all add: array_adjust_def\<close>)
qed

lemma array_adjust_faults: "array_adjust al a n = Inl f \<Longrightarrow> f = Hardened_Check"
  by (auto simp: array_adjust_def map_res_Inl_iff dest: adjust_plan_faults)

lemma array_adjust_safe_add: "array_adjust al a n = Inr r \<Longrightarrow> unat (a_nmemb a) + unat n < 2 ^ 64"
  by (auto simp: array_adjust_def map_res_Inr_iff dest: adjust_plan_checks(2))

section \<open>Injecting elements\<close>

text \<open>\<open>array_push\<close>, \<open>array_insert\<close> and \<open>array_append\<close> are \<open>array_inject\<close> at one position or of one element.\<close>

lemma adjust_to_hdr:
  assumes "adjust_to al a g = (a', ok)"
  shows "a_nmemb a' = a_nmemb a \<and> a_elt_size a' = a_elt_size a \<and> a_settled a' = a_settled a \<and>
    a_free a' = a_free a \<and> a_is_own_buffer a' = a_is_own_buffer a"
  using assms by (cases g) (auto split: realloc_result.splits)

lemma array_adjust_hdr:
  assumes "array_adjust al a n = Inr (a', ok)"
  shows "a_nmemb a' = a_nmemb a" and "a_elt_size a' = a_elt_size a"
    and "a_settled a' = a_settled a" and "a_free a' = a_free a"
    and "a_is_own_buffer a' = a_is_own_buffer a"
  using assms adjust_to_hdr [of al a _ a' ok]
  by (auto simp: array_adjust_def map_res_Inr_iff)

lemma array_push_inject: "array_push al a e = array_inject al a (a_nmemb a) e 1"
proof (cases "array_adjust al a 1")
  case (Inl f)
  then show ?thesis
    using array_adjust_faults [OF Inl] by (simp add: array_push_def array_inject_def)
next
  case (Inr r)
  obtain a' ok where r: "r = (a', ok)"
    by (cases r)
  have "SIZE_T_SAFE_TO_ADD (a_nmemb a) 1"
    using array_adjust_safe_add [OF Inr] by (simp add: SAFE_TO_ADD_iff)
  then show ?thesis
    using Inr array_adjust_hdr [OF Inr [unfolded r]] by (simp add: r array_push_def array_inject_def)
qed

lemma array_insert_inject: "array_insert al a p e = array_inject al a p e 1"
proof (cases "array_adjust al a 1")
  case (Inl f)
  then show ?thesis
    using array_adjust_faults [OF Inl] by (simp add: array_insert_def array_inject_def not_le)
next
  case (Inr r)
  obtain a' ok where r: "r = (a', ok)"
    by (cases r)
  have "unat p + 1 < 2 ^ 64" if "p \<le> a_nmemb a"
    using array_adjust_safe_add [OF Inr] that by (simp add: word_le_nat_alt)
  then have "SIZE_T_SAFE_TO_ADD p 1" if "p \<le> a_nmemb a"
    using that by (simp add: SAFE_TO_ADD_iff)
  moreover have "a_nmemb a * a_elt_size a - p * a_elt_size a = a_elt_size a * (a_nmemb a - p)"
    by (simp add: algebra_simps)
  ultimately show ?thesis
    using Inr array_adjust_hdr [OF Inr [unfolded r]]
    by (auto simp: r array_insert_def array_inject_def not_le)
qed

lemma array_append_inject:
  assumes wf: "array_wf a" and room: "addressable (a_nmemb a) (a_elt_size a) n"
  shows "array_append al a src n = array_inject al a (a_nmemb a) src n"
proof (cases "array_adjust al a n")
  case (Inl f)
  then show ?thesis
    using array_adjust_faults [OF Inl] by (simp add: array_append_def array_inject_def)
next
  case (Inr r)
  obtain a' ok where r: "r = (a', ok)"
    by (cases r)
  have safe: "SIZE_T_SAFE_TO_ADD (a_nmemb a) n"
    using array_adjust_safe_add [OF Inr] by (simp add: SAFE_TO_ADD_iff)
  show ?thesis
  proof (cases "ok \<and> n = 0")
    case True
    then obtain slack where "a_ptr a' = concat (elems a) @ slack"
      using array_adjust_grown [OF wf room, of al a'] Inr r by metis
    moreover have "relative_data a' (a_nmemb a') = length (concat (elems a))"
      using array_wf_offset(1) [OF wf, of "a_nmemb a"] rowsE [OF wf] array_adjust_hdr [OF Inr [unfolded r]]
      by (simp add: relative_data_def) metis
    ultimately have "mem_copy (a_ptr a') (relative_data a' (a_nmemb a')) src 0 0 = Inr (a_ptr a')"
      by (simp add: mem_copy_def mem_load_def mem_store_def)
    then show ?thesis
      using True Inr r safe by (simp add: array_append_def array_inject_def)
  next
    case False
    then show ?thesis
      using Inr safe array_adjust_hdr [OF Inr [unfolded r]] by (auto simp: r array_append_def array_inject_def)
  qed
qed

lemma array_inject_grown:
  assumes wf: "array_wf a" and room: "addressable (a_nmemb a) (a_elt_size a) n"
    and p: "unat p \<le> unat (a_nmemb a)"
    and xs: "\<forall>x \<in> set xs. length x = unat (a_elt_size a)" "length xs = unat n"
    and adjust: "array_adjust al a n = Inr (a1, True)"
  shows "\<exists>ptr. array_inject al a p (concat xs) n =
           Inr (a1\<lparr>a_ptr := ptr, a_nmemb := a_nmemb a + n\<rparr>, True) \<and>
         array_wf (a1\<lparr>a_ptr := ptr, a_nmemb := a_nmemb a + n\<rparr>) \<and>
         elems (a1\<lparr>a_ptr := ptr, a_nmemb := a_nmemb a + n\<rparr>) =
           take (unat p) (elems a) @ xs @ drop (unat p) (elems a)"
    (is "\<exists>ptr. _ = Inr (?a' ptr, True) \<and> _ \<and> _ = ?es'")
proof -
  let ?E = "unat (a_elt_size a)" and ?k = "unat p"
  define A where "A = concat (take ?k (elems a))"
  define B where "B = concat (drop ?k (elems a))"
  obtain slack where ptr: "a_ptr a1 = concat (elems a) @ slack"
    and len: "length (a_ptr a1) = unat (a_cap a1)" and slack: "unat n * ?E \<le> length slack"
    using array_adjust_grown [OF wf room adjust] by metis
  note hdr = array_adjust_hdr [OF adjust]
  have widths: "\<forall>e \<in> set (elems a). length e = ?E"
    using rowsE [OF wf] by blast
  have lenA: "length A = ?k * ?E"
    using widths p unfolding A_def
    by (subst length_concat_width [where w = ?E]) (auto dest: in_set_takeD)
  have lenB: "length B = (unat (a_nmemb a) - ?k) * ?E"
    using widths unfolding B_def
    by (subst length_concat_width [where w = ?E]) (auto dest: in_set_dropD)
  have lensrc: "length (concat xs) = unat n * ?E"
    using xs length_concat_width [OF xs(1)] by simp
  define S where "S = take (unat n * ?E) slack"
  define R where "R = drop (unat n * ?E) slack"
  have lenS: "length S = unat n * ?E"
    using slack by (simp add: S_def)
  have "concat (elems a) = A @ B"
    unfolding A_def B_def by (metis append_take_drop_id concat_append)
  then have blk: "a_ptr a1 = A @ B @ S @ R"
    using ptr by (simp add: S_def R_def)
  have bytes: "(unat (a_nmemb a) + unat n) * ?E < 2 ^ 64" "?k * ?E \<le> unat (a_nmemb a) * ?E"
    "unat (a_nmemb a) + unat n < 2 ^ 64"
    using room p array_adjust_safe_add [OF adjust] by (simp_all add: addressable_def)
  have "?k * ?E < 2 ^ 64"
    using bytes(1,2) unfolding add_mult_distrib by linarith
  then have off_p: "relative_data a1 p = length A"
    using lenA hdr(2) by (simp add: relative_data_eq)
  have "unat (p + n) = ?k + unat n"
    using bytes(3) p by (simp add: unat_u64_add)
  moreover have "(?k + unat n) * ?E < 2 ^ 64"
    using bytes(1,2) unfolding add_mult_distrib by linarith
  ultimately have off_pn: "relative_data a1 (p + n) = length A + length S"
    using lenA lenS hdr(2) by (simp add: relative_data_eq add_mult_distrib)
  have "unat (a_nmemb a - p) = unat (a_nmemb a) - ?k"
    using p by (simp add: unat_u64_sub)
  moreover have "(unat (a_nmemb a) - ?k) * ?E < 2 ^ 64"
    using bytes(1) unfolding add_mult_distrib diff_mult_distrib by linarith
  ultimately have n_move: "unat (a_elt_size a * (a_nmemb a - p)) = length B"
    using lenB by (simp add: unat_u64_mult mult.commute)
  have "unat n * ?E < 2 ^ 64"
    using bytes(1) unfolding add_mult_distrib by linarith
  then have n_copy: "unat (a_elt_size a * n) = length (concat xs)"
    using lensrc by (simp add: unat_u64_mult mult.commute)
  have safe: "p \<le> a_nmemb a" "SIZE_T_SAFE_TO_ADD p n"
    using p bytes(3) by (simp_all add: word_le_nat_alt SAFE_TO_ADD_iff)
  have result: "array_inject al a p (concat xs) n = Inr (?a' (A @ concat xs @ B @ R), True)"
  proof (cases "n = 0")
    case True
    then have "xs = []" "S = []"
      using xs(2) lenS by simp_all
    then show ?thesis
      using True safe adjust blk hdr(1) by (simp add: array_inject_def not_less)
  next
    case False
    have gap: "\<exists>X. length X = length S \<and>
       (if a_nmemb a1 = 0 \<or> p = a_nmemb a1 then Inr (a_ptr a1)
        else mem_move (a_ptr a1) (relative_data a1 (p + n)) (relative_data a1 p)
               (unat (a_elt_size a1 * (a_nmemb a1 - p)))) = Inr (A @ X @ B @ R)"
    proof (cases "a_nmemb a = 0 \<or> p = a_nmemb a")
      case True
      then have "B = []"
        using lenB p by auto
      then show ?thesis
        using True blk hdr(1) by auto
    next
      case False
      obtain X where X: "length X = length S"
        "mem_move (A @ B @ S @ R) (length A + length S) (length A) (length B) = Inr (A @ X @ B @ R)"
        by (rule mem_move_up [OF refl])
      then show ?thesis
        using False blk hdr(1,2) off_p off_pn n_move by auto
    qed
    then obtain X where X: "length X = length S" and move:
       "(if a_nmemb a1 = 0 \<or> p = a_nmemb a1 then Inr (a_ptr a1)
        else mem_move (a_ptr a1) (relative_data a1 (p + n)) (relative_data a1 p)
               (unat (a_elt_size a1 * (a_nmemb a1 - p)))) = Inr (A @ X @ B @ R)"
      by blast
    have "mem_copy (A @ X @ B @ R) (relative_data a1 p) (concat xs) 0 (unat (a_elt_size a1 * n)) =
        Inr (A @ concat xs @ B @ R)"
      using off_p n_copy X lenS lensrc hdr(2) by (intro mem_copy_from_start) simp_all
    then show ?thesis
      using False safe adjust move hdr(1) unfolding array_inject_def by (simp add: not_less)
  qed
  let ?ptr = "A @ concat xs @ B @ R"
  have rows: "a_ptr (?a' ?ptr) = concat ?es' @ R"
    by (simp add: A_def B_def)
  have "length ?ptr = length (a_ptr a1)"
    unfolding blk using lenS lensrc by simp
  then have "length (a_ptr (?a' ?ptr)) = unat (a_cap (?a' ?ptr))"
    using len by simp
  moreover have "unat (a_nmemb (?a' ?ptr)) = length ?es'"
    using bytes(3) xs(2) p by (simp add: unat_u64_add)
  moreover have "\<forall>e \<in> set ?es'. length e = unat (a_elt_size (?a' ?ptr))"
    using widths xs(1) hdr(2) by (auto dest: in_set_takeD in_set_dropD)
  moreover have "0 < unat (a_elt_size (?a' ?ptr))" "unat (a_elt_size (?a' ?ptr)) < 2 ^ 62"
    using wf hdr(2) by (simp_all add: array_wf_def)
  ultimately have "array_wf (?a' ?ptr)" "elems (?a' ?ptr) = ?es'"
    using rowsI [OF rows] by blast+
  then show ?thesis
    using result by blast
qed

lemma abs_array_nmemb [simp]: "s_nmemb (abs_array a) = a_nmemb a"
  by (simp add: abs_array_def)

lemma array_inject_refines:
  assumes wf: "array_wf a" and room: "addressable (a_nmemb a) (a_elt_size a) n"
    and p: "unat p \<le> unat (a_nmemb a)"
    and xs: "\<forall>x \<in> set xs. length x = unat (a_elt_size a)" "length xs = unat n"
  shows "map_res (\<lambda>(a, ok). (abs_array a, ok)) (array_inject al a p (concat xs) n) =
    seq_inject al (abs_array a) (unat p) xs"
proof (cases "array_adjust al a n")
  case (Inl f)
  then have "array_inject al a p (concat xs) n = Inl Hardened_Check"
    using array_adjust_faults [OF Inl] by (simp add: array_inject_def)
  moreover have "seq_adjust al (abs_array a) n = Inl Hardened_Check"
    using array_adjust_refines [OF wf room, of al] Inl array_adjust_faults [OF Inl] by simp
  ultimately show ?thesis
    using xs(2) by (simp add: seq_inject_def)
next
  case (Inr r)
  obtain a1 ok where r: "r = (a1, ok)"
    by (cases r)
  note hdr = array_adjust_hdr [OF Inr [unfolded r]]
  have adj: "seq_adjust al (abs_array a) n = Inr (abs_array a1, ok)"
    using array_adjust_refines [OF wf room, of al] Inr r by simp
  have safe: "p \<le> a_nmemb a" "SIZE_T_SAFE_TO_ADD p n"
    using p array_adjust_safe_add [OF Inr] by (simp_all add: word_le_nat_alt SAFE_TO_ADD_iff)
  show ?thesis
  proof (cases ok)
    case True
    then have adjust: "array_adjust al a n = Inr (a1, True)"
      using Inr r by simp
    obtain slack where same: "elems a1 = elems a"
      using array_adjust_grown [OF wf room adjust] by metis
    obtain ptr where "array_inject al a p (concat xs) n =
        Inr (a1\<lparr>a_ptr := ptr, a_nmemb := a_nmemb a + n\<rparr>, True)"
      "elems (a1\<lparr>a_ptr := ptr, a_nmemb := a_nmemb a + n\<rparr>) =
        take (unat p) (elems a) @ xs @ drop (unat p) (elems a)"
      using array_inject_grown [OF wf room p xs adjust] by blast
    then show ?thesis
      using adj True xs(2) same by (simp add: seq_inject_def abs_array_def)
  next
    case False
    then show ?thesis
      using adj Inr r safe xs(2) by (simp add: seq_inject_def array_inject_def not_less)
  qed
qed

lemma array_inject_wf:
  assumes wf: "array_wf a" and room: "addressable (a_nmemb a) (a_elt_size a) n"
    and p: "unat p \<le> unat (a_nmemb a)"
    and xs: "\<forall>x \<in> set xs. length x = unat (a_elt_size a)" "length xs = unat n"
    and inject: "array_inject al a p (concat xs) n = Inr (a', ok)"
  shows "array_wf a'" and "a_elt_size a' = a_elt_size a" and "a_free a' = a_free a"
    and "elems a' = (if ok then take (unat p) (elems a) @ xs @ drop (unat p) (elems a) else elems a)"
proof -
  obtain a1 b where adjust: "array_adjust al a n = Inr (a1, b)"
    using inject by (auto simp: array_inject_def bind_res_Inr_iff split: if_splits)
  note hdr = array_adjust_hdr [OF adjust]
  have "array_wf a' \<and> a_elt_size a' = a_elt_size a \<and> a_free a' = a_free a \<and>
    elems a' = (if ok then take (unat p) (elems a) @ xs @ drop (unat p) (elems a) else elems a)"
  proof (cases b)
    case True
    then have "array_adjust al a n = Inr (a1, True)"
      using adjust by simp
    then show ?thesis
      using array_inject_grown [OF wf room p xs] inject hdr by fastforce
  next
    case False
    then have "a' = a" "\<not> ok"
      using inject adjust array_adjust_refused [OF room] by (auto simp: array_inject_def split: if_splits)
    then show ?thesis
      using wf by simp
  qed
  then show "array_wf a'" "a_elt_size a' = a_elt_size a" "a_free a' = a_free a"
    "elems a' = (if ok then take (unat p) (elems a) @ xs @ drop (unat p) (elems a) else elems a)"
    by simp_all
qed

section \<open>Pushing: a byte array is a growable sequence\<close>

text \<open>One more element never wraps the size computation of a well-formed array.\<close>

lemma array_wf_addressable:
  assumes "array_wf a" and "array_adjust al a 1 = Inr r"
  shows "addressable (a_nmemb a) (a_elt_size a) 1"
  using assms addressable_1 by (auto simp: array_adjust_def map_res_Inr_iff array_wf_def)

lemma array_insert_refines:
  assumes wf: "array_wf a" and p: "unat p \<le> unat (a_nmemb a)"
    and e: "length e = unat (a_elt_size a)"
  shows "map_res (\<lambda>(a, ok). (abs_array a, ok)) (array_insert al a p e) =
    seq_inject al (abs_array a) (unat p) [e]"
proof (cases "array_adjust al a 1")
  case (Inl f)
  then have "adjust_plan (a_nmemb a) (a_cap a) (a_elt_size a) (a_settled a) 1 = Inl Hardened_Check"
    using array_adjust_faults [OF Inl] by (auto simp: array_adjust_def map_res_Inl_iff)
  then show ?thesis
    using Inl by (simp add: array_insert_def seq_inject_def seq_adjust_def abs_array_def
        array_adjust_def)
next
  case (Inr r)
  note room = array_wf_addressable [OF wf Inr]
  show ?thesis
    using array_inject_refines [OF wf room p, of "[e]" al] e by (simp add: array_insert_inject)
qed

lemma array_insert_wf:
  assumes wf: "array_wf a" and p: "unat p \<le> unat (a_nmemb a)"
    and e: "length e = unat (a_elt_size a)" and ins: "array_insert al a p e = Inr (a', ok)"
  shows "array_wf a'" and "a_elt_size a' = a_elt_size a" and "a_free a' = a_free a"
    and "elems a' = (if ok then take (unat p) (elems a) @ [e] @ drop (unat p) (elems a) else elems a)"
proof -
  obtain r where adjust: "array_adjust al a 1 = Inr r"
    using ins by (auto simp: array_insert_def bind_res_Inr_iff split: if_splits)
  note inject = array_inject_wf [OF wf array_wf_addressable [OF wf adjust] p, of "[e]" al a' ok]
  show "array_wf a'" "a_elt_size a' = a_elt_size a" "a_free a' = a_free a"
    "elems a' = (if ok then take (unat p) (elems a) @ [e] @ drop (unat p) (elems a) else elems a)"
    using inject e ins by (simp_all add: array_insert_inject)
qed

lemma array_push_insert: "array_push al a e = array_insert al a (a_nmemb a) e"
  by (simp add: array_push_inject array_insert_inject)

lemma array_push_wf:
  assumes "array_wf a" and "length e = unat (a_elt_size a)" and "array_push al a e = Inr (a', ok)"
  shows "array_wf a'" and "a_elt_size a' = a_elt_size a" and "a_free a' = a_free a"
    and "elems a' = (if ok then elems a @ [e] else elems a)"
  using array_insert_wf [OF assms(1) _ assms(2) assms(3) [unfolded array_push_insert]] by simp_all

lemma array_push_faults:
  assumes "array_wf a" and "length e = unat (a_elt_size a)" and "array_push al a e = Inl f"
  shows "f = Hardened_Check"
proof -
  have "seq_inject al (abs_array a) (unat (a_nmemb a)) [e] = Inl f"
    using array_insert_refines [OF assms(1) _ assms(2), of "a_nmemb a" al] assms(3)
    by (simp add: array_push_insert)
  then show ?thesis
    by (auto simp: seq_inject_def seq_adjust_def map_res_Inl_iff dest: adjust_plan_faults)
qed

interpretation bytes: growable_sequence elems array_wf
    "\<lambda>a e. length e = unat (a_elt_size a)" "array_push al" for al
  by unfold_locales (auto dest: array_push_wf array_push_faults)

end
