(* ===== verification/Array_Edit.thy ===== *)
theory Array_Edit
  imports Array_Refine
begin

text \<open>
  Removing and exchanging elements of a byte array: \<open>array_pop\<close>, \<open>array_evict\<close>,
  \<open>array_wipe\<close>, \<open>array_clear\<close>, \<open>array_swap_elems\<close> on the elements, and the order in which
  the destructor sees them.
\<close>

section \<open>Shortening an array\<close>

lemma array_shrink:
  assumes wf: "array_wf a" and ptr: "a_ptr a' = concat es @ slack"
    and es: "set es \<subseteq> set (elems a)" "length es \<le> unat (a_nmemb a)"
    and hdr: "a_elt_size a' = a_elt_size a" "a_cap a' = a_cap a" "unat (a_nmemb a') = length es"
    and len: "length (a_ptr a') = length (a_ptr a)"
  shows "array_wf a'" and "elems a' = es"
proof -
  have "\<forall>e \<in> set es. length e = unat (a_elt_size a')"
    using rowsE [OF wf] es(1) hdr(1) by (metis subsetD)
  moreover have "length (a_ptr a') = unat (a_cap a')" "0 < unat (a_elt_size a')"
    "unat (a_elt_size a') < 2 ^ 62"
    using wf hdr len by (simp_all add: array_wf_def)
  ultimately show "array_wf a'" "elems a' = es"
    using rowsI [OF ptr] hdr(3) by blast+
qed

text \<open>Moving the elements from \<open>e\<close> on down to position \<open>s\<close>.\<close>

lemma close_gap:
  assumes wf: "array_wf a" and s: "unat s \<le> unat e" and e: "unat e \<le> unat (a_nmemb a)"
  obtains S where
    "mem_move (a_ptr a) (relative_data a s) (relative_data a e)
       ((unat (a_nmemb a) - unat e) * unat (a_elt_size a)) =
     Inr (concat (take (unat s) (elems a) @ drop (unat e) (elems a)) @ S)"
    and "length (concat (take (unat s) (elems a) @ drop (unat e) (elems a)) @ S) = length (a_ptr a)"
proof -
  let ?E = "unat (a_elt_size a)" and ?es = "elems a"
  define A where "A = concat (take (unat s) ?es)"
  define X where "X = concat (take (unat e - unat s) (drop (unat s) ?es))"
  define B where "B = concat (drop (unat e) ?es)"
  obtain R where ptr: "a_ptr a = concat ?es @ R" and w: "\<forall>e \<in> set ?es. length e = ?E"
    using rowsE [OF wf] by metis
  have lens: "length A = unat s * ?E" "length X = (unat e - unat s) * ?E"
    "length B = (unat (a_nmemb a) - unat e) * ?E"
    unfolding A_def X_def B_def using w s e
    by (subst length_concat_width [where w = ?E]; auto dest: in_set_takeD in_set_dropD)+
  have "?es = take (unat s) ?es @ take (unat e - unat s) (drop (unat s) ?es) @ drop (unat e) ?es"
    using s by (metis append_take_drop_id drop_drop le_add_diff_inverse2)
  then have "concat ?es = A @ X @ B"
    unfolding A_def X_def B_def by (metis concat_append)
  then have blk: "a_ptr a = A @ X @ B @ R"
    using ptr by simp
  have off: "relative_data a s = length A" "relative_data a e = length A + length X"
    using array_wf_offset(1) [OF wf] lens s e by (simp_all add: diff_mult_distrib)
  obtain S where S: "length S = length X"
    "mem_move (A @ X @ B @ R) (length A) (length A + length X) (length B) = Inr (A @ B @ S @ R)"
    by (rule mem_move_down)
  have "concat (take (unat s) ?es @ drop (unat e) ?es) @ S @ R = A @ B @ S @ R"
    by (simp add: A_def B_def)
  then show thesis
    using that [of "S @ R"] S blk off lens(3) by (simp only: length_append)
qed

lemma array_evict_ok:
  assumes wf: "array_wf a" and p: "unat p < unat (a_nmemb a)"
  obtains ptr where "array_evict a p =
      Inr (a\<lparr>a_nmemb := a_nmemb a - 1, a_ptr := ptr\<rparr>, if a_free a then [elems a ! unat p] else [])"
    and "array_wf (a\<lparr>a_nmemb := a_nmemb a - 1, a_ptr := ptr\<rparr>)"
    and "elems (a\<lparr>a_nmemb := a_nmemb a - 1, a_ptr := ptr\<rparr>) =
      take (unat p) (elems a) @ drop (Suc (unat p)) (elems a)"
proof -
  let ?es' = "take (unat p) (elems a) @ drop (Suc (unat p)) (elems a)"
  have p1: "unat (p + 1) = Suc (unat p)"
    using p unat_u64_lt [of "a_nmemb a"] by (simp add: unat_u64_add)
  have n1: "unat (a_nmemb a - 1) = unat (a_nmemb a) - 1"
    using p by (simp add: unat_u64_sub)
  let ?E = "unat (a_elt_size a)"
  have tail: "(unat (a_nmemb a) - unat p) * ?E \<le> unat (a_cap a)"
    using wf unfolding array_wf_def diff_mult_distrib by linarith
  then have n: "unat ((a_nmemb a - p) * a_elt_size a) = (unat (a_nmemb a) - unat p) * ?E"
    using p unat_u64_lt [of "a_cap a"] by (subst unat_u64_mult) (simp_all add: unat_u64_sub)
  moreover have "1 * ?E \<le> (unat (a_nmemb a) - unat p) * ?E"
    using p by (intro mult_le_mono1) simp
  ultimately have move: "unat ((a_nmemb a - p) * a_elt_size a - a_elt_size a) =
      (unat (a_nmemb a) - unat (p + 1)) * ?E"
    using n by (simp add: unat_u64_sub p1 diff_mult_distrib)
  obtain S where S:
    "mem_move (a_ptr a) (relative_data a p) (relative_data a (p + 1))
       ((unat (a_nmemb a) - unat (p + 1)) * ?E) = Inr (concat ?es' @ S)"
    "length (concat ?es' @ S) = length (a_ptr a)"
    using close_gap [OF wf, of p "p + 1"] p p1 by auto
  have le: "p \<le> a_nmemb a - 1" "\<not> a_nmemb a \<le> p"
    using p by (simp_all add: word_le_nat_alt n1)
  have rel: "relative_data (a\<lparr>a_nmemb := m\<rparr>) q = relative_data a q" for m q
    by (simp add: relative_data_def)
  let ?a' = "a\<lparr>a_nmemb := a_nmemb a - 1, a_ptr := concat ?es' @ S\<rparr>"
  have "array_evict a p = Inr (?a', if a_free a then [elems a ! unat p] else [])"
    using S(1) le move elem_at_elems [OF wf p] by (simp add: array_evict_def Let_def rel)
  moreover have "set ?es' \<subseteq> set (elems a)"
    by (auto dest: in_set_takeD in_set_dropD)
  then have "array_wf ?a'" "elems ?a' = ?es'"
    using S(2) p n1 by (intro array_shrink [OF wf, of ?a' ?es' S]; simp)+
  ultimately show thesis
    by (rule that)
qed

lemma array_pop_ok:
  assumes wf: "array_wf a" and ne: "a_nmemb a \<noteq> 0"
  shows "array_pop a into = Inr (a\<lparr>a_nmemb := a_nmemb a - 1\<rparr>,
      if into then Some (last (elems a)) else None, if a_free a then [last (elems a)] else [])"
    and "array_wf (a\<lparr>a_nmemb := a_nmemb a - 1\<rparr>)"
    and "elems (a\<lparr>a_nmemb := a_nmemb a - 1\<rparr>) = butlast (elems a)"
proof -
  have pos: "0 < unat (a_nmemb a)"
    using ne by (simp add: unat_gt_0)
  then have n1: "unat (a_nmemb a - 1) = unat (a_nmemb a) - 1"
    by (simp add: unat_u64_sub)
  have "elems a \<noteq> []"
    using pos by (metis length_elems length_greater_0_conv)
  then have last: "elems a ! unat (a_nmemb a - 1) = last (elems a)"
    by (simp add: last_conv_nth n1)
  have "elem_at (a\<lparr>a_nmemb := m\<rparr>) q = elem_at a q" for m q
    by (simp add: elem_at_def relative_data_def)
  then show "array_pop a into = Inr (a\<lparr>a_nmemb := a_nmemb a - 1\<rparr>,
      if into then Some (last (elems a)) else None, if a_free a then [last (elems a)] else [])"
    using elem_at_elems [OF wf, of "a_nmemb a - 1"] pos ne n1 last
    by (simp add: array_pop_def Let_def)
  obtain R where ptr: "a_ptr a = concat (elems a) @ R"
    using rowsE [OF wf] by metis
  have "elems a = butlast (elems a) @ [last (elems a)]"
    using \<open>elems a \<noteq> []\<close> by simp
  then have "concat (elems a) = concat (butlast (elems a)) @ last (elems a)"
    by (metis concat.simps concat_append append_Nil2)
  then have "a_ptr a = concat (butlast (elems a)) @ last (elems a) @ R"
    using ptr by simp
  moreover have "set (butlast (elems a)) \<subseteq> set (elems a)"
    by (auto dest: in_set_butlastD)
  moreover have "length (butlast (elems a)) = unat (a_nmemb a) - 1"
    by simp
  ultimately show "array_wf (a\<lparr>a_nmemb := a_nmemb a - 1\<rparr>)"
    "elems (a\<lparr>a_nmemb := a_nmemb a - 1\<rparr>) = butlast (elems a)"
    using n1
    by (auto intro!: array_shrink [OF wf, of _ "butlast (elems a)" "last (elems a) @ R"])
qed

section \<open>Wiping a range\<close>

lemma wipe_loop_elems:
  assumes wf: "array_wf a"
  shows "unat i + k \<le> unat (a_nmemb a) \<Longrightarrow> wipe_loop a i k = Inr (take k (drop (unat i) (elems a)))"
proof (induction k arbitrary: i)
  case (Suc k)
  have i1: "unat (i + 1) = Suc (unat i)" if "k \<noteq> 0"
    using Suc.prems unat_u64_lt [of "a_nmemb a"] by (simp add: unat_u64_add)
  have "wipe_loop a (i + 1) k = Inr (take k (drop (Suc (unat i)) (elems a)))"
    using Suc i1 by (cases "k = 0") simp_all
  moreover have "drop (unat i) (elems a) = elems a ! unat i # drop (Suc (unat i)) (elems a)"
    using Suc.prems by (simp add: Cons_nth_drop_Suc)
  ultimately show ?case
    using Suc.prems elem_at_elems [OF wf, of i] by simp
qed simp

lemma array_wipe_ok:
  assumes wf: "array_wf a" and s: "unat s \<le> unat e" and e: "unat e \<le> unat (a_nmemb a)"
  obtains ptr where "array_wipe a s e =
      Inr (a\<lparr>a_ptr := ptr, a_nmemb := a_nmemb a - (e - s)\<rparr>,
        if a_free a then take (unat e - unat s) (elems a) else [])"
    and "array_wf (a\<lparr>a_ptr := ptr, a_nmemb := a_nmemb a - (e - s)\<rparr>)"
    and "elems (a\<lparr>a_ptr := ptr, a_nmemb := a_nmemb a - (e - s)\<rparr>) =
      take (unat s) (elems a) @ drop (unat e) (elems a)"
proof -
  let ?E = "unat (a_elt_size a)" and ?es' = "take (unat s) (elems a) @ drop (unat e) (elems a)"
  have n: "unat (e - s) = unat e - unat s"
    using s by (simp add: unat_u64_sub)
  have "a_nmemb a - s - (e - s) = a_nmemb a - e"
    by simp
  moreover have "(unat (a_nmemb a) - unat e) * ?E \<le> unat (a_cap a)"
    using wf unfolding array_wf_def diff_mult_distrib by linarith
  ultimately have move: "unat ((a_nmemb a - s - (e - s)) * a_elt_size a) =
      (unat (a_nmemb a) - unat e) * ?E"
    using e unat_u64_lt [of "a_cap a"] by (simp add: unat_u64_mult unat_u64_sub)
  have "unat (a_nmemb a - (e - s)) = unat (a_nmemb a) - (unat e - unat s)"
    using e n by (simp add: unat_u64_sub)
  then have m: "unat (a_nmemb a - (e - s)) = length ?es'" "length ?es' \<le> unat (a_nmemb a)"
    using s e by simp_all
  obtain S where S: "mem_move (a_ptr a) (relative_data a s) (relative_data a e)
       ((unat (a_nmemb a) - unat e) * ?E) = Inr (concat ?es' @ S)"
    "length (concat ?es' @ S) = length (a_ptr a)"
    using close_gap [OF wf s e] by blast
  have checks: "SIZE_T_SAFE_TO_SUB e s" "\<not> e - s > a_nmemb a"
    using s e n by (simp_all add: SAFE_TO_SUB_iff word_less_nat_alt)
  have free: "wipe_loop a 0 (unat (e - s)) = Inr (take (unat e - unat s) (elems a))"
    using wipe_loop_elems [OF wf, of 0 "unat (e - s)"] e n by simp
  let ?a' = "a\<lparr>a_ptr := concat ?es' @ S, a_nmemb := a_nmemb a - (e - s)\<rparr>"
  have "array_wipe a s e = Inr (?a', if a_free a then take (unat e - unat s) (elems a) else [])"
    using checks S(1) free unfolding array_wipe_def Let_def move by simp
  moreover have "set ?es' \<subseteq> set (elems a)"
    by (auto dest: in_set_takeD in_set_dropD)
  then have "array_wf ?a'" "elems ?a' = ?es'"
    using S(2) m s e by (intro array_shrink [OF wf, of ?a' ?es' S]; simp)+
  ultimately show thesis
    by (rule that)
qed

section \<open>Clearing\<close>

lemma clear_loop_elems:
  assumes wf: "array_wf a"
  shows "k \<le> unat (a_nmemb a) \<Longrightarrow> clear_loop a k = Inr (rev (take k (elems a)))"
proof (induction k)
  case (Suc k)
  have "unat (of_nat k :: u64) = k"
    using Suc.prems unat_u64_lt [of "a_nmemb a"] by (simp add: unat_u64_of_nat)
  then show ?case
    using Suc elem_at_elems [OF wf, of "of_nat k"] by (simp add: take_Suc_conv_app_nth)
qed simp

lemma array_clear_ok:
  assumes "array_wf a"
  shows "array_clear a = Inr (a\<lparr>a_nmemb := 0\<rparr>, if a_free a then rev (elems a) else [])"
    and "array_wf (a\<lparr>a_nmemb := 0\<rparr>)" and "elems (a\<lparr>a_nmemb := 0\<rparr>) = []"
  using assms clear_loop_elems [OF assms, of "unat (a_nmemb a)"]
  by (simp_all add: array_clear_def array_wf_def elems_def)

section \<open>Exchanging two elements\<close>

lemma xor_cancel: "(y XOR (x XOR y) :: 'a word) = x" "((x XOR y) XOR x :: 'a word) = y"
  "(x XOR (y XOR x) :: 'a word) = y"
  for x y :: "'a :: len word"
  by (metis xor.assoc xor.commute xor.left_neutral xor_self_eq)+

lemma xor_exchange_up:
  assumes "p = length A" and "q = length A + Suc (length B)"
  shows "xor_exchange (A @ x # B @ y # C) p q = A @ y # B @ x # C"
  using assms by (simp add: xor_exchange_def nth_append list_update_append xor_cancel)

lemma xor_exchange_down:
  assumes "q = length A" and "p = length A + Suc (length B)"
  shows "xor_exchange (A @ x # B @ y # C) p q = A @ y # B @ x # C"
  using assms by (simp add: xor_exchange_def nth_append list_update_append xor_cancel)

lemma xor_exchange_same: "p = length A \<Longrightarrow> xor_exchange (A @ x # C) p p = A @ 0 # C"
  by (simp add: xor_exchange_def nth_append list_update_append)

lemma xor_bytes_up:
  "length X = n \<Longrightarrow> length Y = n \<Longrightarrow> p = length A \<Longrightarrow> q = length A + length X + length B \<Longrightarrow>
   xor_bytes (A @ X @ B @ Y @ C) p q n = Inr (A @ Y @ B @ X @ C)"
proof (induction n arbitrary: A X B Y p q)
  case (Suc n)
  obtain x X' y Y' where XY: "X = x # X'" "Y = y # Y'"
    using Suc.prems by (metis length_Suc_conv)
  have step: "xor_exchange (A @ X @ B @ Y @ C) p q = (A @ [y]) @ X' @ (B @ [x]) @ Y' @ C"
    using xor_exchange_up [of p A q "X' @ B" x y "Y' @ C"] Suc.prems XY by simp
  have "xor_bytes ((A @ [y]) @ X' @ (B @ [x]) @ Y' @ C) (p + 1) (q + 1) n =
      Inr ((A @ [y]) @ Y' @ (B @ [x]) @ X' @ C)"
    by (rule Suc.IH) (use Suc.prems XY in simp_all)
  then show ?case
    using step Suc.prems XY by simp
qed simp

lemma xor_bytes_down:
  "length X = n \<Longrightarrow> length Y = n \<Longrightarrow> q = length A \<Longrightarrow> p = length A + length X + length B \<Longrightarrow>
   xor_bytes (A @ X @ B @ Y @ C) p q n = Inr (A @ Y @ B @ X @ C)"
proof (induction n arbitrary: A X B Y p q)
  case (Suc n)
  obtain x X' y Y' where XY: "X = x # X'" "Y = y # Y'"
    using Suc.prems by (metis length_Suc_conv)
  have step: "xor_exchange (A @ X @ B @ Y @ C) p q = (A @ [y]) @ X' @ (B @ [x]) @ Y' @ C"
    using xor_exchange_down [of q A p "X' @ B" x y "Y' @ C"] Suc.prems XY by simp
  have "xor_bytes ((A @ [y]) @ X' @ (B @ [x]) @ Y' @ C) (p + 1) (q + 1) n =
      Inr ((A @ [y]) @ Y' @ (B @ [x]) @ X' @ C)"
    by (rule Suc.IH) (use Suc.prems XY in simp_all)
  then show ?case
    using step Suc.prems XY by simp
qed simp

text \<open>With both pointers on the same element every byte is XORed with itself.\<close>

lemma xor_bytes_same:
  "length X = n \<Longrightarrow> p = length A \<Longrightarrow> xor_bytes (A @ X @ C) p p n = Inr (A @ replicate n 0 @ C)"
proof (induction n arbitrary: A X p)
  case (Suc n)
  obtain x X' where X: "X = x # X'"
    using Suc.prems by (metis length_Suc_conv)
  have "xor_bytes ((A @ [0]) @ X' @ C) (p + 1) (p + 1) n = Inr ((A @ [0]) @ replicate n 0 @ C)"
    by (rule Suc.IH) (use Suc.prems X in simp_all)
  then show ?case
    using Suc.prems X xor_exchange_same [of p A x "X' @ C"] by simp
qed simp

lemma list_split_at:
  assumes "i < length xs"
  shows "xs = take i xs @ [xs ! i] @ drop (Suc i) xs"
  using assms by (simp add: id_take_nth_drop [symmetric])

lemma list_split_at2:
  assumes "i < j" and "j < length xs"
  shows "xs = take i xs @ [xs ! i] @ take (j - Suc i) (drop (Suc i) xs) @ [xs ! j] @ drop (Suc j) xs"
proof -
  have "drop (Suc i) xs = take (j - Suc i) (drop (Suc i) xs) @ [xs ! j] @ drop (Suc j) xs"
    using assms list_split_at [of "j - Suc i" "drop (Suc i) xs"] by simp
  then show ?thesis
    using assms list_split_at [of i xs] by simp
qed

lemma list_update_at2:
  assumes "i < j" and "j < length xs"
  shows "xs[i := x, j := y] =
    take i xs @ [x] @ take (j - Suc i) (drop (Suc i) xs) @ [y] @ drop (Suc j) xs"
proof -
  have "take j (xs[i := x]) = take i xs @ x # take (j - Suc i) (drop (Suc i) xs)"
    using assms by (simp add: take_update_swap upd_conv_take_nth_drop drop_take take_Cons'
        split: nat.splits)
  then show ?thesis
    using assms by (simp add: upd_conv_take_nth_drop [of j])
qed

lemma rebuild_rows:
  assumes wf: "array_wf a" and ptr: "ptr = concat es @ R" and len: "length ptr = length (a_ptr a)"
    and es: "length es = length (elems a)" "\<forall>e \<in> set es. length e = unat (a_elt_size a)"
  shows "array_wf (a\<lparr>a_ptr := ptr\<rparr>)" and "elems (a\<lparr>a_ptr := ptr\<rparr>) = es"
proof -
  have "array_wf (a\<lparr>a_ptr := ptr\<rparr>) \<and> elems (a\<lparr>a_ptr := ptr\<rparr>) = es"
    using rowsI [of "a\<lparr>a_ptr := ptr\<rparr>" es R] assms by (simp add: array_wf_def)
  then show "array_wf (a\<lparr>a_ptr := ptr\<rparr>)" "elems (a\<lparr>a_ptr := ptr\<rparr>) = es"
    by simp_all
qed

text \<open>The bytes of a block around two elements, and around one.\<close>

lemma block_around2:
  assumes wf: "array_wf a" and i: "i < j" and j: "j < unat (a_nmemb a)"
  obtains A B C where "a_ptr a = A @ elems a ! i @ B @ elems a ! j @ C"
    and "length A = i * unat (a_elt_size a)"
    and "length A + unat (a_elt_size a) + length B = j * unat (a_elt_size a)"
    and "\<And>x y. length x = unat (a_elt_size a) \<Longrightarrow> length y = unat (a_elt_size a) \<Longrightarrow>
      array_wf (a\<lparr>a_ptr := A @ x @ B @ y @ C\<rparr>) \<and>
      elems (a\<lparr>a_ptr := A @ x @ B @ y @ C\<rparr>) = (elems a)[i := x, j := y]"
proof -
  let ?E = "unat (a_elt_size a)" and ?es = "elems a"
  let ?l = "take i ?es" and ?m = "take (j - Suc i) (drop (Suc i) ?es)" and ?r = "drop (Suc j) ?es"
  obtain R where ptr: "a_ptr a = concat ?es @ R" and w: "\<forall>e \<in> set ?es. length e = ?E"
    using rowsE [OF wf] by metis
  have es: "?es = ?l @ [?es ! i] @ ?m @ [?es ! j] @ ?r"
    using list_split_at2 [of i j ?es] i j by simp
  then have "concat ?es = concat ?l @ ?es ! i @ concat ?m @ ?es ! j @ concat ?r"
    by (metis concat.simps concat_append append_Nil2)
  then have blk: "a_ptr a = concat ?l @ ?es ! i @ concat ?m @ ?es ! j @ concat ?r @ R"
    using ptr by simp
  have wi: "length (?es ! i) = ?E" "length (?es ! j) = ?E"
    using w i j by simp_all
  have lens: "length (concat ?l) = i * ?E" "length (concat ?m) = (j - Suc i) * ?E"
    using w i j by (subst length_concat_width [where w = ?E]; auto dest: in_set_takeD in_set_dropD)+
  have "i * ?E + ?E + (j - Suc i) * ?E = (i + 1 + (j - Suc i)) * ?E"
    by (simp add: add_mult_distrib)
  then have pos: "length (concat ?l) + ?E + length (concat ?m) = j * ?E"
    using lens i by simp
  have upd: "(?es)[i := x, j := y] = ?l @ [x] @ ?m @ [y] @ ?r" for x y
    using list_update_at2 [of i j ?es] i j by simp
  have "array_wf (a\<lparr>a_ptr := concat ?l @ x @ concat ?m @ y @ concat ?r @ R\<rparr>) \<and>
      elems (a\<lparr>a_ptr := concat ?l @ x @ concat ?m @ y @ concat ?r @ R\<rparr>) = (?es)[i := x, j := y]"
    if "length x = ?E" "length y = ?E" for x y
  proof -
    have e1: "concat ?l @ x @ concat ?m @ y @ concat ?r @ R = concat ((?es)[i := x, j := y]) @ R"
      by (simp add: upd)
    have e2: "length (concat ?l @ x @ concat ?m @ y @ concat ?r @ R) = length (a_ptr a)"
      using that wi by (subst blk) simp
    have e3: "\<forall>e \<in> set ((?es)[i := x, j := y]). length e = ?E"
      using w that set_update_subset_insert [of "(?es)[i := x]" j y] set_update_subset_insert [of ?es i x]
      by blast
    show ?thesis
      using rebuild_rows [OF wf e1 e2 _ e3] by simp
  qed
  then show thesis
    using that [of "concat ?l" "concat ?m" "concat ?r @ R"] blk lens(1) pos by blast
qed

lemma array_swap_elems_ok:
  assumes wf: "array_wf a" and i: "unat i < unat (a_nmemb a)" and j: "unat j < unat (a_nmemb a)"
    and ij: "i \<noteq> j"
  obtains a' where "array_swap_elems a i j = Inr a'" and "array_wf a'"
    and "elems a' = (elems a)[unat i := elems a ! unat j, unat j := elems a ! unat i]"
proof -
  let ?E = "unat (a_elt_size a)"
  have off: "relative_data a i = unat i * ?E" "relative_data a j = unat j * ?E"
    using array_wf_offset(1) [OF wf] i j by simp_all
  have w: "length (elems a ! unat i) = ?E" "length (elems a ! unat j) = ?E"
    using rowsE [OF wf] i j by (metis length_elems nth_mem)+
  have call: "array_swap_elems a i j =
      map_res (\<lambda>ptr. a\<lparr>a_ptr := ptr\<rparr>) (xor_bytes (a_ptr a) (unat i * ?E) (unat j * ?E) ?E)"
    using i j off by (simp add: array_swap_elems_def word_le_nat_alt)
  consider "unat i < unat j" | "unat j < unat i"
    using ij by (metis linorder_neqE_nat word_unat_eq_iff)
  then show thesis
  proof cases
    case 1
    obtain A B C where blk: "a_ptr a = A @ elems a ! unat i @ B @ elems a ! unat j @ C"
      and lens: "length A = unat i * ?E" "length A + ?E + length B = unat j * ?E"
      and re: "\<And>x y. length x = ?E \<Longrightarrow> length y = ?E \<Longrightarrow> array_wf (a\<lparr>a_ptr := A @ x @ B @ y @ C\<rparr>) \<and>
        elems (a\<lparr>a_ptr := A @ x @ B @ y @ C\<rparr>) = (elems a)[unat i := x, unat j := y]"
      using block_around2 [OF wf 1 j] by blast
    have "xor_bytes (a_ptr a) (unat i * ?E) (unat j * ?E) ?E =
        Inr (A @ elems a ! unat j @ B @ elems a ! unat i @ C)"
      unfolding blk using lens w by (intro xor_bytes_up) simp_all
    then show thesis
      using that call re [OF w(2,1)] by simp
  next
    case 2
    obtain A B C where blk: "a_ptr a = A @ elems a ! unat j @ B @ elems a ! unat i @ C"
      and lens: "length A = unat j * ?E" "length A + ?E + length B = unat i * ?E"
      and re: "\<And>x y. length x = ?E \<Longrightarrow> length y = ?E \<Longrightarrow> array_wf (a\<lparr>a_ptr := A @ x @ B @ y @ C\<rparr>) \<and>
        elems (a\<lparr>a_ptr := A @ x @ B @ y @ C\<rparr>) = (elems a)[unat j := x, unat i := y]"
      using block_around2 [OF wf 2 i] by blast
    have "xor_bytes (a_ptr a) (unat i * ?E) (unat j * ?E) ?E =
        Inr (A @ elems a ! unat i @ B @ elems a ! unat j @ C)"
      unfolding blk using lens w by (intro xor_bytes_down) simp_all
    then show thesis
      using that call re [OF w] 2 by (simp add: list_update_swap)
  qed
qed

lemma array_swap_elems_self:
  assumes wf: "array_wf a" and i: "unat i < unat (a_nmemb a)"
  obtains a' where "array_swap_elems a i i = Inr a'" and "array_wf a'"
    and "elems a' = (elems a)[unat i := replicate (unat (a_elt_size a)) 0]"
proof -
  let ?E = "unat (a_elt_size a)" and ?i = "unat i" and ?z = "replicate (unat (a_elt_size a)) (0 :: u8)"
  obtain R where ptr: "a_ptr a = concat (elems a) @ R" and w: "\<forall>e \<in> set (elems a). length e = ?E"
    using rowsE [OF wf] by metis
  let ?l = "take ?i (elems a)" and ?r = "drop (Suc ?i) (elems a)"
  have "concat (elems a) = concat ?l @ elems a ! ?i @ concat ?r"
    using list_split_at [of ?i "elems a"] i by (metis append_Nil2 concat.simps concat_append length_elems)
  then have blk: "a_ptr a = concat ?l @ elems a ! ?i @ concat ?r @ R"
    using ptr by simp
  have wi: "length (elems a ! ?i) = ?E"
    using w i by simp
  have lenl: "length (concat ?l) = ?i * ?E"
    using w i by (subst length_concat_width [where w = ?E]) (auto dest: in_set_takeD)
  have off: "relative_data a i = ?i * ?E"
    using array_wf_offset(1) [OF wf] i by simp
  have "xor_bytes (a_ptr a) (?i * ?E) (?i * ?E) ?E = Inr (concat ?l @ ?z @ concat ?r @ R)"
    unfolding blk by (rule xor_bytes_same [OF wi]) (simp add: lenl)
  moreover have upd: "(elems a)[?i := ?z] = ?l @ [?z] @ ?r"
    using i by (simp add: upd_conv_take_nth_drop)
  moreover have "array_wf (a\<lparr>a_ptr := concat ?l @ ?z @ concat ?r @ R\<rparr>)
      \<and> elems (a\<lparr>a_ptr := concat ?l @ ?z @ concat ?r @ R\<rparr>) = (elems a)[?i := ?z]"
  proof -
    have e1: "concat ?l @ ?z @ concat ?r @ R = concat ((elems a)[?i := ?z]) @ R"
      by (simp add: upd)
    have e2: "length (concat ?l @ ?z @ concat ?r @ R) = length (a_ptr a)"
      using wi by (subst blk) simp
    have e3: "\<forall>e \<in> set ((elems a)[?i := ?z]). length e = ?E"
      using w set_update_subset_insert [of "elems a" ?i ?z] by auto
    show ?thesis
      using rebuild_rows [OF wf e1 e2 _ e3] by simp
  qed
  moreover have "array_swap_elems a i i =
      map_res (\<lambda>ptr. a\<lparr>a_ptr := ptr\<rparr>) (xor_bytes (a_ptr a) (?i * ?E) (?i * ?E) ?E)"
    using i off by (simp add: array_swap_elems_def word_le_nat_alt)
  ultimately show thesis
    using that by simp
qed

end
