(* ===== verification/Array_Copy.thy ===== *)
theory Array_Copy
  imports Array_Edit
begin

text \<open>
  Making arrays: \<open>array_create\<close> and what it returns when memory runs out, the shrinking
  \<open>array_slimcheck\<close>, and the copies \<open>array_extract\<close>, \<open>array_pull\<close>, \<open>array_concat\<close>,
  \<open>array_dup\<close> and \<open>array_filter\<close>.
\<close>

section \<open>Creation\<close>

lemma array_create_cases:
  assumes "0 < unat elt" and "unat elt < 2 ^ 62" and "unat elt * unat n < 2 ^ 64"
  shows "if \<not> grants al sizeof_array_t then array_create al elt n f = Inr Null
    else if \<not> grants al (size_align (elt * (if n = 0 then ARRAY_INITIAL_SIZE else n)))
      then array_create al elt n f = Inr Dangling
    else \<exists>a. array_create al elt n f = Inr (Ptr a) \<and> array_wf a \<and> elems a = [] \<and>
      a_nmemb a = 0 \<and> a_elt_size a = elt \<and> a_free a = f \<and> a_is_own_buffer a \<and> \<not> a_settled a \<and>
      a_cap a = size_align (elt * (if n = 0 then ARRAY_INITIAL_SIZE else n))"
proof -
  let ?cap = "size_align (elt * (if n = 0 then ARRAY_INITIAL_SIZE else n))"
  have checks: "elt \<noteq> 0" "SIZE_T_SAFE_TO_MUL elt n"
    using assms by (auto simp: SAFE_TO_MUL_iff)
  show ?thesis
  proof (cases "malloc al ?cap")
    case None
    then show ?thesis
      using None [unfolded malloc_None_iff] None checks
      by (simp add: array_create_def array_init_def Let_def)
  next
    case (Some b)
    have "length b = unat ?cap"
      using Some by (rule libc.alloc_length)
    moreover have "grants al ?cap"
      using Some by (auto simp: malloc_def split: if_splits)
    ultimately show ?thesis
      using Some checks assms(1,2)
      by (simp add: array_create_def array_init_def Let_def array_wf_def elems_def zeroed_array_def)
  qed
qed

lemma array_create_refines:
  assumes "0 < unat elt" and "unat elt < 2 ^ 62" and "unat elt * unat n < 2 ^ 64"
  shows "map_res (map_cptr abs_array) (array_create al elt n f) = seq_create al elt n"
  using array_create_cases [OF assms, of al f] assms
  by (auto simp: seq_create_def SAFE_TO_MUL_iff abs_array_def Let_def split: if_splits)

section \<open>Giving memory back\<close>

lemma array_slimcheck_ok:
  assumes wf: "array_wf a" and zero: "a_nmemb a \<noteq> 0 \<or> \<not> zero_frees al"
    and slim: "array_slimcheck al a = (a', ok)"
  shows "array_wf a'" and "elems a' = elems a" and "a_nmemb a' = a_nmemb a"
    and "unat (a_cap a') \<le> unat (a_cap a)"
proof -
  let ?n = "unat (a_nmemb a) * unat (a_elt_size a)"
  have "?n < 2 ^ 64"
    using wf unat_u64_lt [of "a_cap a"] unfolding array_wf_def by linarith
  then have sz: "unat (array_sizeof a) = ?n"
    by (simp add: array_sizeof_def unat_u64_mult)
  obtain R where ptr: "a_ptr a = concat (elems a) @ R"
    and w: "\<forall>e \<in> set (elems a). length e = unat (a_elt_size a)"
    and len: "length (concat (elems a)) = ?n"
    using rowsE [OF wf] by metis
  have released: "\<not> (array_sizeof a = 0 \<and> zero_frees al)"
  proof
    assume "array_sizeof a = 0 \<and> zero_frees al"
    then have "?n = 0" "a_nmemb a \<noteq> 0"
      using sz zero by auto
    then show False
      using wf by (simp add: array_wf_def unat_eq_0)
  qed
  have moved: "array_wf (a\<lparr>a_ptr := p, a_cap := array_sizeof a\<rparr>) \<and>
      elems (a\<lparr>a_ptr := p, a_cap := array_sizeof a\<rparr>) = elems a"
    if p: "realloc al (a_ptr a) (array_sizeof a) = Realloc_Moved p" for p
  proof -
    have "length p = ?n"
      using libc.resize_length [OF p] sz by simp
    moreover obtain zs where "p = concat (elems a) @ zs"
      by (rule libc.resize_keeps [OF p [unfolded ptr]]) (simp_all add: sz len)
    ultimately show ?thesis
      using rowsI [of "a\<lparr>a_ptr := p, a_cap := array_sizeof a\<rparr>" "elems a" zs] w wf sz
      by (simp add: array_wf_def)
  qed
  have "array_wf a' \<and> elems a' = elems a \<and> a_nmemb a' = a_nmemb a \<and>
      unat (a_cap a') \<le> unat (a_cap a)"
  proof (cases "realloc al (a_ptr a) (array_sizeof a)")
    case (Realloc_Moved p)
    then show ?thesis
      using slim wf moved [OF Realloc_Moved] sz
      by (auto simp: array_slimcheck_def Let_def array_wf_def split: if_splits)
  next
    case Realloc_Released
    then show ?thesis
      using released by (auto simp: realloc_def split: if_splits)
  qed (use slim wf in \<open>auto simp: array_slimcheck_def Let_def split: if_splits\<close>)
  then show "array_wf a'" "elems a' = elems a" "a_nmemb a' = a_nmemb a"
    "unat (a_cap a') \<le> unat (a_cap a)"
    by simp_all
qed

section \<open>Extracting a range into a fresh block\<close>

lemma elems_slice_bytes:
  assumes wf: "array_wf a" and "s + n \<le> unat (a_nmemb a)"
  shows "mem_load (a_ptr a) (s * unat (a_elt_size a)) (n * unat (a_elt_size a)) =
    Inr (concat (take n (drop s (elems a))))"
proof -
  let ?E = "unat (a_elt_size a)" and ?es = "elems a"
  obtain R where ptr: "a_ptr a = concat ?es @ R" and w: "\<forall>e \<in> set ?es. length e = ?E"
    using rowsE [OF wf] by metis
  have "?es = take s ?es @ take n (drop s ?es) @ drop n (drop s ?es)"
    by (metis append_take_drop_id)
  then have "concat ?es = concat (take s ?es) @ concat (take n (drop s ?es)) @ concat (drop n (drop s ?es))"
    by (metis concat_append)
  then have "a_ptr a = concat (take s ?es) @ concat (take n (drop s ?es)) @ concat (drop n (drop s ?es)) @ R"
    using ptr by simp
  moreover have "length (concat (take s ?es)) = s * ?E"
    using w assms(2) by (subst length_concat_width [where w = ?E]) (auto dest: in_set_takeD)
  moreover have "length (concat (take n (drop s ?es))) = n * ?E"
    using w assms(2)
    by (subst length_concat_width [where w = ?E]) (auto dest: in_set_takeD in_set_dropD)
  ultimately show ?thesis
    using mem_load_append [of "s * ?E" "concat (take s ?es)" "n * ?E" "concat (take n (drop s ?es))"
        "concat (drop n (drop s ?es)) @ R"] by simp
qed

lemma mem_copy_whole:
  assumes "mem_load src s n = Inr v" and "length dst = n"
  shows "mem_copy dst 0 src s n = Inr v"
proof -
  have "length v = n"
    using assms(1) by (auto simp: mem_load_def split: if_splits)
  then show ?thesis
    using assms by (simp add: mem_copy_def mem_store_def)
qed

lemma array_extract_ok:
  assumes wf: "array_wf a" and s: "unat s \<le> unat e" and e: "unat e \<le> unat (a_nmemb a)"
  shows "array_extract al a s e =
    Inr (if grants al ((e - s) * a_elt_size a)
         then Some (concat (take (unat e - unat s) (drop (unat s) (elems a)))) else None)"
proof -
  let ?E = "unat (a_elt_size a)" and ?n = "unat e - unat s"
  have n: "unat (e - s) = ?n" "unat (a_nmemb a - s) = unat (a_nmemb a) - unat s"
    using s e by (simp_all add: unat_u64_sub)
  have "?n * ?E \<le> unat (a_nmemb a) * ?E"
    using e by (intro mult_le_mono1) simp
  then have lt: "?n * ?E < 2 ^ 64"
    using wf unat_u64_lt [of "a_cap a"] unfolding array_wf_def by linarith
  then have bytes: "unat ((e - s) * a_elt_size a) = ?n * ?E"
    by (simp add: unat_u64_mult n)
  have checks: "SIZE_T_SAFE_TO_SUB e s" "SIZE_T_SAFE_TO_MUL (e - s) (a_elt_size a)"
    "SIZE_T_SAFE_TO_SUB (a_nmemb a) s" "\<not> a_nmemb a - s < e - s"
    using s e lt n by (simp_all add: safe_iffs word_less_nat_alt)
  have off: "relative_data a s = unat s * ?E"
    using array_wf_offset(1) [OF wf, of s] s e by simp
  have load: "mem_load (a_ptr a) (unat s * ?E) (?n * ?E) =
      Inr (concat (take ?n (drop (unat s) (elems a))))"
    by (rule elems_slice_bytes [OF wf]) (use s e in simp)
  show ?thesis
  proof (cases "malloc al ((e - s) * a_elt_size a)")
    case None
    then show ?thesis
      using None [unfolded malloc_None_iff] None checks by (simp add: array_extract_def)
  next
    case (Some b)
    have "length b = ?n * ?E"
      using libc.alloc_length [OF Some] bytes by simp
    then have "mem_copy b 0 (a_ptr a) (unat s * ?E) (?n * ?E) =
        Inr (concat (take ?n (drop (unat s) (elems a))))"
      using mem_copy_whole [OF load] by simp
    moreover have "grants al ((e - s) * a_elt_size a)"
      using Some by (auto simp: malloc_def split: if_splits)
    ultimately show ?thesis
      using Some checks bytes off by (simp add: array_extract_def)
  qed
qed

section \<open>Pulling a range, forwards or backwards\<close>

lemma unat_ABS: "int (unat (ABS w)) = \<bar>sint w\<bar>"
proof (cases "unat w < 2 ^ 63")
  case False
  then have "w \<noteq> 0" and s: "sint w = int (unat w) - 2 ^ 64"
    by (auto simp: sint_u64)
  have "int (unat (- w)) = - sint w" and "sint w < 0"
    using unat_u64_lt_int [of w] s int_unat_neg [OF \<open>w \<noteq> 0\<close>] by linarith+
  then show ?thesis
    by (simp add: ABS_def)
qed (simp add: ABS_def sint_u64)

definition pull_index :: "nat \<Rightarrow> u64 \<Rightarrow> nat" where
  "pull_index n i = (if sint i < 0 then nat (int n + sint i) else unat i)"

lemma pull_start:
  assumes n: "unat n < 2 ^ 63" and abs: "\<bar>sint i\<bar> < int (unat n)"
  shows "unat (if sint i < 0 then i + n else i) = pull_index (unat n) i"
    and "pull_index (unat n) i < unat n"
proof -
  have "unat (i + n) = nat (int (unat n) + sint i)" if "sint i < 0"
  proof -
    have i: "sint i = int (unat i) - 2 ^ 64" "\<not> unat i < 2 ^ 63"
      using that by (auto simp: sint_u64 split: if_splits)
    have "i \<noteq> 0" using i by auto
    then have "int (unat (- i)) < int (unat n)"
      using i(1) abs unat_u64_lt_int [of i] int_unat_neg [OF \<open>i \<noteq> 0\<close>] by linarith
    then have "unat (- i) < unat n"
      by (simp only: of_nat_less_iff)
    moreover have "i + n = n - (- i)" by simp
    ultimately have "int (unat (i + n)) = int (unat n) - int (unat (- i))"
      by (simp only: unat_u64_sub of_nat_diff less_imp_le)
    then have "int (unat (i + n)) = int (unat n) + sint i"
      using i(1) int_unat_neg [OF \<open>i \<noteq> 0\<close>] by linarith
    then show ?thesis by (metis nat_int)
  qed
  then show "unat (if sint i < 0 then i + n else i) = pull_index (unat n) i"
    by (simp add: pull_index_def)
  show "pull_index (unat n) i < unat n"
  proof (cases "sint i < 0")
    case False
    then have "int (unat i) = sint i"
      using unat_u64_lt_int [of i] by (auto simp: sint_u64 split: if_splits)
    then have "int (unat i) < int (unat n)"
      using abs False by linarith
    then show ?thesis
      using False by (simp only: pull_index_def if_False of_nat_less_iff)
  qed (use abs in \<open>simp add: pull_index_def nat_less_iff\<close>)
qed

lemma pull_loop_elems:
  assumes wf: "array_wf a" and s: "unat s < unat (a_nmemb a)" and k: "k \<le> unat s + 1"
    and dst: "length dst = off + k * unat (a_elt_size a)"
  shows "pull_loop dst off a s k =
    Inr (take off dst @ concat (rev (take k (drop (unat s + 1 - k) (elems a)))))"
  using s k dst
proof (induction k arbitrary: dst off s)
  case (Suc k)
  let ?E = "unat (a_elt_size a)" and ?es = "elems a"
  have e: "elem_at a s = Inr (?es ! unat s)"
    by (rule elem_at_elems [OF wf Suc.prems(1)])
  have w: "length (?es ! unat s) = ?E"
    using rowsE [OF wf] Suc.prems(1) by (metis length_elems nth_mem)
  let ?dst = "take off dst @ ?es ! unat s @ drop (off + ?E) dst"
  have copy: "mem_copy dst off (a_ptr a) (relative_data a s) ?E = Inr ?dst"
    using e w Suc.prems(3) by (simp add: mem_copy_def elem_at_def mem_store_def)
  have rows: "rev (take (Suc k) (drop (unat s + 1 - Suc k) ?es)) =
      ?es ! unat s # rev (take k (drop (unat s - k) ?es))"
    using Suc.prems(1,2) by (simp add: take_Suc_conv_app_nth)
  show ?case
  proof (cases k)
    case 0
    then show ?thesis
      using copy rows Suc.prems(3) by simp
  next
    case (Suc k')
    then have "1 \<le> unat s"
      using Suc.prems(2) by simp
    then have s1: "unat (s - 1) = unat s - 1"
      by (simp add: unat_u64_sub)
    have "pull_loop ?dst (off + ?E) a (s - 1) k =
        Inr (take (off + ?E) ?dst @ concat (rev (take k (drop (unat (s - 1) + 1 - k) ?es))))"
      by (rule Suc.IH) (use Suc.prems s1 w in simp_all)
    then show ?thesis
      using copy rows s1 \<open>1 \<le> unat s\<close> Suc.prems(3) w by simp
  qed
qed simp

lemma array_pull_ok:
  fixes s e :: u64
  assumes wf: "array_wf a" and n: "unat (a_nmemb a) < 2 ^ 63"
    and abs: "\<bar>sint s\<bar> < int (unat (a_nmemb a))" "\<bar>sint e\<bar> < int (unat (a_nmemb a))"
  defines "i \<equiv> pull_index (unat (a_nmemb a)) s" and "j \<equiv> pull_index (unat (a_nmemb a)) e"
  defines "rows \<equiv> if i < j then take (Suc j - i) (drop i (elems a))
                  else rev (take (Suc i - j) (drop j (elems a)))"
  shows "if grants al sizeof_array_t \<and> grants al (of_nat (length rows) * a_elt_size a)
    then \<exists>b. array_pull al a s e = Inr (Ptr b) \<and> array_wf b \<and> elems b = rows \<and>
           a_elt_size b = a_elt_size a \<and> a_free b = a_free a \<and> a_settled b
    else array_pull al a s e = Inr Null"
proof -
  let ?E = "unat (a_elt_size a)" and ?n = "unat (a_nmemb a)"
  define s' where "s' = (if sint s < 0 then s + a_nmemb a else s)"
  define e' where "e' = (if sint e < 0 then e + a_nmemb a else e)"
  define e2 where "e2 = (if sint s' < sint e' then e' + 1 else e' - 1)"
  define m where "m = ABS (s' - e2)"
  have bounds: "unat s' = i" "unat e' = j" "i < ?n" "j < ?n"
    using pull_start [OF n abs(1)] pull_start [OF n abs(2)] by (simp_all add: s'_def e'_def i_def j_def)
  have signed: "sint s' = int i" "sint e' = int j"
    using bounds n by (simp_all add: sint_u64)
  have checks: "\<not> a_nmemb a \<le> ABS s" "\<not> a_nmemb a \<le> ABS e"
    using abs unat_ABS [of s] unat_ABS [of e] by (unfold word_le_nat_alt) linarith+
  have e2: "sint e2 = (if i < j then int j + 1 else int j - 1)"
  proof (cases "i < j")
    case True
    then have "e2 = e' + 1" "unat (e' + 1) = j + 1"
      using signed bounds n by (simp_all add: e2_def unat_u64_add)
    then show ?thesis
      using True bounds n by (simp add: sint_u64)
  next
    case False
    then have "e2 = e' - 1" "sint (1 :: u64) = 1"
      using signed by (simp_all add: e2_def)
    then show ?thesis
      using False signed bounds n by (simp add: sint_u64_diff)
  qed
  have diff: "sint (s' - e2) = int i - sint e2"
    using signed e2 bounds n by (subst sint_u64_diff) simp_all
  have mm: "unat m = (if i < j then Suc j - i else Suc i - j)"
    using unat_ABS [of "s' - e2"] by (auto simp: m_def diff e2 simp del: of_nat_unat)
  have down: "\<not> i < j \<Longrightarrow> unat (s' - e2) = Suc i - j"
    using unat_of_sint [of "s' - e2"] by (simp add: diff e2 del: of_nat_unat)
  have len: "length rows = unat m"
    using bounds by (simp add: rows_def mm)
  then have mw: "of_nat (length rows) = m"
    by (simp only: u64_of_nat_unat)
  have bytes: "unat (m * a_elt_size a) = length rows * ?E"
  proof -
    have "length rows * ?E \<le> ?n * ?E"
      using bounds by (intro mult_le_mono1) (auto simp: rows_def)
    also have "\<dots> < 2 ^ 64"
      using wf unat_u64_lt [of "a_cap a"] by (simp add: array_wf_def)
    finally show ?thesis
      by (simp add: unat_u64_mult len)
  qed
  have w: "\<forall>e \<in> set rows. length e = ?E"
    using rowsE [OF wf] by (auto simp: rows_def dest!: in_set_takeD in_set_dropD)
  have off: "relative_data a s' = i * ?E"
    using array_wf_offset(1) [OF wf, of s'] bounds by simp
  have fill: "(if i < j then mem_copy blk 0 (a_ptr a) (relative_data a s') (unat (m * a_elt_size a))
      else pull_loop blk 0 a s' (unat (s' - e2))) = Inr (concat rows)"
    if blk: "length blk = unat (m * a_elt_size a)" for blk
  proof (cases "i < j")
    case True
    have "mem_load (a_ptr a) (i * ?E) ((Suc j - i) * ?E) =
        Inr (concat (take (Suc j - i) (drop i (elems a))))"
      by (rule elems_slice_bytes [OF wf]) (use bounds True in simp)
    moreover have "length rows = Suc j - i"
      using True by (simp add: len mm)
    ultimately show ?thesis
      using True mem_copy_whole [of "a_ptr a" "i * ?E" "(Suc j - i) * ?E"] blk bytes
      by (simp add: off rows_def)
  next
    case False
    have "length rows = Suc i - j"
      using False by (simp add: len mm)
    then have "pull_loop blk 0 a s' (Suc i - j) =
        Inr (concat (rev (take (Suc i - j) (drop (unat s' + 1 - (Suc i - j)) (elems a)))))"
      using pull_loop_elems [OF wf, of s' "Suc i - j" blk 0] bounds blk bytes by simp
    then show ?thesis
      using False bounds by (simp add: down rows_def)
  qed
  have dir: "sint s' < sint e2 \<longleftrightarrow> i < j"
    using bounds by (auto simp: signed e2)
  have run: "array_pull al a s e = (case malloc al (m * a_elt_size a) of
      None \<Rightarrow> Inr Null
    | Some blk \<Rightarrow> Inr (Ptr (zeroed_array\<lparr>a_elt_size := a_elt_size a, a_free := a_free a,
         a_cap := m * a_elt_size a, a_nmemb := m, a_settled := True, a_is_own_buffer := True,
         a_ptr := concat rows\<rparr>)))" if "grants al sizeof_array_t"
  proof (cases "malloc al (m * a_elt_size a)")
    case (Some blk)
    have "length blk = unat (m * a_elt_size a)"
      using Some by (rule libc.alloc_length)
    then show ?thesis
      using checks Some that fill [of blk] dir
      unfolding array_pull_def Let_def s'_def [symmetric] e'_def [symmetric] e2_def [symmetric]
        m_def [symmetric] array_init_def
      by (simp cong: if_cong)
  qed (use checks that in \<open>simp add: array_pull_def Let_def array_init_def
      s'_def [symmetric] e'_def [symmetric] e2_def [symmetric] m_def [symmetric]\<close>)
  show ?thesis
    unfolding mw
  proof -
    let ?b = "zeroed_array\<lparr>a_elt_size := a_elt_size a, a_free := a_free a,
         a_cap := m * a_elt_size a, a_nmemb := m, a_settled := True, a_is_own_buffer := True,
         a_ptr := concat rows\<rparr>"
    have "array_wf ?b" "elems ?b = rows"
      using rowsI [of ?b rows "[]"] w wf bytes length_concat_width [OF w]
      by (simp_all add: len array_wf_def)
    moreover have "array_pull al a s e = Inr Null" if "\<not> grants al sizeof_array_t"
      using that checks by (simp add: array_pull_def Let_def array_init_def)
    ultimately show "if grants al sizeof_array_t \<and> grants al (m * a_elt_size a)
      then \<exists>b. array_pull al a s e = Inr (Ptr b) \<and> array_wf b \<and> elems b = rows \<and>
           a_elt_size b = a_elt_size a \<and> a_free b = a_free a \<and> a_settled b
      else array_pull al a s e = Inr Null"
      using run by (cases "grants al sizeof_array_t") (auto simp: malloc_def)
  qed
qed
section \<open>Concatenation and duplication\<close>

definition concat_room :: "array \<Rightarrow> array \<Rightarrow> bool" where
  "concat_room a b \<longleftrightarrow>
     (2 * unat (a_nmemb a) + unat (a_nmemb b)) * unat (a_elt_size a) + 7 < 2 ^ 64"

lemma concat_room_sizes:
  assumes "array_wf a" and "concat_room a b"
  shows "unat (array_size a + array_size b) = unat (a_nmemb a) + unat (a_nmemb b)"
    and "addressable (a_nmemb a) (a_elt_size a) (array_size a + array_size b)"
proof -
  let ?k = "2 * unat (a_nmemb a) + unat (a_nmemb b)"
  have "1 \<le> unat (a_elt_size a)"
    using assms(1) by (simp add: array_wf_def)
  then have "?k \<le> ?k * unat (a_elt_size a)"
    by simp
  then have "?k < 2 ^ 64"
    using assms(2) unfolding concat_room_def by linarith
  then show n: "unat (array_size a + array_size b) = unat (a_nmemb a) + unat (a_nmemb b)"
    by (simp add: array_size_def unat_u64_add)
  show "addressable (a_nmemb a) (a_elt_size a) (array_size a + array_size b)"
    using assms(2) by (simp add: addressable_def concat_room_def n algebra_simps)
qed

text \<open>Once \<open>array_adjust\<close> has made room the call succeeds and appends the elements.\<close>

lemma array_concat_grown:
  assumes wf: "array_wf a" and wo: "array_wf b" and elt: "a_elt_size a = a_elt_size b"
    and room: "concat_room a b"
    and adj: "array_adjust al a (array_size a + array_size b) = Inr (a1, True)"
  shows "\<exists>a'. array_concat al a b = Inr (a', True) \<and> array_wf a' \<and>
    elems a' = elems a @ elems b \<and> a_elt_size a' = a_elt_size a \<and> a_free a' = a_free a"
proof -
  let ?E = "unat (a_elt_size a)" and ?n = "array_size a + array_size b"
  note n = concat_room_sizes(1) [OF wf room]
  obtain slack where ptr: "a_ptr a1 = concat (elems a) @ slack"
    and len: "length (a_ptr a1) = unat (a_cap a1)" and gap: "unat ?n * ?E \<le> length slack"
    and hdr: "a1 = a\<lparr>a_ptr := a_ptr a1, a_cap := a_cap a1\<rparr>"
    using array_adjust_grown [OF wf concat_room_sizes(2) [OF wf room] adj] by metis
  obtain R where other: "a_ptr b = concat (elems b) @ R"
    and wb: "\<forall>e \<in> set (elems b). length e = ?E"
    and lb: "length (concat (elems b)) = unat (a_nmemb b) * ?E"
    using rowsE [OF wo] elt by metis
  have wa: "\<forall>e \<in> set (elems a). length e = ?E"
    and la: "length (concat (elems a)) = unat (a_nmemb a) * ?E"
    using rowsE [OF wf] by metis+
  have "unat (a_nmemb b) * ?E \<le> length slack"
    using gap n by (simp add: algebra_simps)
  then obtain S1 S2 where slack: "slack = S1 @ S2" and S1: "length S1 = unat (a_nmemb b) * ?E"
    by (metis append_take_drop_id length_take min.absorb2)
  have hd: "a_nmemb a1 = a_nmemb a" "a_elt_size a1 = a_elt_size a" "a_free a1 = a_free a"
    by (subst hdr, simp)+
  have off: "relative_data a1 (a_nmemb a1) = length (concat (elems a))"
    using array_wf_offset(1) [OF wf, of "a_nmemb a"] la hd by (simp add: relative_data_def)
  have "unat (array_sizeof b) = unat (a_nmemb b) * ?E"
    using room elt
    by (simp add: array_sizeof_def unat_u64_mult algebra_simps concat_room_def)
  then have "mem_copy (a_ptr a1) (relative_data a1 (a_nmemb a1)) (a_ptr b) 0
      (unat (array_sizeof b)) = Inr (concat (elems a) @ concat (elems b) @ S2)"
    using mem_copy_append [of "length (concat (elems a))" "concat (elems a)" 0 "[]"
        "unat (a_nmemb b) * ?E" "concat (elems b)" S1 S2 R]
    by (simp add: off ptr slack S1 lb other)
  moreover define a' where "a' = a1\<lparr>a_ptr := concat (elems a) @ concat (elems b) @ S2,
      a_nmemb := a_nmemb a + a_nmemb b\<rparr>"
  ultimately have "array_concat al a b = Inr (a', True)"
    using elt adj hd by (simp add: array_concat_def array_size_def)
  moreover have "array_wf a'" "elems a' = elems a @ elems b"
    using rowsI [of a' "elems a @ elems b" S2] wf wa wb hd len n S1
    by (simp_all add: a'_def array_wf_def array_size_def ptr slack lb ball_Un)
  ultimately show ?thesis
    using hd by (simp add: a'_def)
qed

lemma array_concat_cases:
  assumes wf: "array_wf a" and wo: "array_wf b" and elt: "a_elt_size a = a_elt_size b"
    and room: "concat_room a b"
  shows "array_concat al a b = Inl Hardened_Check \<or> array_concat al a b = Inr (a, False) \<or>
    (\<exists>a'. array_concat al a b = Inr (a', True) \<and> array_wf a' \<and>
      elems a' = elems a @ elems b \<and> a_elt_size a' = a_elt_size a \<and> a_free a' = a_free a)"
proof (cases "array_adjust al a (array_size a + array_size b)")
  case (Inl f)
  then show ?thesis
    using array_adjust_faults [OF Inl] elt by (simp add: array_concat_def)
next
  case (Inr r)
  then obtain a1 ok where r: "array_adjust al a (array_size a + array_size b) = Inr (a1, ok)"
    by (cases r) simp
  show ?thesis
  proof (cases ok)
    case True
    then show ?thesis
      using array_concat_grown [OF wf wo elt room, of al a1] r by simp
  next
    case False
    then show ?thesis
      using array_adjust_refused [OF concat_room_sizes(2) [OF wf room]] r elt
      by (simp add: array_concat_def)
  qed
qed

lemma array_dup_cases:
  assumes wf: "array_wf a" and room: "unat (a_nmemb a) * unat (a_elt_size a) + 7 < 2 ^ 64"
  shows "array_dup al a \<in> {Inl Hardened_Check, Inl Use_After_Free, Inr (Null, [])} \<or>
    (\<exists>b. array_dup al a = Inr (Ptr b, []) \<and> array_wf b \<and> elems b = elems a \<and>
       a_elt_size b = a_elt_size a \<and> a_free b = a_free a)"
proof -
  let ?n = "a_nmemb a" and ?E = "a_elt_size a" and ?f = "a_free a"
  have E: "0 < unat ?E" "unat ?E < 2 ^ 62" "unat ?E * unat ?n < 2 ^ 64"
    using wf room by (simp_all add: array_wf_def algebra_simps)
  consider "array_create al ?E ?n ?f = Inr Null" | "array_create al ?E ?n ?f = Inr Dangling"
    | (live) b where "array_create al ?E ?n ?f = Inr (Ptr b)" "array_wf b" "elems b = []"
      "a_nmemb b = 0" "a_elt_size b = ?E" "a_free b = ?f"
    using array_create_cases [OF E, of al ?f] by (auto split: if_splits)
  then show ?thesis
  proof cases
    case live
    have "concat_room b a"
      using room live by (simp add: concat_room_def)
    moreover have "array_kill b = Inr ([], a_is_own_buffer b)"
      using array_clear_ok(1) [OF live(2)] live(3) by (simp add: array_kill_def)
    ultimately show ?thesis
      using array_concat_cases [OF live(2) wf, of al] live by (auto simp: array_dup_def)
  qed (simp_all add: array_dup_def)
qed

section \<open>Filtering\<close>

text \<open>The filter is a run of pushes on the array under construction.\<close>

lemma filter_loop_push_all:
  assumes wf: "array_wf a"
  shows "unat i + k = unat (a_nmemb a) \<Longrightarrow>
    filter_loop al a cb (Ptr b) i k =
    map_res (\<lambda>(b, ok). (Ptr b, ok)) (push_all (array_push al) b (filter cb (drop (unat i) (elems a))))"
proof (induction k arbitrary: i b)
  case 0
  then show ?case by simp
next
  case (Suc k)
  let ?e = "elems a ! unat i"
  have i: "unat i < unat (a_nmemb a)"
    using Suc.prems by simp
  have at: "array_at a i = Inr (Some (relative_data a i))"
    using i by (simp add: array_at_def word_le_nat_alt)
  have load: "mem_load (a_ptr a) (relative_data a i) (unat (a_elt_size a)) = Inr ?e"
    using elem_at_elems [OF wf i] by (simp add: elem_at_def)
  have rows: "drop (unat i) (elems a) = ?e # drop (Suc (unat i)) (elems a)"
    using i by (simp add: Cons_nth_drop_Suc)
  have next_i: "unat (i + 1) = Suc (unat i)"
    using i unat_u64_lt [of "a_nmemb a"] by (simp add: unat_u64_add)
  have ih: "filter_loop al a cb (Ptr b) (i + 1) k =
      map_res (\<lambda>(b, ok). (Ptr b, ok))
        (push_all (array_push al) b (filter cb (drop (Suc (unat i)) (elems a))))" for b
    using Suc.IH [of "i + 1" b] Suc.prems by (simp add: next_i)
  show ?case
  proof (cases "cb ?e")
    case True
    show ?thesis
      using True
      by (cases "array_push al b ?e") (auto simp: at load rows ih split: prod.splits)
  qed (simp add: at load rows ih)
qed

lemma filter_loop_dangling:
  assumes wf: "array_wf a"
  shows "unat i + k = unat (a_nmemb a) \<Longrightarrow>
    filter_loop al a cb Dangling i k =
    (if filter cb (drop (unat i) (elems a)) = [] then Inr (Dangling, True) else Inl Use_After_Free)"
proof (induction k arbitrary: i)
  case 0
  then show ?case by simp
next
  case (Suc k)
  let ?e = "elems a ! unat i"
  have i: "unat i < unat (a_nmemb a)"
    using Suc.prems by simp
  have load: "mem_load (a_ptr a) (relative_data a i) (unat (a_elt_size a)) = Inr ?e"
    using elem_at_elems [OF wf i] by (simp add: elem_at_def)
  have rows: "drop (unat i) (elems a) = ?e # drop (Suc (unat i)) (elems a)"
    using i by (simp add: Cons_nth_drop_Suc)
  have next_i: "unat (i + 1) = Suc (unat i)"
    using i unat_u64_lt [of "a_nmemb a"] by (simp add: unat_u64_add)
  show ?case
    using i Suc.IH [of "i + 1"] Suc.prems
    by (simp add: array_at_def word_le_nat_alt load rows next_i)
qed

lemma array_filter_cases:
  assumes wf: "array_wf a"
  shows "array_filter al a cb \<in> {Inl Hardened_Check, Inl Use_After_Free, Inr (Dangling, [])} \<or>
    (\<exists>d. array_filter al a cb = Inr (Null, d) \<and> set d \<subseteq> set (filter cb (elems a))) \<or>
    (\<exists>b. array_filter al a cb = Inr (Ptr b, []) \<and> array_wf b \<and>
       elems b = filter cb (elems a) \<and> a_elt_size b = a_elt_size a)"
proof -
  let ?E = "a_elt_size a" and ?f = "a_free a" and ?xs = "filter cb (elems a)"
  have w: "\<forall>x \<in> set ?xs. length x = unat ?E"
    using rowsE [OF wf] by (metis filter_is_subset subsetD)
  consider (bug) "array_create al ?E ARRAY_INITIAL_SIZE ?f = Inl Hardened_Check"
    | (none) "array_create al ?E ARRAY_INITIAL_SIZE ?f = Inr Null"
    | (dangling) "array_create al ?E ARRAY_INITIAL_SIZE ?f = Inr Dangling"
    | (live) b where "array_create al ?E ARRAY_INITIAL_SIZE ?f = Inr (Ptr b)" "array_wf b"
      "elems b = []" "a_elt_size b = ?E" "a_free b = ?f"
  proof (cases "unat ?E * unat ARRAY_INITIAL_SIZE < 2 ^ 64")
    case True
    then show thesis
      using that array_create_cases [of ?E ARRAY_INITIAL_SIZE al ?f] wf
      by (auto simp: array_wf_def split: if_splits)
  next
    case False
    then show thesis
      using that wf by (simp add: array_create_def SAFE_TO_MUL_iff array_wf_def)
  qed
  then show ?thesis
  proof cases
    case live
    have "\<forall>x \<in> set ?xs. length x = unat (a_elt_size b)"
      using w live by simp
    note run = bytes.push_all_items [OF live(2) this] bytes.push_all_faults [OF live(2) this]
    show ?thesis
    proof (cases "push_all (array_push al) b ?xs")
      case (Inl f)
      then show ?thesis
        using run(2) live filter_loop_push_all [OF wf, of 0 _ al cb b]
        by (simp add: array_filter_def array_size_def)
    next
      case (Inr r)
      obtain b' ok where r: "push_all (array_push al) b ?xs = Inr (b', ok)"
        using Inr by (cases r) simp
      have wf': "array_wf b'" and "\<exists>k \<le> length ?xs. elems b' = elems b @ take k ?xs \<and> (ok \<longleftrightarrow> k = length ?xs)"
        using run(1) [OF r] by simp_all
      then obtain k where k: "k \<le> length ?xs" "elems b' = take k ?xs" "ok \<longleftrightarrow> k = length ?xs"
        using live by auto
      have "(\<lambda>e. length e = unat (a_elt_size b')) = (\<lambda>e :: bytes. length e = unat (a_elt_size b))"
        using run(1) [OF r] by simp
      then have "unat (a_elt_size b') = unat (a_elt_size b)"
        by (metis (mono_tags) length_replicate)
      then have elt: "a_elt_size b' = ?E"
        using live by (simp add: word_unat_eq_iff)
      show ?thesis
      proof (cases ok)
        case True
        then show ?thesis
          using k wf' elt r live filter_loop_push_all [OF wf, of 0 _ al cb b]
          by (simp add: array_filter_def array_size_def)
      next
        case False
        have "array_kill b' = Inr (if a_free b' then rev (elems b') else [], a_is_own_buffer b')"
          using array_clear_ok(1) [OF wf'] by (simp add: array_kill_def)
        moreover have "set (take k ?xs) \<subseteq> set ?xs"
          by (rule set_take_subset)
        ultimately show ?thesis
          using False k r live filter_loop_push_all [OF wf, of 0 _ al cb b]
          by (auto simp: array_filter_def array_size_def)
      qed
    qed
  next
    case dangling
    then show ?thesis
      using filter_loop_dangling [OF wf, of 0 _ al cb] by (simp add: array_filter_def array_size_def)
  qed (simp_all add: array_filter_def)
qed
end
