(* ===== verification/Array_Spec.thy ===== *)
theory Array_Spec
  imports Array_Copy
begin

text \<open>
  What a program over one array may rely on, without a byte or a word of the code: a list of
  elements with a capacity, in natural numbers. Every element operation of \<^verbatim>\<open>array.c\<close> has exactly one
  outcome on it, the list it leaves, the capacity, the boolean it returns and the trap it
  may end in: an addition is refused when the array is settled, when doubling its capacity
  exceeds 2147483647 bytes or when the heap does not grant the new size, and never otherwise.
\<close>

section \<open>Operations\<close>

datatype array_op = Push bytes | Pushf bytes | Insert u64 bytes | Pop | Popf | Evict u64 | Wipe u64 u64
  | Clear | Swap_Elems u64 u64 | Settle | Unsettle | Slimcheck
  | Inject u64 "bytes list" | Append "bytes list" | Concat array | Tipex u64 "bytes list"

section \<open>Growth\<close>

text \<open>
  Room for \<open>n\<close> more elements: less than the capacity is needed, or the block is resized to twice
  its capacity, at least 64 bytes, or to the need rounded up to 8 bytes where that is more.
\<close>

definition grow_spec :: "allocator \<Rightarrow> 'e seq \<Rightarrow> nat \<Rightarrow> ('e seq \<times> bool) res" where
  "grow_spec al s n =
    (let cap = unat (s_cap s);
         count = length (s_items s) + n;
         need = count * unat (s_elt_size s);
         doubled = max 64 (2 * cap);
         new = (if doubled < need then (need + 7) div 8 * 8 else doubled) in
     if 2 ^ 64 \<le> 2 * cap \<or> 2 ^ 64 \<le> count \<or> 2 ^ 64 \<le> need then Inl Hardened_Check
     else if need < cap then Inr (s, True)
     else if s_settled s \<or> 2147483647 < 2 * cap \<or> \<not> grants al (of_nat new) then Inr (s, False)
     else Inr (s\<lparr>s_cap := of_nat new\<rparr>, True))"

definition add_spec :: "allocator \<Rightarrow> 'e seq \<Rightarrow> nat \<Rightarrow> nat \<Rightarrow> 'e list \<Rightarrow> ('e seq \<times> bool) res" where
  "add_spec al s room p xs =
    (if length (s_items s) < p then Inl Hardened_Check
     else map_res (\<lambda>(s, ok).
         (if ok then s\<lparr>s_items := take p (s_items s) @ xs @ drop p (s_items s)\<rparr> else s, ok))
       (grow_spec al s room))"

definition slim_spec :: "allocator \<Rightarrow> 'e seq \<Rightarrow> 'e seq \<times> bool" where
  "slim_spec al s =
    (let used = length (s_items s) * unat (s_elt_size s) in
     if s_settled s then (s, False)
     else if unat (s_cap s) div 2 \<le> used then (s, True)
     else if grants al (of_nat used) then (s\<lparr>s_cap := of_nat used\<rparr>, True)
     else (s, False))"

section \<open>One outcome per operation\<close>

text \<open>
  \<open>own\<close>: the array owns its block. A call that returns nothing counts as \<open>True\<close>. A concatenation
  asks for room for both arrays on top of what is stored; the exchange of a position with
  itself leaves zeros.
\<close>

fun op_spec :: "allocator \<Rightarrow> bool \<Rightarrow> array_op \<Rightarrow> bytes seq \<Rightarrow> (bytes seq \<times> bool) res" where
  "op_spec al own (Push e) s = add_spec al s 1 (length (s_items s)) [e]"
| "op_spec al own (Pushf e) s = add_spec al s 1 0 [e]"
| "op_spec al own (Insert p e) s = add_spec al s 1 (unat p) [e]"
| "op_spec al own (Inject p es) s = add_spec al s (length es) (unat p) es"
| "op_spec al own (Append es) s = add_spec al s (length es) (length (s_items s)) es"
| "op_spec al own (Concat other) s =
     (if s_elt_size s \<noteq> a_elt_size other then Inl Hardened_Check
      else add_spec al s (length (s_items s) + length (elems other)) (length (s_items s)) (elems other))"
| "op_spec al own Pop s =
     (if s_items s = [] then Inl Hardened_Check else Inr (s\<lparr>s_items := butlast (s_items s)\<rparr>, True))"
| "op_spec al own Popf s =
     (if s_items s = [] then Inl Hardened_Check else Inr (s\<lparr>s_items := tl (s_items s)\<rparr>, True))"
| "op_spec al own (Evict p) s =
     (if length (s_items s) \<le> unat p then Inl Hardened_Check
      else Inr (s\<lparr>s_items := take (unat p) (s_items s) @ drop (Suc (unat p)) (s_items s)\<rparr>, True))"
| "op_spec al own (Wipe i j) s =
     (if unat j < unat i then Inl Hardened_Check
      else Inr (s\<lparr>s_items := take (unat i) (s_items s) @ drop (unat j) (s_items s)\<rparr>, True))"
| "op_spec al own Clear s = Inr (s\<lparr>s_items := []\<rparr>, True)"
| "op_spec al own (Swap_Elems i j) s =
     (if length (s_items s) \<le> unat i \<or> length (s_items s) \<le> unat j then Inl Hardened_Check
      else Inr (s\<lparr>s_items :=
        (if i = j then (s_items s)[unat i := replicate (unat (s_elt_size s)) 0]
         else (s_items s)[unat i := s_items s ! unat j, unat j := s_items s ! unat i])\<rparr>, True))"
| "op_spec al own (Tipex p es) s =
     Inr (s\<lparr>s_items := take (unat p) (s_items s) @ es @ drop (unat p + length es) (s_items s)\<rparr>, True)"
| "op_spec al own Settle s = Inr (s\<lparr>s_settled := True\<rparr>, True)"
| "op_spec al own Unsettle s = (if own then Inr (s\<lparr>s_settled := False\<rparr>, True) else Inl Hardened_Check)"
| "op_spec al own Slimcheck s = Inr (slim_spec al s)"

text \<open>A program: the list it leaves and the boolean of every call, or the trap it ends in.\<close>

fun ops_spec :: "allocator \<Rightarrow> bool \<Rightarrow> array_op list \<Rightarrow> bytes seq \<Rightarrow> (bytes seq \<times> bool list) res" where
  "ops_spec al own [] s = Inr (s, [])"
| "ops_spec al own (op # ops) s =
     bind_res (op_spec al own op s) (\<lambda>(t, ok).
       map_res (\<lambda>(u, oks). (u, ok # oks)) (ops_spec al own ops t))"

section \<open>The arithmetic of the code implements it\<close>

text \<open>\<open>array_adjust\<close> computes with wrapping words what \<open>grow_spec\<close> says with natural numbers.\<close>

lemma seq_adjust_grow:
  assumes len: "length (s_items s) < 2 ^ 64" and n: "n < 2 ^ 64"
    and room: "\<And>g. adjust_plan (s_nmemb s) (s_cap s) (s_elt_size s) (s_settled s) (of_nat n) = Inr g \<Longrightarrow>
      addressable (s_nmemb s) (s_elt_size s) (of_nat n)"
  shows "seq_adjust al s (of_nat n) = grow_spec al s n"
proof (cases "adjust_plan (s_nmemb s) (s_cap s) (s_elt_size s) (s_settled s) (of_nat n)")
  case (Inl f)
  have u: "unat (s_nmemb s) = length (s_items s)" "unat (of_nat n :: u64) = n"
    using len n by (simp_all add: unat_u64_of_nat)
  have "2 ^ 64 \<le> 2 * unat (s_cap s) \<or> 2 ^ 64 \<le> length (s_items s) + n \<or>
      2 ^ 64 \<le> (length (s_items s) + n) * unat (s_elt_size s)"
  proof (rule ccontr)
    assume no: "\<not> ?thesis"
    have "unat (s_nmemb s + of_nat n) = length (s_items s) + n"
      using no by (simp add: unat_u64_add u del: of_nat_add)
    then show False
      using Inl no unfolding adjust_plan_def Let_def safe_iffs
      by (simp add: u mult.commute split: if_splits)
  qed
  then show ?thesis
    using Inl adjust_plan_faults [OF Inl] by (auto simp: seq_adjust_def grow_spec_def Let_def)
next
  case (Inr g)
  let ?need = "(length (s_items s) + n) * unat (s_elt_size s)"
  let ?new = "if max 64 (2 * unat (s_cap s)) < ?need then (?need + 7) div 8 * 8 else max 64 (2 * unat (s_cap s))"
  have u: "unat (s_nmemb s) = length (s_items s)" "unat (of_nat n :: u64) = n"
    using len n by (simp_all add: unat_u64_of_nat)
  note checks = adjust_plan_checks [OF Inr, unfolded u]
  have bytes: "unat ((of_nat n + s_nmemb s) * s_elt_size s) = ?need"
    using adjust_plan_bytes [OF Inr] by (simp only: u)
  have small: "?need + 7 < 2 ^ 64"
    using room [OF Inr] by (simp add: addressable_def u)
  have twice: "unat (s_cap s * 2) = 2 * unat (s_cap s)"
    using checks(1) by (simp add: unat_u64_mult)
  have new: "(if (of_nat n + s_nmemb s) * s_elt_size s > c2
      then size_align ((of_nat n + s_nmemb s) * s_elt_size s) else c2) = of_nat ?new"
    if c2: "unat c2 = max 64 (2 * unat (s_cap s))" for c2
    using small by (intro word_unat_eq_iff [THEN iffD2])
      (simp add: word_less_nat_alt bytes c2 unat_size_align unat_u64_of_nat
        flip: c2 del: of_nat_mult of_nat_add of_nat_numeral)
  have doubled: "unat (if s_cap s * 2 < ARRAY_INITIAL_SIZE then ARRAY_INITIAL_SIZE else s_cap s * 2) =
      max 64 (2 * unat (s_cap s))"
    by (simp add: word_less_nat_alt ARRAY_INITIAL_SIZE_def twice)
  let ?limit = "2147483647 < 2 * unat (s_cap s)"
  have g: "g = (if ?need < unat (s_cap s) then Fits
      else if s_settled s \<or> ?limit then Refused else Grow (of_nat ?new))"
    using Inr unfolding adjust_plan_def Let_def new [OF doubled]
    by (auto simp: word_less_nat_alt bytes ARRAY_INITIAL_SIZE_def SIZE_TYPE_MAX_def twice
        split: if_splits)
  have resized: "resizes al (of_nat ?new) = grants al (of_nat ?new)" if "g = Grow (of_nat ?new)"
    using adjust_plan_Grow(3) [OF Inr [unfolded that] room [OF Inr]] by (simp only: resizes_def) simp
  have traps: "\<not> (2 ^ 64 \<le> 2 * unat (s_cap s) \<or> 2 ^ 64 \<le> length (s_items s) + n \<or> 2 ^ 64 \<le> ?need)"
    using checks by (simp add: not_le mult.commute)
  have "seq_adjust al s (of_nat n) = Inr (apply_growth al s g)"
    by (simp only: seq_adjust_def Inr map_res_simps)
  also have "\<dots> = grow_spec al s n"
  proof (cases "?need < unat (s_cap s) \<or> s_settled s \<or> ?limit")
    case True
    then show ?thesis
      unfolding grow_spec_def Let_def if_not_P [OF traps] by (subst g) auto
  next
    case False
    then have no: "\<not> ?need < unat (s_cap s)" "\<not> s_settled s" "\<not> ?limit"
      by blast+
    then have grow: "g = Grow (of_nat ?new)"
      using g by (simp only: if_False simp_thms)
    show ?thesis
      unfolding grow_spec_def Let_def if_not_P [OF traps] grow
      by (cases "grants al (of_nat ?new)")
        (simp_all only: apply_growth.simps resized [OF grow] no if_False if_True simp_thms)
  qed
  finally show ?thesis .
qed

end
