(* ===== verification/Array_Run.thy ===== *)
theory Array_Run
  imports Array_Spec
begin

text \<open>
  Programs over one array: every sequence of the element operations of \<^verbatim>\<open>array.c\<close>, each
  call guarded only by what its prototype asks of the caller, keeps the invariant, never
  leaves the block, and has exactly the outcome that \<open>ops_spec\<close> of theory \<open>Array_Spec\<close> states.
\<close>

section \<open>The calls of a program\<close>

text \<open>One call: the array it leaves and the boolean it returns, \<open>True\<close> where it returns nothing.\<close>

definition returns_nothing :: "array \<Rightarrow> array \<times> bool" where
  "returns_nothing a = (a, True)"

definition apply_op :: "allocator \<Rightarrow> array_op \<Rightarrow> array \<Rightarrow> (array \<times> bool) res" where
  "apply_op al op a = (case op of
      Push e \<Rightarrow> array_push al a e
    | Pushf e \<Rightarrow> array_pushf al a e
    | Insert p e \<Rightarrow> array_insert al a p e
    | Pop \<Rightarrow> map_res (returns_nothing \<circ> fst) (array_pop a False)
    | Popf \<Rightarrow> map_res (returns_nothing \<circ> fst) (array_popf a False)
    | Evict p \<Rightarrow> map_res (returns_nothing \<circ> fst) (array_evict a p)
    | Wipe s e \<Rightarrow> map_res (returns_nothing \<circ> fst) (array_wipe a s e)
    | Clear \<Rightarrow> map_res (returns_nothing \<circ> fst) (array_clear a)
    | Swap_Elems i j \<Rightarrow> map_res returns_nothing (array_swap_elems a i j)
    | Settle \<Rightarrow> Inr (returns_nothing (array_settle a))
    | Unsettle \<Rightarrow> map_res returns_nothing (array_unsettle a)
    | Slimcheck \<Rightarrow> Inr (array_slimcheck al a)
    | Inject p es \<Rightarrow> array_inject al a p (concat es) (of_nat (length es))
    | Append es \<Rightarrow> array_append al a (concat es) (of_nat (length es))
    | Concat other \<Rightarrow> array_concat al a other
    | Tipex p es \<Rightarrow> map_res returns_nothing
        (array_tipex a (of_nat (relative_data a p)) (concat es) (of_nat (length es) * a_elt_size a)))"

definition elements_for :: "array \<Rightarrow> bytes list \<Rightarrow> bool" where
  "elements_for a es \<longleftrightarrow> list_all (\<lambda>e. length e = unat (a_elt_size a)) es \<and> length es < 2 ^ 64 \<and>
     addressable (a_nmemb a) (a_elt_size a) (of_nat (length es))"

text \<open>
  What the caller owes and no \<^verbatim>\<open>notify_bug_on\<close> checks: elements of the array's width, several at a
  time only when the size of the whole does not wrap, a range of \<open>array_wipe\<close> or \<open>array_tipex\<close>
  that ends inside the array, and no \<open>array_slimcheck\<close> of an empty array where
  \<^verbatim>\<open>realloc(p, 0)\<close> releases the block.
\<close>

fun op_pre :: "allocator \<Rightarrow> array_op \<Rightarrow> array \<Rightarrow> bool" where
  "op_pre al (Push e) a \<longleftrightarrow> length e = unat (a_elt_size a)"
| "op_pre al (Pushf e) a \<longleftrightarrow> length e = unat (a_elt_size a)"
| "op_pre al (Insert p e) a \<longleftrightarrow> length e = unat (a_elt_size a)"
| "op_pre al (Wipe s e) a \<longleftrightarrow> unat e \<le> unat (a_nmemb a)"
| "op_pre al Slimcheck a \<longleftrightarrow> a_nmemb a \<noteq> 0 \<or> \<not> zero_frees al"
| "op_pre al (Inject p es) a \<longleftrightarrow> elements_for a es"
| "op_pre al (Append es) a \<longleftrightarrow> elements_for a es"
| "op_pre al (Concat other) a \<longleftrightarrow> array_wf other \<and> concat_room a other"
| "op_pre al (Tipex p es) a \<longleftrightarrow>
     list_all (\<lambda>e. length e = unat (a_elt_size a)) es \<and> unat p + length es \<le> unat (a_nmemb a)"
| "op_pre al _ a \<longleftrightarrow> True"

section \<open>One call\<close>

text \<open>
  What every call guarantees from a well-formed array: the outcome of the specification, and
  the invariant; a trap is a check of the hardened runtime.
\<close>

definition op_sound :: "(bytes seq \<times> bool) res \<Rightarrow> array \<Rightarrow> (array \<times> bool) res \<Rightarrow> bool" where
  "op_sound spec a r \<longleftrightarrow> map_res (\<lambda>(b, ok). (abs_array b, ok)) r = spec \<and>
     (case r of
        Inl f \<Rightarrow> f = Hardened_Check
      | Inr (b, ok) \<Rightarrow> array_wf b \<and> a_is_own_buffer b = a_is_own_buffer a)"

lemma op_sound_simps [simp]:
  "op_sound spec a (Inl f) \<longleftrightarrow> spec = Inl Hardened_Check \<and> f = Hardened_Check"
  "op_sound spec a (Inr (b, ok)) \<longleftrightarrow> spec = Inr (abs_array b, ok) \<and> array_wf b \<and>
     a_is_own_buffer b = a_is_own_buffer a"
  by (auto simp: op_sound_def)

lemma abs_array_sel [simp]:
  "s_items (abs_array a) = elems a" "s_cap (abs_array a) = a_cap a"
  "s_elt_size (abs_array a) = a_elt_size a" "s_settled (abs_array a) = a_settled a"
  by (simp_all add: abs_array_def)

text \<open>A call that touches neither the capacity nor the flags is described by its elements.\<close>

lemma abs_array_items:
  assumes "a_cap b = a_cap a" and "a_elt_size b = a_elt_size a" and "a_settled b = a_settled a"
    and "elems b = xs"
  shows "abs_array b = (abs_array a)\<lparr>s_items := xs\<rparr>"
  using assms by (simp add: abs_array_def)

lemma elements_forD:
  assumes "elements_for a es"
  shows "\<forall>x \<in> set es. length x = unat (a_elt_size a)" and "length es = unat (of_nat (length es) :: u64)"
    and "addressable (a_nmemb a) (a_elt_size a) (of_nat (length es))"
  using assms by (simp_all add: elements_for_def list_all_iff unat_of_nat take_bit_nat_eq_self)

lemma array_inject_beyond: "unat (a_nmemb a) < unat p \<Longrightarrow> array_inject al a p src n = Inl Hardened_Check"
  by (simp add: array_inject_def word_less_nat_alt)

lemma op_soundI:
  assumes "map_res (\<lambda>(b, ok). (abs_array b, ok)) r = spec"
    and "\<And>f. spec = Inl f \<Longrightarrow> f = Hardened_Check"
    and "\<And>b ok. r = Inr (b, ok) \<Longrightarrow> array_wf b \<and> a_is_own_buffer b = a_is_own_buffer a"
  shows "op_sound spec a r"
  using assms by (cases r) (auto simp: op_sound_def)

lemma grow_spec_faults: "grow_spec al s n = Inl f \<Longrightarrow> f = Hardened_Check"
  by (auto simp: grow_spec_def Let_def split: if_splits)

lemma add_spec_faults: "add_spec al s n p xs = Inl f \<Longrightarrow> f = Hardened_Check"
  by (auto simp: add_spec_def map_res_Inl_iff dest: grow_spec_faults split: if_splits)

lemma array_inject_own: "array_inject al a p src n = Inr (b, ok) \<Longrightarrow> a_is_own_buffer b = a_is_own_buffer a"
  by (auto simp: array_inject_def bind_res_Inr_iff dest: array_adjust_hdr(5) split: if_splits)

lemma array_insert_own: "array_insert al a p e = Inr (b, ok) \<Longrightarrow> a_is_own_buffer b = a_is_own_buffer a"
  unfolding array_insert_inject by (rule array_inject_own)

lemma length_elems_bound: "length (elems a) < 2 ^ 64"
  using unat_u64_lt [of "a_nmemb a"] by simp

lemma inject_sound:
  assumes wf: "array_wf a" and es: "elements_for a es"
  shows "op_sound (add_spec al (abs_array a) (length es) (unat p) es) a
    (array_inject al a p (concat es) (of_nat (length es)))"
proof (cases "unat p \<le> unat (a_nmemb a)")
  case True
  have len: "\<forall>x \<in> set es. length x = unat (a_elt_size a)" "length es = unat (of_nat (length es) :: u64)"
    "addressable (a_nmemb a) (a_elt_size a) (of_nat (length es))"
    using elements_forD [OF es] .
  have "seq_adjust al (abs_array a) (of_nat (length es)) = grow_spec al (abs_array a) (length es)"
    using seq_adjust_grow [of "abs_array a" "length es" al] len(3) es length_elems_bound [of a]
    by (simp add: elements_for_def)
  then have "seq_inject al (abs_array a) (unat p) es = add_spec al (abs_array a) (length es) (unat p) es"
    using True by (simp add: seq_inject_def add_spec_def)
  then have run: "map_res (\<lambda>(b, ok). (abs_array b, ok)) (array_inject al a p (concat es) (of_nat (length es))) =
      add_spec al (abs_array a) (length es) (unat p) es"
    using array_inject_refines [OF wf len(3) True len(1,2), of al] by simp
  show ?thesis
    by (rule op_soundI [OF run])
      (auto dest: add_spec_faults array_inject_wf(1) [OF wf len(3) True len(1,2)] array_inject_own)
qed (simp add: array_inject_beyond add_spec_def)

lemma append_sound:
  assumes wf: "array_wf a" and es: "elements_for a es"
  shows "op_sound (add_spec al (abs_array a) (length es) (length (elems a)) es) a
    (array_append al a (concat es) (of_nat (length es)))"
  using inject_sound [OF wf es, of al "a_nmemb a"] es
  by (simp add: array_append_inject [OF wf] elements_for_def)

text \<open>One element always has room in the size computation, or is caught.\<close>

lemma insert_sound:
  assumes wf: "array_wf a" and e: "length e = unat (a_elt_size a)"
  shows "op_sound (add_spec al (abs_array a) 1 (unat p) [e]) a (array_insert al a p e)"
proof (cases "unat p \<le> unat (a_nmemb a)")
  case True
  have "seq_adjust al (abs_array a) (of_nat 1) = grow_spec al (abs_array a) 1"
    by (rule seq_adjust_grow)
      (use wf length_elems_bound [of a] addressable_1 in \<open>auto simp: array_wf_def\<close>)
  then have "seq_inject al (abs_array a) (unat p) [e] = add_spec al (abs_array a) 1 (unat p) [e]"
    using True by (simp add: seq_inject_def add_spec_def)
  then have run: "map_res (\<lambda>(b, ok). (abs_array b, ok)) (array_insert al a p e) =
      add_spec al (abs_array a) 1 (unat p) [e]"
    using array_insert_refines [OF wf True e, of al] by simp
  show ?thesis
    by (rule op_soundI [OF run])
      (auto dest: add_spec_faults array_insert_wf(1) [OF wf True e] array_insert_own)
qed (simp add: array_insert_def add_spec_def word_le_nat_alt)

text \<open>Concatenation checks the widths, makes room, and copies the other block's elements.\<close>

lemma concat_run:
  assumes wf: "array_wf a" and wo: "array_wf b" and elt: "a_elt_size a = a_elt_size b"
    and room: "concat_room a b"
  shows "map_res (\<lambda>(c, ok). (abs_array c, ok)) (array_concat al a b) =
    map_res (\<lambda>(s, ok). (if ok then s\<lparr>s_items := elems a @ elems b\<rparr> else s, ok))
      (seq_adjust al (abs_array a) (array_size a + array_size b))"
proof (cases "array_adjust al a (array_size a + array_size b)")
  case (Inl f)
  then show ?thesis
    using elt by (simp add: array_concat_def flip: array_adjust_refines [OF wf concat_room_sizes(2) [OF wf room]])
next
  case (Inr r)
  obtain a1 ok where r: "r = (a1, ok)"
    by (cases r)
  have adj: "seq_adjust al (abs_array a) (array_size a + array_size b) = Inr (abs_array a1, ok)"
    using array_adjust_refines [OF wf concat_room_sizes(2) [OF wf room], of al] Inr r by simp
  show ?thesis
  proof (cases ok)
    case True
    have "array_adjust al a (array_size a + array_size b) = Inr (a1, True)"
      using Inr r True by simp
    then obtain c where c: "array_concat al a b = Inr (c, True)" "elems c = elems a @ elems b"
      using array_concat_grown [OF wf wo elt room] by blast
    then have "a_cap c = a_cap a1 \<and> a_elt_size c = a_elt_size a1 \<and> a_settled c = a_settled a1"
      using Inr r elt True by (auto simp: array_concat_def bind_res_Inr_iff)
    then show ?thesis
      using c adj True by (simp add: abs_array_items [of c a1])
  next
    case False
    then show ?thesis
      using Inr r elt adj by (simp add: array_concat_def)
  qed
qed

lemma concat_sound:
  assumes wf: "array_wf a" and wo: "array_wf b" and room: "concat_room a b"
  shows "op_sound (op_spec al own (Concat b) (abs_array a)) a (array_concat al a b)"
proof (cases "a_elt_size a = a_elt_size b")
  case True
  let ?n = "length (elems a) + length (elems b)"
  have n: "of_nat ?n = array_size a + array_size b" "?n < 2 ^ 64"
    using concat_room_sizes(1) [OF wf room] unat_u64_lt [of "array_size a + array_size b"]
    by (simp_all add: array_size_def)
  have "seq_adjust al (abs_array a) (of_nat ?n) = grow_spec al (abs_array a) ?n"
    by (rule seq_adjust_grow)
      (use concat_room_sizes(2) [OF wf room] length_elems_bound [of a] n in simp_all)
  moreover have "s_items t = elems a" if "grow_spec al (abs_array a) ?n = Inr (t, k)" for t k
    using that by (auto simp: grow_spec_def Let_def split: if_splits)
  ultimately have "map_res (\<lambda>(c, ok). (abs_array c, ok)) (array_concat al a b) =
      add_spec al (abs_array a) ?n (length (elems a)) (elems b)"
    unfolding concat_run [OF wf wo True room] n(1) [symmetric]
    by (cases "grow_spec al (abs_array a) ?n") (auto simp: add_spec_def)
  then have run: "map_res (\<lambda>(c, ok). (abs_array c, ok)) (array_concat al a b) =
      op_spec al own (Concat b) (abs_array a)"
    using True by simp
  show ?thesis
  proof (rule op_soundI [OF run])
    show "array_wf c \<and> a_is_own_buffer c = a_is_own_buffer a" if c: "array_concat al a b = Inr (c, ok)" for c ok
      using array_concat_cases [OF wf wo True room, of al] wf c
      by (auto simp: array_concat_def bind_res_Inr_iff dest: array_adjust_hdr(5) split: if_splits)
  qed (use True in \<open>auto dest: add_spec_faults\<close>)
qed (simp add: array_concat_def)

text \<open>Elements are overwritten where they lie: the block keeps its length and its other bytes.\<close>

lemma tipex_sound:
  assumes wf: "array_wf a" and es: "list_all (\<lambda>e. length e = unat (a_elt_size a)) es"
    and in_range: "unat p + length es \<le> unat (a_nmemb a)"
  shows "op_sound (op_spec al own (Tipex p es) (abs_array a)) a (apply_op al (Tipex p es) a)"
proof -
  let ?E = "unat (a_elt_size a)" and ?P = "take (unat p) (elems a)"
  let ?O = "take (length es) (drop (unat p) (elems a))" and ?R = "drop (unat p + length es) (elems a)"
  obtain slack where ptr: "a_ptr a = concat (elems a) @ slack"
    and width: "\<forall>e \<in> set (elems a). length e = ?E"
    by (rule rowsE [OF wf])
  have es': "\<forall>e \<in> set es. length e = ?E"
    using es by (simp add: list_all_iff)
  have split: "elems a = ?P @ ?O @ ?R"
    by (metis append_take_drop_id drop_drop add.commute)
  have fits: "(unat p + length es) * ?E \<le> unat (a_cap a)"
    using wf mult_le_mono1 [OF in_range, of ?E] unfolding array_wf_def by linarith
  have P: "length (concat ?P) = unat p * ?E" "length (concat ?O) = length es * ?E"
    using in_range width by (subst length_concat_width [of _ ?E]; auto dest: in_set_takeD in_set_dropD)+
  have E: "0 < ?E"
    using wf by (simp add: array_wf_def)
  have small: "unat p * ?E < 2 ^ 64" "length es * ?E < 2 ^ 64" "length es < 2 ^ 64"
  proof -
    have "unat p * ?E + length es * ?E < 2 ^ 64"
      using fits unat_u64_lt [of "a_cap a"] by (simp add: add_mult_distrib)
    then show "unat p * ?E < 2 ^ 64" "length es * ?E < 2 ^ 64"
      by simp_all
    show "length es < 2 ^ 64"
      using in_range unat_u64_lt [of "a_nmemb a"] by linarith
  qed
  have off: "unat (of_nat (relative_data a p) :: u64) = length (concat ?P)"
    using small(1) P(1) unat_u64_mult [of "a_elt_size a" p] by (simp add: relative_data_def mult.commute)
  have n: "unat (of_nat (length es) * a_elt_size a) = length (concat es)"
    using small(2,3) length_concat_width [OF es']
    by (simp add: unat_u64_mult unat_of_nat take_bit_nat_eq_self)
  have "concat (elems a) = concat ?P @ concat ?O @ concat ?R"
    by (subst split) (simp only: concat_append)
  then have ptr3: "a_ptr a = concat ?P @ concat ?O @ concat ?R @ slack"
    unfolding ptr by simp
  have copied: "mem_copy (a_ptr a) (length (concat ?P)) (concat es) 0 (length (concat es)) =
      Inr (concat (?P @ es @ ?R) @ slack)"
    unfolding ptr3 concat_append append_assoc
    by (rule mem_copy_from_start) (use P(2) length_concat_width [OF es'] in simp_all)
  let ?a' = "a\<lparr>a_ptr := concat (?P @ es @ ?R) @ slack\<rparr>"
  have "array_tipex a (of_nat (relative_data a p)) (concat es) (of_nat (length es) * a_elt_size a) = Inr ?a'"
    unfolding array_tipex_def off n copied by simp
  moreover have rows: "a_ptr ?a' = concat (?P @ es @ ?R) @ slack"
    "\<forall>e \<in> set (?P @ es @ ?R). length e = unat (a_elt_size ?a')"
    "unat (a_nmemb ?a') = length (?P @ es @ ?R)" "length (a_ptr ?a') = unat (a_cap ?a')"
    "0 < unat (a_elt_size ?a')" "unat (a_elt_size ?a') < 2 ^ 62"
  proof -
    show "length (a_ptr ?a') = unat (a_cap ?a')"
      using mem_store_length [of "a_ptr a" _ "concat es"] wf copied
      by (simp add: mem_copy_def mem_load_all array_wf_def del: length_append length_concat)
    show "\<forall>e \<in> set (?P @ es @ ?R). length e = unat (a_elt_size ?a')"
      using width es' by (auto dest: in_set_takeD in_set_dropD)
  qed (use in_range wf in \<open>simp_all add: array_wf_def\<close>)
  ultimately show ?thesis
    using rowsI [OF rows] by (simp add: apply_op_def returns_nothing_def abs_array_def)
qed

lemma evict_sound:
  assumes wf: "array_wf a"
  shows "op_sound (op_spec al own (Evict p) (abs_array a)) a (apply_op al (Evict p) a)"
proof (cases "unat p < unat (a_nmemb a)")
  case True
  obtain ptr where "array_evict a p =
      Inr (a\<lparr>a_nmemb := a_nmemb a - 1, a_ptr := ptr\<rparr>, if a_free a then [elems a ! unat p] else [])"
    and "array_wf (a\<lparr>a_nmemb := a_nmemb a - 1, a_ptr := ptr\<rparr>)"
    and "elems (a\<lparr>a_nmemb := a_nmemb a - 1, a_ptr := ptr\<rparr>) =
      take (unat p) (elems a) @ drop (Suc (unat p)) (elems a)"
    using array_evict_ok [OF wf True] by blast
  then show ?thesis
    using True by (simp add: apply_op_def returns_nothing_def abs_array_def)
qed (simp add: apply_op_def array_evict_def word_le_nat_alt)

lemma elems_Nil_iff: "elems a = [] \<longleftrightarrow> a_nmemb a = 0"
  using length_elems [of a] by (metis length_0_conv unat_eq_0)

lemma pop_sound:
  assumes wf: "array_wf a"
  shows "op_sound (op_spec al own Pop (abs_array a)) a (apply_op al Pop a)"
proof (cases "a_nmemb a = 0")
  case False
  show ?thesis
    using array_pop_ok(1) [OF wf False, of False] array_pop_ok(2,3) [OF wf False] False
    by (simp add: apply_op_def returns_nothing_def elems_Nil_iff abs_array_def)
qed (simp add: apply_op_def array_pop_def elems_Nil_iff)

lemma popf_sound:
  assumes wf: "array_wf a"
  shows "op_sound (op_spec al own Popf (abs_array a)) a (apply_op al Popf a)"
proof (cases "a_nmemb a = 0")
  case False
  have "apply_op al Popf a = apply_op al (Evict 0) a"
    using False by (cases "array_evict a 0") (auto simp: apply_op_def array_popf_def split: prod.splits)
  moreover have "op_spec al own Popf (abs_array a) = op_spec al own (Evict 0) (abs_array a)"
    using False by (simp add: drop_Suc elems_Nil_iff unat_eq_0)
  ultimately show ?thesis
    using evict_sound [OF wf, where al = al and own = own and p = 0] by simp
qed (simp add: apply_op_def array_popf_def elems_Nil_iff)

lemma wipe_sound:
  assumes wf: "array_wf a" and e: "unat e \<le> unat (a_nmemb a)"
  shows "op_sound (op_spec al own (Wipe s e) (abs_array a)) a (apply_op al (Wipe s e) a)"
proof (cases "unat s \<le> unat e")
  case True
  obtain ptr where "array_wipe a s e =
      Inr (a\<lparr>a_ptr := ptr, a_nmemb := a_nmemb a - (e - s)\<rparr>,
        if a_free a then take (unat e - unat s) (elems a) else [])"
    and "array_wf (a\<lparr>a_ptr := ptr, a_nmemb := a_nmemb a - (e - s)\<rparr>)"
    and "elems (a\<lparr>a_ptr := ptr, a_nmemb := a_nmemb a - (e - s)\<rparr>) =
      take (unat s) (elems a) @ drop (unat e) (elems a)"
    using array_wipe_ok [OF wf True e] by blast
  then show ?thesis
    using True by (simp add: apply_op_def returns_nothing_def abs_array_def)
qed (simp add: apply_op_def array_wipe_def safe_iffs)

lemma swap_hdr:
  "array_swap_elems a i j = Inr b \<Longrightarrow> a_elt_size b = a_elt_size a \<and> a_cap b = a_cap a \<and>
     a_settled b = a_settled a \<and> a_is_own_buffer b = a_is_own_buffer a"
  by (auto simp: array_swap_elems_def map_res_Inr_iff split: if_splits)

lemma swap_sound:
  assumes wf: "array_wf a"
  shows "op_sound (op_spec al own (Swap_Elems i j) (abs_array a)) a (apply_op al (Swap_Elems i j) a)"
proof -
  consider "\<not> (unat i < unat (a_nmemb a) \<and> unat j < unat (a_nmemb a))"
    | (same) "unat i < unat (a_nmemb a)" "i = j"
    | (other) "unat i < unat (a_nmemb a)" "unat j < unat (a_nmemb a)" "i \<noteq> j"
    by blast
  then show ?thesis
  proof cases
    case same
    obtain b where "array_swap_elems a i i = Inr b" "array_wf b"
      "elems b = (elems a)[unat i := replicate (unat (a_elt_size a)) 0]"
      using array_swap_elems_self [OF wf same(1)] by blast
    then show ?thesis
      using same swap_hdr [of a i i b]
      by (simp add: apply_op_def returns_nothing_def abs_array_items [of b a])
  next
    case other
    obtain b where "array_swap_elems a i j = Inr b" "array_wf b"
      "elems b = (elems a)[unat i := elems a ! unat j, unat j := elems a ! unat i]"
      using array_swap_elems_ok [OF wf other] by blast
    then show ?thesis
      using other swap_hdr [of a i j b]
      by (simp add: apply_op_def returns_nothing_def abs_array_items [of b a])
  qed (auto simp: apply_op_def array_swap_elems_def word_le_nat_alt)
qed

lemma flags_sound:
  assumes "array_wf a"
  shows "array_wf (a\<lparr>a_settled := b\<rparr>)" and "abs_array (a\<lparr>a_settled := b\<rparr>) = (abs_array a)\<lparr>s_settled := b\<rparr>"
  using assms by (simp_all add: array_wf_def abs_array_def elems_def)

lemma slimcheck_sound:
  assumes wf: "array_wf a" and zero: "a_nmemb a \<noteq> 0 \<or> \<not> zero_frees al"
  shows "op_sound (op_spec al own Slimcheck (abs_array a)) a (apply_op al Slimcheck a)"
proof -
  obtain b ok where run: "array_slimcheck al a = (b, ok)"
    by (cases "array_slimcheck al a")
  note slim = array_slimcheck_ok [OF wf zero run]
  let ?used = "unat (a_nmemb a) * unat (a_elt_size a)"
  have "?used < 2 ^ 64"
    using wf unat_u64_lt [of "a_cap a"] unfolding array_wf_def by linarith
  then have used: "array_sizeof a = of_nat ?used" "unat (array_sizeof a) = ?used"
    by (simp_all add: array_sizeof_def unat_u64_mult)
  have half: "array_sizeof a < a_cap a div 2 \<longleftrightarrow> \<not> unat (a_cap a) div 2 \<le> ?used"
    by (simp only: word_less_nat_alt unat_div used(2) not_le) simp
  have "array_sizeof a \<noteq> 0 \<or> \<not> zero_frees al"
    using zero used wf unat_eq_0 [of "array_sizeof a"] unat_eq_0 [of "a_nmemb a"]
    by (auto simp: array_wf_def)
  then have moves: "realloc al (a_ptr a) (array_sizeof a) =
      (if grants al (array_sizeof a) then Realloc_Moved (take (unat (array_sizeof a)) (a_ptr a) @
         map (junk al) [length (a_ptr a)..<unat (array_sizeof a)]) else Realloc_Failed)"
    by (auto simp: realloc_def)
  have "(abs_array b, ok) = slim_spec al (abs_array a)"
    using run slim(2) half used(1) moves
    by (auto simp: array_slimcheck_def slim_spec_def Let_def abs_array_def split: if_splits)
  moreover have "a_is_own_buffer b = a_is_own_buffer a"
    using run by (auto simp: array_slimcheck_def Let_def split: if_splits realloc_result.splits)
  ultimately show ?thesis
    using slim(1) by (simp add: apply_op_def run)
qed

lemma apply_op_sound:
  assumes wf: "array_wf a" and pre: "op_pre al op a"
  shows "op_sound (op_spec al (a_is_own_buffer a) op (abs_array a)) a (apply_op al op a)"
proof (cases op)
  case (Push e)
  then show ?thesis
    using insert_sound [OF wf, of e al "a_nmemb a"] pre by (simp add: apply_op_def array_push_insert)
next
  case (Pushf e)
  then show ?thesis
    using insert_sound [OF wf, of e al 0] pre by (simp add: apply_op_def array_pushf_def)
next
  case (Insert p e)
  then show ?thesis
    using insert_sound [OF wf, of e al p] pre by (simp add: apply_op_def)
next
  case (Inject p es)
  then show ?thesis
    using inject_sound [OF wf, of es al p] pre by (simp add: apply_op_def)
next
  case (Append es)
  then show ?thesis
    using append_sound [OF wf, of es al] pre by (simp add: apply_op_def)
next
  case (Concat other)
  have "apply_op al (Concat other) a = array_concat al a other"
    by (simp add: apply_op_def)
  then show ?thesis
    using concat_sound [OF wf, of other al] pre unfolding Concat by (simp only: op_pre.simps)
next
  case (Wipe i j)
  show ?thesis
    unfolding Wipe by (rule wipe_sound [OF wf]) (use pre Wipe in simp)
next
  case (Tipex p es)
  show ?thesis
    unfolding Tipex by (rule tipex_sound [OF wf]) (use pre Tipex in simp_all)
next
  case Slimcheck
  show ?thesis
    unfolding Slimcheck by (rule slimcheck_sound [OF wf]) (use pre Slimcheck in simp)
next
  case Clear
  then show ?thesis
    using array_clear_ok [OF wf] by (simp add: apply_op_def returns_nothing_def abs_array_def)
next
  case Unsettle
  then show ?thesis
    using wf by (simp add: apply_op_def returns_nothing_def array_unsettle_def flags_sound)
next
  case Settle
  then show ?thesis
    using wf by (simp add: apply_op_def returns_nothing_def array_settle_def flags_sound)
qed (simp_all only: pop_sound [OF wf] popf_sound [OF wf] evict_sound [OF wf] swap_sound [OF wf])

section \<open>Sequences of calls\<close>

text \<open>A program: the array it leaves and the boolean of every call, or the trap it ends in.\<close>

fun run_ops :: "allocator \<Rightarrow> array_op list \<Rightarrow> array \<Rightarrow> (array \<times> bool list) res" where
  "run_ops al [] a = Inr (a, [])"
| "run_ops al (op # ops) a =
     bind_res (apply_op al op a) (\<lambda>(b, ok). map_res (\<lambda>(c, oks). (c, ok # oks)) (run_ops al ops b))"

text \<open>Every call is one its prototype allows in the state it finds.\<close>

fun ops_allowed :: "allocator \<Rightarrow> array_op list \<Rightarrow> array \<Rightarrow> bool" where
  "ops_allowed al [] a \<longleftrightarrow> True"
| "ops_allowed al (op # ops) a \<longleftrightarrow> op_pre al op a \<and>
     (case apply_op al op a of Inl f \<Rightarrow> True | Inr (b, ok) \<Rightarrow> ops_allowed al ops b)"

lemma run_ops_sound:
  assumes "array_wf a" and "ops_allowed al ops a"
  shows "map_res (\<lambda>(c, oks). (abs_array c, oks)) (run_ops al ops a) =
      ops_spec al (a_is_own_buffer a) ops (abs_array a)"
    and "run_ops al ops a = Inr (c, oks) \<Longrightarrow> array_wf c"
proof -
  have "map_res (\<lambda>(c, oks). (abs_array c, oks)) (run_ops al ops a) =
      ops_spec al (a_is_own_buffer a) ops (abs_array a) \<and>
      (\<forall>c oks. run_ops al ops a = Inr (c, oks) \<longrightarrow> array_wf c)"
    using assms
  proof (induction ops arbitrary: a)
    case (Cons op ops)
    have sound: "op_sound (op_spec al (a_is_own_buffer a) op (abs_array a)) a (apply_op al op a)"
      using apply_op_sound Cons.prems by simp
    show ?case
    proof (cases "apply_op al op a")
      case (Inl f)
      then show ?thesis
        using sound by simp
    next
      case (Inr r)
      then obtain b ok where r: "apply_op al op a = Inr (b, ok)"
        by (cases r) simp
      have b: "array_wf b" "a_is_own_buffer b = a_is_own_buffer a"
        "op_spec al (a_is_own_buffer a) op (abs_array a) = Inr (abs_array b, ok)"
        using sound r by simp_all
      have IH: "ops_spec al (a_is_own_buffer a) ops (abs_array b) =
          map_res (\<lambda>(c, oks). (abs_array c, oks)) (run_ops al ops b)"
        "\<forall>c oks. run_ops al ops b = Inr (c, oks) \<longrightarrow> array_wf c"
        using Cons.IH [OF b(1)] Cons.prems(2) r b(2) by simp_all
      show ?thesis
        using IH by (cases "run_ops al ops b") (auto simp: r b(3))
    qed
  qed simp
  then show "map_res (\<lambda>(c, oks). (abs_array c, oks)) (run_ops al ops a) =
      ops_spec al (a_is_own_buffer a) ops (abs_array a)"
    and "run_ops al ops a = Inr (c, oks) \<Longrightarrow> array_wf c"
    by blast+
qed

text \<open>The states such a program passes through.\<close>

inductive op_runs :: "allocator \<Rightarrow> array \<Rightarrow> array_op list \<Rightarrow> array \<Rightarrow> bool" for al where
  no_ops: "op_runs al a [] a"
| next_op: "op_pre al op a \<Longrightarrow> apply_op al op a = Inr (b, ok) \<Longrightarrow> op_runs al b ops c \<Longrightarrow>
    op_runs al a (op # ops) c"

inductive_cases op_runs_ConsE: "op_runs al a (op # ops) c"

lemma op_runs_iff: "op_runs al a ops c \<longleftrightarrow> ops_allowed al ops a \<and> (\<exists>oks. run_ops al ops a = Inr (c, oks))"
proof (induction ops arbitrary: a)
  case Nil
  show ?case
    by (auto intro: no_ops elim: op_runs.cases)
next
  case (Cons op ops)
  show ?case
    by (auto simp: Cons.IH bind_res_Inr_iff map_res_Inr_iff intro: next_op elim!: op_runs_ConsE)
qed

lemma op_runs_wf: "array_wf a \<Longrightarrow> op_runs al a ops c \<Longrightarrow> array_wf c"
  unfolding op_runs_iff by (blast intro: run_ops_sound(2))

end
