(* ===== verification/Array_Properties.thy ===== *)
theory Array_Properties
  imports Array_Run
begin

text \<open>
  The properties of the dynamic array of \<^verbatim>\<open>daemon/srcs/lib/array.c\<close>, each with an
  application to the sample array below.
\<close>

section \<open>Sample state of the witnesses\<close>

definition sample_allocator :: allocator where
  "sample_allocator = \<lparr>grants = (\<lambda>n. n < 4096), junk = (\<lambda>_. 170), zero_frees = True\<rparr>"

definition generous :: allocator where
  "generous = sample_allocator\<lparr>grants := \<lambda>_. True\<rparr>"

definition sample_array :: array where
  "sample_array = \<lparr>a_ptr = [1, 2, 3, 4, 5, 6, 0, 0], a_nmemb = 3, a_cap = 8, a_elt_size = 2,
     a_is_own_buffer = True, a_settled = False, a_free = True\<rparr>"

lemma sample_wf: "array_wf sample_array"
  by (simp add: sample_array_def array_wf_def)

lemma sample_elems: "elems sample_array = [[1, 2], [3, 4], [5, 6]]"
  by code_simp

lemma sample_fields [simp]:
  "a_nmemb sample_array = 3" "a_elt_size sample_array = 2" "a_cap sample_array = 8"
  "a_free sample_array" "\<not> a_settled sample_array"
  by (simp_all add: sample_array_def)

section \<open>Sequences of operations and growth\<close>

text \<open>
  C9: a program over one array, any sequence of pushes, insertions of one or several elements,
  concatenations, removals, wipes, exchanges, overwritings, settles and shrinks its caller is
  allowed to make, has exactly the outcome of \<open>ops_spec\<close>: the same booleans in the same order, the
  same elements, capacity and settled flag at the end, or the same trap, and the array stays well
  formed. There an addition that returns true has stored its elements at its position, and one
  returns false, leaving everything alone, exactly when there is no room and the array is
  settled, twice its capacity exceeds 2147483647 or the heap refuses the new size.
\<close>

theorem array_run_refines:
  assumes "array_wf a" and "ops_allowed al ops a"
  shows "map_res (\<lambda>(c, oks). (abs_array c, oks)) (run_ops al ops a) =
      ops_spec al (a_is_own_buffer a) ops (abs_array a) \<and>
    (\<forall>c oks. run_ops al ops a = Inr (c, oks) \<longrightarrow> array_wf c)"
  using run_ops_sound [OF assms] by blast

text \<open>Once shrunk to its six bytes and settled, the array refuses a push; every other call returns true.\<close>

theorem array_run_refines_witness:
  "map_res (\<lambda>(c, oks). (abs_array c, oks))
     (run_ops sample_allocator [Push [7, 8], Swap_Elems 1 3, Evict 0, Slimcheck, Settle, Push [9, 9], Pop] sample_array) =
   Inr (\<lparr>s_items = [[7, 8], [5, 6]], s_cap = 6, s_elt_size = 2, s_settled = True\<rparr>,
     [True, True, True, True, True, False, True])"
  (is "?run = Inr ?end")
proof -
  let ?ops = "[Push [7, 8], Swap_Elems 1 3, Evict 0, Slimcheck, Settle, Push [9, 9], Pop]"
  have "ops_allowed sample_allocator ?ops sample_array"
    by code_simp
  moreover have "ops_spec sample_allocator (a_is_own_buffer sample_array) ?ops (abs_array sample_array) = Inr ?end"
    by (simp add: abs_array_def sample_elems add_spec_def grow_spec_def slim_spec_def Let_def
        sample_allocator_def)
  ultimately show ?thesis
    using array_run_refines [OF sample_wf] by metis
qed

text \<open>
  C18: no allowed sequence of operations ever reads or writes outside the block, through a
  null pointer or through a released block: the only fault an operation can end in is a
  check of the hardened runtime.
\<close>

theorem array_memory_safe:
  assumes "array_wf a" and "op_runs al a ops b" and "op_pre al op b" and "apply_op al op b = Inl f"
  shows "f = Hardened_Check"
  using apply_op_sound [OF op_runs_wf [OF assms(1,2)] assms(3)] assms(4) by simp

theorem array_memory_safe_witness:
  "apply_op sample_allocator (Evict 0) (sample_array\<lparr>a_nmemb := 0\<rparr>) = Inl Hardened_Check"
proof -
  let ?b = "sample_array\<lparr>a_nmemb := 0\<rparr>"
  have "op_runs sample_allocator sample_array [Clear] ?b"
    unfolding op_runs_iff
    by (simp add: apply_op_def returns_nothing_def array_clear_ok(1) [OF sample_wf])
  moreover have "\<exists>f. apply_op sample_allocator (Evict 0) ?b = Inl f"
    by (simp add: apply_op_def array_evict_def)
  ultimately show ?thesis
    using array_memory_safe [OF sample_wf, of _ _ ?b "Evict 0"] by auto
qed

text \<open>
  \<open>array_push\<close> on the bytes is \<open>seq_push\<close> on the typed
  sequence: same success, same elements, same new capacity, same fault.
\<close>

theorem array_push_refines:
  assumes "array_wf a" and "length e = unat (a_elt_size a)"
  shows "map_res (\<lambda>(a, ok). (abs_array a, ok)) (array_push al a e) = seq_push al (abs_array a) e"
  using array_insert_refines [OF assms(1) order_refl assms(2), of al]
    seq_push_inject [of al "abs_array a" e]
  by (simp add: array_push_insert abs_array_def)

theorem array_push_refines_witness:
  "map_res (\<lambda>(a, ok). (abs_array a, ok)) (array_push sample_allocator sample_array [7, 8]) =
   Inr (\<lparr>s_items = [[1, 2], [3, 4], [5, 6], [7, 8]], s_cap = 64, s_elt_size = 2, s_settled = False\<rparr>, True)"
  unfolding array_push_refines [OF sample_wf, of "[7, 8]", simplified] by code_simp

text \<open>
  \<open>array_inject\<close> of the concatenated bytes of \<open>xs\<close> is the
  insertion of the elements \<open>xs\<close> at position \<open>p\<close> of the sequence,
  whatever growth it needs.
\<close>

theorem array_inject_refines_list:
  assumes "array_wf a" and "addressable (a_nmemb a) (a_elt_size a) n"
    and "unat p \<le> unat (a_nmemb a)"
    and "\<forall>x \<in> set xs. length x = unat (a_elt_size a)" and "length xs = unat n"
  shows "map_res (\<lambda>(a, ok). (abs_array a, ok)) (array_inject al a p (concat xs) n) =
    seq_inject al (abs_array a) (unat p) xs"
  by (rule array_inject_refines [OF assms])

theorem array_inject_refines_list_witness:
  "map_res (\<lambda>(a, ok). (elems a, ok)) (array_inject sample_allocator sample_array 1 [9, 9, 8, 8] 2) =
   Inr ([[1, 2], [9, 9], [8, 8], [3, 4], [5, 6]], True)"
proof -
  have "map_res (\<lambda>(a, ok). (abs_array a, ok))
      (array_inject sample_allocator sample_array 1 (concat [[9, 9], [8, 8]]) 2) =
    seq_inject sample_allocator (abs_array sample_array) (unat (1 :: u64)) [[9, 9], [8, 8]]"
    by (rule array_inject_refines_list) (simp_all add: sample_wf addressable_def)
  moreover have "map_res (\<lambda>(s, ok). (s_items s, ok))
      (seq_inject sample_allocator (abs_array sample_array) (unat (1 :: u64)) [[9, 9], [8, 8]]) =
    Inr ([[1, 2], [9, 9], [8, 8], [3, 4], [5, 6]], True)"
    by code_simp
  ultimately have "map_res (\<lambda>(s, ok). (s_items s, ok)) (map_res (\<lambda>(a, ok). (abs_array a, ok))
      (array_inject sample_allocator sample_array 1 (concat [[9, 9], [8, 8]]) 2)) =
    Inr ([[1, 2], [9, 9], [8, 8], [3, 4], [5, 6]], True)"
    by (simp only:)
  then show ?thesis
    by (auto simp: map_res_Inr_iff abs_array_def)
qed

text \<open>
  \<open>array_adjust\<close> changes no element; when it reports success the block has
  room for \<open>n\<close> more elements and never became smaller, when it reports failure
  the array is unchanged.
\<close>

theorem array_adjust_room:
  assumes "array_wf a" and "addressable (a_nmemb a) (a_elt_size a) n"
    and "array_adjust al a n = Inr (a', ok)"
  shows "elems a' = elems a \<and> a_nmemb a' = a_nmemb a \<and>
    (if ok then (unat (a_nmemb a) + unat n) * unat (a_elt_size a) \<le> unat (a_cap a') \<and>
                unat (a_cap a) \<le> unat (a_cap a') \<and> length (a_ptr a') = unat (a_cap a')
     else a' = a)"
proof (cases ok)
  case True
  obtain g where plan: "adjust_plan (a_nmemb a) (a_cap a) (a_elt_size a) (a_settled a) n = Inr g"
    and g: "adjust_to al a g = (a', True)"
    using assms(3) True by (auto simp: array_adjust_def map_res_Inr_iff)
  have "(unat (a_nmemb a) + unat n) * unat (a_elt_size a) \<le> unat (a_cap a') \<and>
      unat (a_cap a) \<le> unat (a_cap a')"
    using g adjust_plan_cases [OF plan] adjust_plan_Grow(1,2) [OF _ assms(2)] plan
    by (cases g) (auto split: realloc_result.splits)
  then show ?thesis
    using array_adjust_grown [OF assms(1,2)] assms(3) array_adjust_hdr(1) [OF assms(3)] True by metis
next
  case False
  then show ?thesis
    using array_adjust_refused [OF assms(2), of al a'] assms(3) by simp
qed

theorem array_adjust_room_witness:
  "\<exists>a'. array_adjust sample_allocator sample_array 2 = Inr (a', True) \<and> a_cap a' = 64 \<and>
     elems a' = [[1, 2], [3, 4], [5, 6]]"
proof -
  have "map_res (\<lambda>(a, ok). (a_cap a, ok)) (array_adjust sample_allocator sample_array 2) = Inr (64, True)"
    by code_simp
  then obtain a' where a': "array_adjust sample_allocator sample_array 2 = Inr (a', True)" "a_cap a' = 64"
    by (auto simp: map_res_Inr_iff)
  show ?thesis
    using array_adjust_room [OF sample_wf _ a'(1)] a' by (simp add: addressable_def sample_elems)
qed

text \<open>
  C26: evicting the position where an element was just inserted gives back the original
  elements and hands exactly that element to the destructor.
\<close>

theorem array_insert_evict:
  assumes "array_wf a" and "length e = unat (a_elt_size a)"
    and "array_insert al a p e = Inr (b, True)"
  shows "\<exists>c d. array_evict b p = Inr (c, d) \<and> elems c = elems a \<and>
    d = (if a_free a then [e] else [])"
proof -
  have p: "unat p \<le> unat (a_nmemb a)"
    using assms(3) by (simp add: array_insert_def word_le_nat_alt split: if_splits)
  note b = array_insert_wf [OF assms(1) p assms(2,3)]
  have "unat (a_nmemb b) = Suc (unat (a_nmemb a))"
    using arg_cong [OF b(4), of length] p by simp
  then have "unat p < unat (a_nmemb b)"
    using p by simp
  then obtain ptr where "array_evict b p = Inr (b\<lparr>a_nmemb := a_nmemb b - 1, a_ptr := ptr\<rparr>,
      if a_free b then [elems b ! unat p] else [])"
    "elems (b\<lparr>a_nmemb := a_nmemb b - 1, a_ptr := ptr\<rparr>) =
      take (unat p) (elems b) @ drop (Suc (unat p)) (elems b)"
    using array_evict_ok [OF b(1)] by blast
  then show ?thesis
    using p b by (simp add: nth_append)
qed

theorem array_insert_evict_witness:
  "\<exists>b c d. array_insert sample_allocator sample_array 1 [7, 8] = Inr (b, True) \<and>
     array_evict b 1 = Inr (c, d) \<and> elems c = [[1, 2], [3, 4], [5, 6]] \<and> d = [[7, 8]]"
proof -
  have "map_res snd (array_insert sample_allocator sample_array 1 [7, 8]) = Inr True"
    by code_simp
  then obtain b where b: "array_insert sample_allocator sample_array 1 [7, 8] = Inr (b, True)"
    by (auto simp: map_res_Inr_iff)
  show ?thesis
    using array_insert_evict [OF sample_wf _ b] b by (auto simp: sample_elems)
qed

text \<open>
  \<open>array_pop\<close> after a successful \<open>array_push\<close> returns the
  pushed element and restores the elements and the count.
\<close>

theorem array_push_pop:
  assumes "array_wf a" and "length e = unat (a_elt_size a)"
    and "array_push al a e = Inr (b, True)"
  shows "\<exists>c d. array_pop b True = Inr (c, Some e, d) \<and> elems c = elems a \<and> a_nmemb c = a_nmemb a"
proof -
  note b = array_push_wf [OF assms]
  have n: "unat (a_nmemb b) = Suc (unat (a_nmemb a))"
    using arg_cong [OF b(4), of length] by simp
  then have ne: "a_nmemb b \<noteq> 0"
    by auto
  have "unat (a_nmemb b - 1) = unat (a_nmemb a)"
    using n by (simp add: unat_u64_sub)
  then have "a_nmemb b - 1 = a_nmemb a"
    by (simp add: word_unat_eq_iff)
  then show ?thesis
    using array_pop_ok [OF b(1) ne] b(4) by simp
qed

theorem array_push_pop_witness:
  "\<exists>b c d. array_push sample_allocator sample_array [7, 8] = Inr (b, True) \<and>
     array_pop b True = Inr (c, Some [7, 8], d) \<and> elems c = [[1, 2], [3, 4], [5, 6]]"
proof -
  have "map_res snd (array_push sample_allocator sample_array [7, 8]) = Inr True"
    by code_simp
  then obtain b where b: "array_push sample_allocator sample_array [7, 8] = Inr (b, True)"
    by (auto simp: map_res_Inr_iff)
  show ?thesis
    using array_push_pop [OF sample_wf _ b] b by (auto simp: sample_elems)
qed


section \<open>Exchanging and removing\<close>

text \<open>
  C27: \<open>array_swap_elems\<close> of two distinct positions exchanges the two elements,
  the xor exchange of every byte being correct, and changes nothing else.
\<close>

theorem array_swap_elems_exchanges:
  assumes "array_wf a" and "unat i < unat (a_nmemb a)" and "unat j < unat (a_nmemb a)" and "i \<noteq> j"
  shows "\<exists>b. array_swap_elems a i j = Inr b \<and> array_wf b \<and>
    elems b = (elems a)[unat i := elems a ! unat j, unat j := elems a ! unat i]"
  by (metis array_swap_elems_ok [OF assms])

theorem array_swap_elems_exchanges_witness:
  "\<exists>b. array_swap_elems sample_array 0 2 = Inr b \<and> elems b = [[5, 6], [3, 4], [1, 2]]"
  using array_swap_elems_exchanges [OF sample_wf, of 0 2] by (auto simp: sample_elems)

text \<open>
  \<open>array_swap_elems\<close> of a position with itself overwrites that element with
  zero bytes.
\<close>

theorem array_swap_elems_same_zeroes:
  assumes "array_wf a" and "unat i < unat (a_nmemb a)"
  shows "\<exists>b. array_swap_elems a i i = Inr b \<and>
    elems b = (elems a)[unat i := replicate (unat (a_elt_size a)) 0]"
  by (metis array_swap_elems_self [OF assms])

theorem array_swap_elems_same_zeroes_witness:
  "\<exists>b. array_swap_elems sample_array 1 1 = Inr b \<and> elems b = [[1, 2], [0, 0], [5, 6]]"
proof -
  have "replicate (unat (a_elt_size sample_array)) (0 :: u8) = [0, 0]"
    by code_simp
  then show ?thesis
    using array_swap_elems_same_zeroes [OF sample_wf, of 1] by (auto simp: sample_elems)
qed

text \<open>
  C32: \<open>array_wipe\<close> removes the elements from \<open>s\<close> up to
  \<open>e\<close>, but the elements it hands to the destructor are the first \<open>e -
  s\<close> of the array.
\<close>

theorem array_wipe_effect:
  assumes "array_wf a" and "unat s \<le> unat e" and "unat e \<le> unat (a_nmemb a)"
  shows "\<exists>b. array_wipe a s e = Inr (b, if a_free a then take (unat e - unat s) (elems a) else []) \<and>
    array_wf b \<and> elems b = take (unat s) (elems a) @ drop (unat e) (elems a)"
  by (metis array_wipe_ok [OF assms])

theorem array_wipe_effect_witness:
  "\<exists>b. array_wipe sample_array 2 3 = Inr (b, [[1, 2]]) \<and> elems b = [[1, 2], [3, 4]]"
  using array_wipe_effect [OF sample_wf, of 2 3] by (auto simp: sample_elems)

text \<open>
  \<open>array_kill\<close> destroys every element exactly once, from the last to the
  first, and releases the block exactly when the array owns it.
\<close>

theorem array_kill_destroys_all:
  assumes "array_wf a"
  shows "array_kill a = Inr (if a_free a then rev (elems a) else [], a_is_own_buffer a)"
  using array_clear_ok [OF assms] by (simp add: array_kill_def)

theorem array_kill_destroys_all_witness:
  "array_kill sample_array = Inr ([[5, 6], [3, 4], [1, 2]], True)"
  using array_kill_destroys_all [OF sample_wf] by (simp add: sample_elems, simp add: sample_array_def)

section \<open>Creating and copying\<close>

text \<open>
  What \<open>array_create\<close> returns in each case of memory exhaustion (NULL for
  the header, a pointer to the released header for the block), and otherwise an empty
  well-formed array of the rounded capacity.
\<close>

theorem array_create_result:
  assumes "0 < unat elt" and "unat elt < 2 ^ 62" and "unat elt * unat n < 2 ^ 64"
  shows "if \<not> grants al sizeof_array_t then array_create al elt n f = Inr Null
    else if \<not> grants al (size_align (elt * (if n = 0 then ARRAY_INITIAL_SIZE else n)))
      then array_create al elt n f = Inr Dangling
    else \<exists>a. array_create al elt n f = Inr (Ptr a) \<and> array_wf a \<and> elems a = [] \<and>
      a_elt_size a = elt \<and> a_free a = f \<and> a_is_own_buffer a \<and> \<not> a_settled a \<and>
      a_cap a = size_align (elt * (if n = 0 then ARRAY_INITIAL_SIZE else n))"
  using array_create_cases [OF assms, of al f] by (auto split: if_splits)

theorem array_create_result_witness:
  "(\<exists>a. array_create sample_allocator 12 3 False = Inr (Ptr a) \<and> elems a = [] \<and> a_cap a = 40) \<and>
   array_create sample_allocator 12 1000 False = Inr Dangling"
proof -
  have "size_align 36 = 40" "size_align 12000 = 12000"
    by (code_simp, code_simp)
  then show ?thesis
    using array_create_result [of 12 3 sample_allocator False]
      array_create_result [of 12 1000 sample_allocator False]
    by (auto simp: sample_allocator_def sizeof_array_t_def)
qed

text \<open>
  C25: \<open>array_pull\<close> of two positions, negative ones counted from the end,
  returns the inclusive range between them, in reverse when the start comes after the end.
\<close>

theorem array_pull_range:
  fixes s e :: u64
  assumes "array_wf a" and "unat (a_nmemb a) < 2 ^ 63"
    and "\<bar>sint s\<bar> < int (unat (a_nmemb a))" and "\<bar>sint e\<bar> < int (unat (a_nmemb a))"
    and "i = pull_index (unat (a_nmemb a)) s" and "j = pull_index (unat (a_nmemb a)) e"
    and "\<forall>n. grants al n"
  shows "\<exists>b. array_pull al a s e = Inr (Ptr b) \<and> array_wf b \<and>
    elems b = (if i < j then take (Suc j - i) (drop i (elems a))
               else rev (take (Suc i - j) (drop j (elems a))))"
  using array_pull_ok [OF assms(1-4), of al] assms(5-7) by auto

theorem array_pull_range_witness:
  "\<exists>b. array_pull generous sample_array (- 1) 0 = Inr (Ptr b) \<and>
     elems b = [[5, 6], [3, 4], [1, 2]]"
proof -
  have "\<exists>b. array_pull generous sample_array (- 1) 0 = Inr (Ptr b) \<and> array_wf b \<and>
      elems b = (if (2 :: nat) < 0 then take (Suc 0 - 2) (drop 2 (elems sample_array))
               else rev (take (Suc 2 - 0) (drop 0 (elems sample_array))))"
  proof (rule array_pull_range [OF sample_wf])
    show "unat (a_nmemb sample_array) < 2 ^ 63"
      and "\<bar>sint (- 1 :: u64)\<bar> < int (unat (a_nmemb sample_array))"
      and "\<bar>sint (0 :: u64)\<bar> < int (unat (a_nmemb sample_array))"
      and "2 = pull_index (unat (a_nmemb sample_array)) (- 1)"
      and "0 = pull_index (unat (a_nmemb sample_array)) 0"
      by (simp, code_simp, code_simp, code_simp, code_simp)
  qed (simp add: generous_def)
  then show ?thesis
    by (auto simp: sample_elems)
qed

text \<open>
  C28: \<open>array_filter\<close> that returns an array returns the elements the callback
  accepts in their order; its other outcomes are a fault or a null or dangling pointer from
  a failed allocation, and what it destroys are copies it made.
\<close>

theorem array_filter_keeps_order:
  assumes "array_wf a"
  shows "array_filter al a cb \<in> {Inl Hardened_Check, Inl Use_After_Free, Inr (Dangling, [])} \<or>
    (\<exists>d. array_filter al a cb = Inr (Null, d) \<and> set d \<subseteq> set (filter cb (elems a))) \<or>
    (\<exists>b. array_filter al a cb = Inr (Ptr b, []) \<and> array_wf b \<and>
       elems b = filter cb (elems a) \<and> a_elt_size b = a_elt_size a)"
  by (rule array_filter_cases [OF assms])

theorem array_filter_keeps_order_witness:
  "\<exists>b. array_filter sample_allocator sample_array (\<lambda>e. 2 < hd e) = Inr (Ptr b, []) \<and>
     elems b = [[3, 4], [5, 6]]"
proof -
  have "case array_filter sample_allocator sample_array (\<lambda>e. 2 < hd e) of Inr (Ptr b, d) \<Rightarrow> True | _ \<Rightarrow> False"
    by code_simp
  then show ?thesis
    using array_filter_keeps_order [OF sample_wf, of sample_allocator "\<lambda>e. 2 < hd e"]
    by (auto simp: sample_elems)
qed

text \<open>
  An array returned by \<open>array_dup\<close> is well formed and holds the same
  elements, and nothing was destroyed.
\<close>

theorem array_dup_copies:
  assumes "array_wf a" and "unat (a_nmemb a) * unat (a_elt_size a) + 7 < 2 ^ 64"
    and "array_dup al a = Inr (Ptr b, d)"
  shows "array_wf b \<and> elems b = elems a \<and> d = []"
  using array_dup_cases [OF assms(1,2), of al] assms(3) by auto

theorem array_dup_copies_witness:
  "\<exists>b. array_dup sample_allocator sample_array = Inr (Ptr b, []) \<and> elems b = elems sample_array"
proof -
  have "case array_dup sample_allocator sample_array of Inr (Ptr b, d) \<Rightarrow> True | _ \<Rightarrow> False"
    by code_simp
  then obtain b d where b: "array_dup sample_allocator sample_array = Inr (Ptr b, d)"
    by (auto split: sum.splits prod.splits cptr.splits)
  show ?thesis
    using array_dup_copies [OF sample_wf _ b] b by simp
qed

text \<open>
  \<open>array_slimcheck\<close> never grows the block and keeps every element.
\<close>

theorem array_slimcheck_shrinks:
  assumes "array_wf a" and "a_nmemb a \<noteq> 0 \<or> \<not> zero_frees al"
    and "array_slimcheck al a = (b, ok)"
  shows "array_wf b \<and> elems b = elems a \<and> unat (a_cap b) \<le> unat (a_cap a)"
  using array_slimcheck_ok [OF assms] by simp


theorem array_slimcheck_shrinks_witness:
  "\<exists>b. array_slimcheck sample_allocator (sample_array\<lparr>a_nmemb := 1\<rparr>) = (b, True) \<and> a_cap b = 2 \<and>
     elems b = [[1, 2]]"
proof -
  let ?a = "sample_array\<lparr>a_nmemb := 1\<rparr>"
  have "case array_slimcheck sample_allocator ?a of (b, ok) \<Rightarrow> ok \<and> a_cap b = 2"
    by code_simp
  then obtain b where b: "array_slimcheck sample_allocator ?a = (b, True)" "a_cap b = 2"
    by (auto split: prod.splits)
  have "array_wf ?a" "elems ?a = [[1, 2]]"
    by (simp add: sample_array_def array_wf_def) code_simp
  then show ?thesis
    using array_slimcheck_shrinks [OF _ _ b(1)] b by simp
qed

text \<open>
  A successful \<open>array_append_from_capacity\<close> stays within the block: the array is still
  well formed and its former elements are the first ones.
\<close>

theorem array_append_from_capacity_bounded:
  assumes "array_wf a" and "array_append_from_capacity a n = Inr (b, True)"
  shows "array_wf b \<and> a_nmemb b = a_nmemb a + n \<and> take (unat (a_nmemb a)) (elems b) = elems a"
proof -
  let ?N = "unat (a_nmemb a)" and ?E = "unat (a_elt_size a)" and ?C = "unat (a_cap a)"
  have E: "0 < ?E" and fits: "?N * ?E \<le> ?C"
    using assms(1) by (simp_all add: array_wf_def)
  then have lt: "?N * ?E < 2 ^ 64"
    using unat_u64_lt [of "a_cap a"] by linarith
  then have sz: "unat (array_sizeof a) = ?N * ?E"
    by (simp add: array_sizeof_def unat_u64_mult)
  obtain room where room: "array_uninitialized_size a = Inr room" and n: "\<not> room < n"
    and b: "b = a\<lparr>a_nmemb := a_nmemb a + n\<rparr>"
    using assms(2) by (auto simp: array_append_from_capacity_def bind_res_Inr_iff split: if_splits)
  have "unat room = (?C - ?N * ?E) div ?E"
    using room fits sz
    by (auto simp: array_uninitialized_size_def Let_def unat_div unat_u64_sub split: if_splits)
  then have "unat n * ?E \<le> (?C - ?N * ?E) div ?E * ?E"
    using n by (simp add: word_less_nat_alt not_less)
  also have "\<dots> \<le> ?C - ?N * ?E"
    by simp
  finally have need: "(?N + unat n) * ?E \<le> ?C"
    using fits by (simp add: algebra_simps)
  have "?N + unat n \<le> (?N + unat n) * ?E"
    using E by simp
  then have "?N + unat n < 2 ^ 64"
    using need unat_u64_lt [of "a_cap a"] by (meson le_less_trans le_trans)
  then have sum: "unat (a_nmemb a + n) = ?N + unat n"
    by (simp add: unat_u64_add)
  have "take k (chunks w (k + m) xs) = chunks w k xs" for k m w and xs :: bytes
    by (induction k arbitrary: xs) simp_all
  then show ?thesis
    using assms(1) b need sum by (simp add: array_wf_def elems_def)
qed

theorem array_append_from_capacity_bounded_witness:
  "\<exists>b. array_append_from_capacity sample_array 1 = Inr (b, True) \<and> array_wf b \<and> a_nmemb b = 4"
proof -
  have "map_res snd (array_append_from_capacity sample_array 1) = Inr True"
    by code_simp
  then obtain b where b: "array_append_from_capacity sample_array 1 = Inr (b, True)"
    by (auto simp: map_res_Inr_iff)
  show ?thesis
    using array_append_from_capacity_bounded [OF sample_wf b] b by simp
qed

text \<open>
  \<open>array_extract\<close> of a range inside the array returns a block with exactly the bytes of
  its elements, or NULL when the block is not granted.
\<close>

theorem array_extract_bytes:
  assumes "array_wf a" and "unat s \<le> unat e" and "unat e \<le> unat (a_nmemb a)"
  shows "array_extract al a s e =
    Inr (if grants al ((e - s) * a_elt_size a)
         then Some (concat (take (unat e - unat s) (drop (unat s) (elems a)))) else None)"
  by (rule array_extract_ok [OF assms])

theorem array_extract_bytes_witness:
  "array_extract generous sample_array 1 3 = Inr (Some [3, 4, 5, 6])"
  using array_extract_bytes [OF sample_wf, of 1 3 generous]
  by (simp add: sample_elems generous_def)

end
