(* ===== verification/Path.thy ===== *)
theory Path
  imports Prelude
begin

text \<open>
  C strings, and the path of the target being observed: \<^verbatim>\<open>__cur_path\<close> of
  \<^verbatim>\<open>daemon/srcs/fs/routine.c\<close>, a static buffer that \<^verbatim>\<open>set_current_wd\<close> extends by a name and
  \<^verbatim>\<open>unset_current_wd\<close> shortens again. A buffer is the bytes of its block, a name the bytes
  before its terminator; neither function compares the path with the size of the buffer,
  so a write past it is the fault \<^const>\<open>Out_Of_Bounds\<close>.
\<close>

section \<open>C strings in a buffer\<close>

definition cstr :: "bytes \<Rightarrow> bytes" where
  "cstr buf = takeWhile (\<lambda>c. c \<noteq> 0) buf"

definition strlen :: "bytes \<Rightarrow> nat res" where
  "strlen buf = (if 0 \<in> set buf then Inr (length (cstr buf)) else Inl Out_Of_Bounds)"

definition store_byte :: "bytes \<Rightarrow> nat \<Rightarrow> u8 \<Rightarrow> bytes res" where
  "store_byte buf p c = (if p < length buf then Inr (buf[p := c]) else Inl Out_Of_Bounds)"

text \<open>\<open>while (*name) *ptr++ = *name++;\<close>\<close>

fun store_name :: "bytes \<Rightarrow> nat \<Rightarrow> bytes \<Rightarrow> (bytes \<times> nat) res" where
  "store_name buf p [] = Inr (buf, p)"
| "store_name buf p (c # cs) = bind_res (store_byte buf p c) (\<lambda>buf. store_name buf (p + 1) cs)"

text \<open>A name that a C string can hold.\<close>

definition is_cstr :: "bytes \<Rightarrow> bool" where
  "is_cstr s \<longleftrightarrow> 0 \<notin> set s"

section \<open>The current path\<close>

definition MAX_PATH_SIZE :: nat where
  "MAX_PATH_SIZE = 1024"

abbreviation SLASH :: u8 where
  "SLASH \<equiv> 47"

definition cur_path_init :: bytes where
  "cur_path_init = replicate MAX_PATH_SIZE 0"

text \<open>\<open>None\<close> is a NULL name.\<close>

definition set_current_wd :: "bytes option \<Rightarrow> bytes \<Rightarrow> bytes res" where
  "set_current_wd name path = (case name of
      None \<Rightarrow> Inr path
    | Some name \<Rightarrow>
        bind_res (strlen path) (\<lambda>len_cur_path.
        bind_res (if len_cur_path \<noteq> 0
                  then map_res (\<lambda>path. (path, len_cur_path + 1)) (store_byte path len_cur_path SLASH)
                  else Inr (path, len_cur_path)) (\<lambda>(path, ptr).
        bind_res (store_name path ptr name) (\<lambda>(path, ptr).
          store_byte path ptr 0))))"

text \<open>\<open>while (len_name-- + 1) *--ptr = 0;\<close> runs \<open>len_name + 1\<close> times.\<close>

fun erase_back :: "bytes \<Rightarrow> nat \<Rightarrow> nat \<Rightarrow> bytes res" where
  "erase_back path ptr 0 = Inr path"
| "erase_back path 0 (Suc k) = Inl Out_Of_Bounds"
| "erase_back path (Suc ptr) (Suc k) =
     bind_res (store_byte path ptr 0) (\<lambda>path. erase_back path ptr k)"

definition unset_current_wd :: "bytes option \<Rightarrow> bytes \<Rightarrow> bytes res" where
  "unset_current_wd name path = (case name of
      None \<Rightarrow> Inr path
    | Some name \<Rightarrow>
        bind_res (strlen path) (\<lambda>len_cur_path.
          if len_cur_path = length name then store_byte path 0 0
          else erase_back path len_cur_path (length name + 1)))"

section \<open>Their effect on the string\<close>

text \<open>The path after entering \<open>name\<close>.\<close>

definition enter :: "bytes \<Rightarrow> bytes \<Rightarrow> bytes" where
  "enter p name = (if p = [] then name else p @ SLASH # name)"

lemma cstr_append: "is_cstr s \<Longrightarrow> cstr (s @ 0 # rest) = s"
  by (auto simp: cstr_def is_cstr_def takeWhile_append)

lemma is_cstr_cstr [simp]: "is_cstr (cstr buf)"
  by (auto simp: cstr_def is_cstr_def dest: set_takeWhileD)

lemma is_cstr_simps [simp]:
  "is_cstr []" "is_cstr (c # s) \<longleftrightarrow> c \<noteq> 0 \<and> is_cstr s" "is_cstr (s @ t) \<longleftrightarrow> is_cstr s \<and> is_cstr t"
  by (auto simp: is_cstr_def)

lemma is_cstr_enter [simp]: "is_cstr p \<Longrightarrow> is_cstr name \<Longrightarrow> is_cstr (enter p name)"
  by (simp add: enter_def)

text \<open>A terminated buffer is its string, the terminator, and whatever follows.\<close>

lemma cstr_split:
  assumes "0 \<in> set buf"
  obtains rest where "buf = cstr buf @ 0 # rest"
proof -
  have "dropWhile (\<lambda>c. c \<noteq> 0) buf \<noteq> []"
    using assms by (auto simp: dropWhile_eq_Nil_conv)
  then obtain x rest where d: "dropWhile (\<lambda>c. c \<noteq> 0) buf = x # rest"
    by (cases "dropWhile (\<lambda>c. c \<noteq> 0) buf") auto
  then have "x = 0"
    using hd_dropWhile [of "\<lambda>c. c \<noteq> 0" buf] by auto
  then have "buf = cstr buf @ 0 # rest"
    unfolding cstr_def using takeWhile_dropWhile_id [of "\<lambda>c. c \<noteq> 0" buf] d by simp
  then show thesis
    by (rule that)
qed

lemma strlen_append [simp]: "is_cstr s \<Longrightarrow> strlen (s @ 0 # rest) = Inr (length s)"
  by (simp add: strlen_def cstr_append)

lemma store_name_append:
  "length mid = length cs \<Longrightarrow> p = length pre \<Longrightarrow>
   store_name (pre @ mid @ post) p cs = Inr (pre @ cs @ post, p + length cs)"
proof (induction cs arbitrary: mid pre p)
  case (Cons c cs)
  obtain m mid' where mid: "mid = m # mid'" "length mid' = length cs"
    using Cons.prems(1) by (cases mid) auto
  have "store_name ((pre @ [c]) @ mid' @ post) (p + 1) cs = Inr ((pre @ [c]) @ cs @ post, p + 1 + length cs)"
    by (rule Cons.IH) (use mid Cons.prems in simp_all)
  then show ?case
    using mid Cons.prems by (simp add: store_byte_def)
qed simp

lemma store_name_out:
  "p \<le> length buf \<Longrightarrow> length buf \<le> p + length cs \<Longrightarrow>
   bind_res (store_name buf p cs) (\<lambda>(path, ptr). store_byte path ptr 0) = Inl Out_Of_Bounds"
proof (induction cs arbitrary: buf p)
  case (Cons c cs)
  then show ?case
    by (cases "p = length buf") (simp_all add: store_byte_def)
qed (simp add: store_byte_def)

lemma set_current_wd_empty:
  "set_current_wd (Some name) (0 # rest) =
     bind_res (store_name (0 # rest) 0 name) (\<lambda>(path, ptr). store_byte path ptr 0)"
  by (simp add: set_current_wd_def strlen_def cstr_def)

lemma set_current_wd_nonempty:
  "is_cstr p \<Longrightarrow> p \<noteq> [] \<Longrightarrow> set_current_wd (Some name) (p @ 0 # rest) =
     bind_res (store_name (p @ SLASH # rest) (length p + 1) name) (\<lambda>(path, ptr). store_byte path ptr 0)"
  by (simp add: set_current_wd_def store_byte_def list_update_append)

lemma set_current_wd_ok:
  assumes "is_cstr p" and "is_cstr name"
    and fits: "length (enter p name) < length (p @ 0 # rest)"
  obtains rest' where "set_current_wd (Some name) (p @ 0 # rest) = Inr (enter p name @ 0 # rest')"
    and "length (enter p name @ 0 # rest') = length (p @ 0 # rest)"
proof (cases "p = []")
  case True
  let ?buf = "0 # rest"
  have n: "length name < length ?buf"
    using fits True by (simp add: enter_def)
  have split: "?buf = [] @ take (length name) ?buf @ ?buf ! length name # drop (Suc (length name)) ?buf"
    using id_take_nth_drop [OF n] by simp
  have "store_name ([] @ take (length name) ?buf @ ?buf ! length name # drop (Suc (length name)) ?buf)
      0 name = Inr ([] @ name @ ?buf ! length name # drop (Suc (length name)) ?buf, 0 + length name)"
    by (rule store_name_append) (use n in simp_all)
  then have "store_name ?buf 0 name =
      Inr (name @ ?buf ! length name # drop (Suc (length name)) ?buf, length name)"
    using split by simp
  then have "set_current_wd (Some name) ?buf = Inr (name @ 0 # drop (Suc (length name)) ?buf)"
    by (simp add: set_current_wd_empty store_byte_def del: nth_Cons_Suc)
  then show thesis
    using that [of "drop (Suc (length name)) ?buf"] True n by (simp add: enter_def)
next
  case False
  have n: "length name < length rest"
    using fits False by (simp add: enter_def)
  let ?mid = "take (length name) rest" and ?x = "rest ! length name"
    and ?post = "drop (Suc (length name)) rest"
  have "store_name ((p @ [SLASH]) @ ?mid @ ?x # ?post) (length p + 1) name =
      Inr ((p @ [SLASH]) @ name @ ?x # ?post, length p + 1 + length name)"
    by (rule store_name_append) (use n in simp_all)
  then have "store_name (p @ SLASH # rest) (length p + 1) name =
      Inr (p @ SLASH # name @ ?x # ?post, length p + 1 + length name)"
    using id_take_nth_drop [OF n] by simp
  then have "set_current_wd (Some name) (p @ 0 # rest) = Inr (enter p name @ 0 # ?post)"
    using False assms(1)
    by (simp add: set_current_wd_nonempty store_byte_def enter_def list_update_append)
  then show thesis
    using that [of ?post] n False by (simp add: enter_def)
qed

lemma set_current_wd_overflow:
  assumes "is_cstr p" and "is_cstr name" and "length (p @ 0 # rest) \<le> length (enter p name)"
  shows "set_current_wd (Some name) (p @ 0 # rest) = Inl Out_Of_Bounds"
proof (cases "p = []")
  case True
  then show ?thesis
    using store_name_out [of 0 "0 # rest" name] assms(3)
    by (simp add: set_current_wd_empty enter_def del: store_name.simps)
next
  case False
  then show ?thesis
    using store_name_out [of "length p + 1" "p @ SLASH # rest" name] assms
    by (simp add: set_current_wd_nonempty enter_def)
qed

lemma erase_back_append:
  "erase_back (q @ s @ post) (length q + length s) (length s) =
     Inr (q @ replicate (length s) 0 @ post)"
proof (induction s arbitrary: post rule: rev_induct)
  case (snoc c s)
  have "erase_back (q @ s @ 0 # post) (length q + length s) (length s) =
      Inr (q @ replicate (length s) 0 @ 0 # post)"
    using snoc.IH [of "0 # post"] by simp
  then show ?case
    by (simp add: store_byte_def list_update_append replicate_append_same)
qed simp

lemma unset_current_wd_ok:
  assumes "is_cstr p" and "is_cstr name"
  obtains rest' where
    "unset_current_wd (Some name) (enter p name @ 0 # rest) = Inr (p @ 0 # rest')"
    and "length (p @ 0 # rest') = length (enter p name @ 0 # rest)"
proof (cases "p = []")
  case True
  have "unset_current_wd (Some name) (enter p name @ 0 # rest) =
      store_byte (name @ 0 # rest) 0 0"
    using assms True by (simp add: unset_current_wd_def enter_def)
  also have "\<dots> = Inr (0 # tl (name @ 0 # rest))"
    by (cases name) (simp_all add: store_byte_def)
  finally show thesis
    using that [of "tl (name @ 0 # rest)"] True by (simp add: enter_def)
next
  case False
  have "erase_back (p @ (SLASH # name) @ 0 # rest) (length p + length (SLASH # name))
      (length (SLASH # name)) = Inr (p @ replicate (length (SLASH # name)) 0 @ 0 # rest)"
    by (rule erase_back_append)
  then have "unset_current_wd (Some name) (enter p name @ 0 # rest) =
      Inr (p @ 0 # replicate (length name) 0 @ 0 # rest)"
    using assms False strlen_append [of "p @ SLASH # name" rest]
    by (simp add: unset_current_wd_def enter_def)
  then show thesis
    using that False by (simp add: enter_def)
qed

text \<open>The same for any terminated buffer.\<close>

lemma enter_wd:
  assumes "0 \<in> set buf" and "is_cstr name" and "length (enter (cstr buf) name) < length buf"
  obtains buf' where "set_current_wd (Some name) buf = Inr buf'" and "0 \<in> set buf'"
    and "cstr buf' = enter (cstr buf) name" and "length buf' = length buf"
proof -
  obtain rest where buf: "buf = cstr buf @ 0 # rest"
    using cstr_split [OF assms(1)] by blast
  then obtain rest' where "set_current_wd (Some name) buf = Inr (enter (cstr buf) name @ 0 # rest')"
    and "length (enter (cstr buf) name @ 0 # rest') = length buf"
    using set_current_wd_ok [OF is_cstr_cstr assms(2), of buf rest] assms(3) by metis
  then show thesis
    using that [of "enter (cstr buf) name @ 0 # rest'"] assms(2) by (simp add: cstr_append)
qed

lemma leave_wd:
  assumes "0 \<in> set buf" and "cstr buf = enter p name" and "is_cstr p" and "is_cstr name"
  obtains buf' where "unset_current_wd (Some name) buf = Inr buf'" and "0 \<in> set buf'"
    and "cstr buf' = p" and "length buf' = length buf"
proof -
  obtain rest where buf: "buf = enter p name @ 0 # rest"
    using cstr_split [OF assms(1)] assms(2) by metis
  then obtain rest' where "unset_current_wd (Some name) buf = Inr (p @ 0 # rest')"
    and "length (p @ 0 # rest') = length buf"
    using unset_current_wd_ok [OF assms(3,4), of rest] by metis
  then show thesis
    using that [of "p @ 0 # rest'"] assms(3) by (simp add: cstr_append)
qed

section \<open>Walking down and up again\<close>

lemma length_foldl_enter: "length p \<le> length (foldl enter p ns)"
proof (induction ns arbitrary: p)
  case (Cons n ns)
  have "length p \<le> length (enter p n)"
    by (simp add: enter_def)
  then show ?case
    using Cons [of "enter p n"] by simp
qed simp

text \<open>What a walk over a tree needs of the path it keeps.\<close>

locale path_walk =
  fixes good :: "'b \<Rightarrow> bool"
    and view :: "'b \<Rightarrow> bytes"
    and room :: "'b \<Rightarrow> nat"
    and go_in :: "bytes \<Rightarrow> 'b \<Rightarrow> 'b res"
    and go_out :: "bytes \<Rightarrow> 'b \<Rightarrow> 'b res"
  assumes view_string: "is_cstr (view b)"
    and in_law: "good b \<Longrightarrow> is_cstr n \<Longrightarrow> length (enter (view b) n) < room b \<Longrightarrow>
      \<exists>b'. go_in n b = Inr b' \<and> good b' \<and> view b' = enter (view b) n \<and> room b' = room b"
    and out_law: "good b \<Longrightarrow> view b = enter p n \<Longrightarrow> is_cstr p \<Longrightarrow> is_cstr n \<Longrightarrow>
      \<exists>b'. go_out n b = Inr b' \<and> good b' \<and> view b' = p \<and> room b' = room b"
begin

text \<open>Leaving the names in reverse order undoes entering them.\<close>

lemma down_and_up:
  "good b \<Longrightarrow> \<forall>n \<in> set ns. is_cstr n \<Longrightarrow> length (foldl enter (view b) ns) < room b \<Longrightarrow>
   \<exists>b1 b2. each_res go_in ns b = Inr b1 \<and> good b1 \<and> view b1 = foldl enter (view b) ns \<and> room b1 = room b \<and>
     each_res go_out (rev ns) b1 = Inr b2 \<and> good b2 \<and> view b2 = view b \<and> room b2 = room b"
proof (induction ns arbitrary: b)
  case (Cons n ns)
  have n: "is_cstr n"
    using Cons.prems(2) by simp
  have "length (enter (view b) n) < room b"
    using Cons.prems(3) length_foldl_enter [of "enter (view b) n" ns] by simp
  then obtain b0 where b0: "go_in n b = Inr b0" "good b0" "view b0 = enter (view b) n" "room b0 = room b"
    using in_law [OF Cons.prems(1) n] by blast
  have fits: "length (foldl enter (view b0) ns) < room b0"
    using Cons.prems(3) b0 by simp
  obtain b1 b2 where b1: "each_res go_in ns b0 = Inr b1" "good b1" "view b1 = foldl enter (view b0) ns" "room b1 = room b0"
    and b2: "each_res go_out (rev ns) b1 = Inr b2" "good b2" "view b2 = view b0" "room b2 = room b0"
    using Cons.IH [OF b0(2) _ fits] Cons.prems(2) by auto
  obtain b3 where "go_out n b2 = Inr b3" "good b3" "view b3 = view b" "room b3 = room b2"
    using out_law [OF b2(2) _ view_string n, of b] b2(3) b0(3) by auto
  then show ?case
    using b0 b1 b2 by (simp add: each_res_append)
qed simp

end

interpretation wd: path_walk "\<lambda>buf. 0 \<in> set buf" cstr length "\<lambda>n. set_current_wd (Some n)"
  "\<lambda>n. unset_current_wd (Some n)"
proof unfold_locales
  fix b :: bytes and n p
  show "is_cstr (cstr b)"
    by (rule is_cstr_cstr)
  show "\<exists>b'. set_current_wd (Some n) b = Inr b' \<and> 0 \<in> set b' \<and> cstr b' = enter (cstr b) n \<and> length b' = length b"
    if "0 \<in> set b" "is_cstr n" "length (enter (cstr b) n) < length b"
    using enter_wd [OF that] by metis
  show "\<exists>b'. unset_current_wd (Some n) b = Inr b' \<and> 0 \<in> set b' \<and> cstr b' = p \<and> length b' = length b"
    if "0 \<in> set b" "cstr b = enter p n" "is_cstr p" "is_cstr n"
    using leave_wd [OF that] by metis
qed

end
