(* ===== verification/Target.thy ===== *)
theory Target
  imports Sequence Path
begin

text \<open>
  The data of \<^verbatim>\<open>daemon/incs/fs_target.h\<close>: what \<^verbatim>\<open>lstat\<close> reports, file types, events and
  the tree of observed targets, with the state all of the daemon shares (the current path,
  the performance counters of \<^verbatim>\<open>perf.c\<close>, the events printed so far) and the file system
  it looks at. A target owns its children, so the tree is a value; what a pointer to a
  target, an event array or a child array may be otherwise (NULL, released) is \<open>cptr\<close>.
\<close>

section \<open>File status\<close>

record stat =
  st_dev :: u64
  st_ino :: u64
  st_mode :: u32
  st_size :: u64
  st_atime :: u64
  st_mtime :: u64

definition zero_stat :: stat where
  "zero_stat = \<lparr>st_dev = 0, st_ino = 0, st_mode = 0, st_size = 0, st_atime = 0, st_mtime = 0\<rparr>"

datatype filetype = unknown | fifo | chardev | directory | blockdev | normal | symbolic_link | sock

text \<open>The \<^verbatim>\<open>S_IS...\<close> tests compare the bits of \<^verbatim>\<open>S_IFMT\<close> with the Linux values.\<close>

definition S_IFMT :: u32 where
  "S_IFMT = 0xF000"

definition filetype_of :: "u32 \<Rightarrow> filetype" where
  "filetype_of mode =
     (let t = mode AND S_IFMT in
      if t = 0x1000 then fifo
      else if t = 0x2000 then chardev
      else if t = 0x4000 then directory
      else if t = 0x6000 then blockdev
      else if t = 0x8000 then normal
      else if t = 0xA000 then symbolic_link
      else if t = 0xC000 then sock
      else unknown)"

definition fuid_create :: "stat \<Rightarrow> u64" where
  "fuid_create st = (push_bit 32 (st_ino st) OR st_dev st)"

section \<open>Events\<close>

text \<open>
  The string an event's \<^verbatim>\<open>path\<close> points to: the buffer of \<^verbatim>\<open>path()\<close>, a string that lives as
  long as the daemon (an argument), or a string that has been released.
\<close>

datatype path_ref = Cur_Path | Argument bytes | Freed_Path

record event =
  e_mask :: u32
  e_path :: path_ref
  e_at :: u64
  e_st :: stat

definition EVENT_ACK :: u32 where "EVENT_ACK = push_bit 1 1"
definition EVENT_ACCESS :: u32 where "EVENT_ACCESS = push_bit 2 1"
definition EVENT_CREATE :: u32 where "EVENT_CREATE = push_bit 3 1"
definition EVENT_DELETE :: u32 where "EVENT_DELETE = push_bit 4 1"
definition EVENT_MODIFY :: u32 where "EVENT_MODIFY = push_bit 5 1"
definition EVENT_OPEN :: u32 where "EVENT_OPEN = push_bit 6 1"
definition EVENT_FAIL :: u32 where "EVENT_FAIL = push_bit 7 1"

section \<open>Targets\<close>

record target_info =
  f_uid :: u64
  f_type :: filetype
  f_name :: bytes
  f_ok :: bool

text \<open>The array of child pointers: NULL, released, or live with its capacity in bytes.\<close>

datatype 'p kids = No_Kids | Dangling_Kids | Kids "'p list" u64

datatype fs_target =
  Target (t_info: target_info) (t_events: "event seq") (t_children: "fs_target cptr kids")

text \<open>
  Sizes of \<^verbatim>\<open>fs_target_event_t\<close> and \<^verbatim>\<open>fs_target_t\<close> on x86-64 Linux, where \<^verbatim>\<open>struct stat\<close> takes 144 bytes
  and every field is aligned to its size.
\<close>

definition sizeof_event :: u64 where
  "sizeof_event = 168"

definition sizeof_target :: u64 where
  "sizeof_target = 48"

definition sizeof_pointer :: u64 where
  "sizeof_pointer = 8"

section \<open>The state of the daemon and the system it runs on\<close>

record perf =
  n_stat :: u64
  n_opendir :: u64
  n_closedir :: u64
  n_readdir :: u64
  n_rounds :: u64
  n_events :: u64
  n_target :: u64

record report =
  r_path :: bytes
  r_label :: string
  r_uid :: u64
  r_at :: u64
  r_mtime :: u64

text \<open>\<open>clock\<close> counts the system calls made so far; \<open>reports\<close> is what was printed, latest first.\<close>

record state =
  cur_path :: bytes
  perf :: perf
  clock :: nat
  reports :: "report list"

datatype lstat_result = Stat stat | EACCES | ENOENT | EOTHER

text \<open>
  The system as the code sees it, call by call: \<^verbatim>\<open>lstat\<close>, the entries a directory stream
  returns (\<open>None\<close>: \<^verbatim>\<open>opendir\<close> fails), \<^verbatim>\<open>gettimeofday\<close>, the allocator, whether a termination
  signal has arrived, and whether \<^verbatim>\<open>sigaction\<close> succeeds for a signal.
\<close>

record world =
  w_lstat :: "nat \<Rightarrow> bytes \<Rightarrow> lstat_result"
  w_readdir :: "nat \<Rightarrow> bytes \<Rightarrow> bytes list option"
  w_time :: "nat \<Rightarrow> u64 \<times> u64"
  w_alloc :: "nat \<Rightarrow> allocator"
  w_terminate :: "nat \<Rightarrow> bool"
  w_sigaction :: "nat \<Rightarrow> bool"

definition tick :: "state \<Rightarrow> state" where
  "tick s = s\<lparr>clock := clock s + 1\<rparr>"

definition count_stat :: "state \<Rightarrow> state" where
  "count_stat s = s\<lparr>perf := (perf s)\<lparr>n_stat := n_stat (perf s) + 1\<rparr>\<rparr>"

definition count_opendir :: "state \<Rightarrow> state" where
  "count_opendir s = s\<lparr>perf := (perf s)\<lparr>n_opendir := n_opendir (perf s) + 1\<rparr>\<rparr>"

definition count_closedir :: "state \<Rightarrow> state" where
  "count_closedir s = s\<lparr>perf := (perf s)\<lparr>n_closedir := n_closedir (perf s) + 1\<rparr>\<rparr>"

definition count_readdir :: "state \<Rightarrow> state" where
  "count_readdir s = s\<lparr>perf := (perf s)\<lparr>n_readdir := n_readdir (perf s) + 1\<rparr>\<rparr>"

definition count_round :: "state \<Rightarrow> state" where
  "count_round s = s\<lparr>perf := (perf s)\<lparr>n_rounds := n_rounds (perf s) + 1\<rparr>\<rparr>"

definition count_event :: "state \<Rightarrow> state" where
  "count_event s = s\<lparr>perf := (perf s)\<lparr>n_events := n_events (perf s) + 1\<rparr>\<rparr>"

definition count_target :: "state \<Rightarrow> state" where
  "count_target s = s\<lparr>perf := (perf s)\<lparr>n_target := n_target (perf s) + 1\<rparr>\<rparr>"

text \<open>\<^verbatim>\<open>get_timestamp\<close> of \<^verbatim>\<open>time.c\<close>: milliseconds from the seconds and microseconds of the clock.\<close>

definition get_timestamp :: "world \<Rightarrow> state \<Rightarrow> u64 \<times> state" where
  "get_timestamp w s = (let (sec, usec) = w_time w (clock s) in (sec * 1000 + usec div 1000, tick s))"

text \<open>The allocator at a moment of the run.\<close>

definition heap :: "world \<Rightarrow> state \<Rightarrow> allocator" where
  "heap w s = w_alloc w (clock s)"

definition lstat :: "world \<Rightarrow> bytes \<Rightarrow> state \<Rightarrow> lstat_result \<times> state" where
  "lstat w path s = (w_lstat w (clock s) path, tick s)"

section \<open>Strings of the code\<close>

definition bytes_of :: "string \<Rightarrow> bytes" where
  "bytes_of s = map of_char s"

text \<open>
  \<^verbatim>\<open>basename\<close> of \<^verbatim>\<open>libgen.h\<close> in glibc: the last component, and the path it leaves behind. Trailing
  slashes are cut off by a NUL that is stored into the argument, so when the two differ the argument has
  been written to; \<open>fs_target_create_named\<close> has the case of an argument that is a literal.
\<close>

definition strip_slashes :: "bytes \<Rightarrow> bytes" where
  "strip_slashes p = rev (dropWhile (\<lambda>c. c = SLASH) (rev p))"

definition basename :: "bytes \<Rightarrow> bytes \<times> bytes" where
  "basename p =
     (if p = [] then ([46], p)
      else if strip_slashes p = [] then ([SLASH], p)
      else (rev (takeWhile (\<lambda>c. c \<noteq> SLASH) (rev (strip_slashes p))), strip_slashes p))"

end
