(* ===== verification/Event.thy ===== *)
theory Event
  imports Target
begin

text \<open>
  The history of a target: \<^verbatim>\<open>fs_target_event.c\<close> starts it with one acknowledgement,
  \<^verbatim>\<open>fs_target_event_track.c\<close> compares a fresh \<^verbatim>\<open>lstat\<close> with the latest event and appends an
  event when they differ. An operation takes the target's event array and the state and
  returns both with its result.
\<close>

section \<open>Comparing two results of lstat\<close>

datatype cmp_e = CMP_EQ | CMP_LT | CMP_GT

definition compare_dev :: "stat \<Rightarrow> stat \<Rightarrow> cmp_e" where
  "compare_dev st1 st2 =
     (if st_dev st1 < st_dev st2 then CMP_LT else if st_dev st1 > st_dev st2 then CMP_GT else CMP_EQ)"

definition compare_atime :: "stat \<Rightarrow> stat \<Rightarrow> cmp_e" where
  "compare_atime st1 st2 =
     (if sint (st_atime st1) < sint (st_atime st2) then CMP_LT
      else if sint (st_atime st1) > sint (st_atime st2) then CMP_GT else CMP_EQ)"

definition compare_ino :: "stat \<Rightarrow> stat \<Rightarrow> cmp_e" where
  "compare_ino st1 st2 =
     (if st_ino st1 < st_ino st2 then CMP_LT else if st_ino st1 > st_ino st2 then CMP_GT else CMP_EQ)"

definition compare_size :: "stat \<Rightarrow> stat \<Rightarrow> cmp_e" where
  "compare_size st1 st2 =
     (if sint (st_size st1) < sint (st_size st2) then CMP_LT
      else if sint (st_size st1) > sint (st_size st2) then CMP_GT else CMP_EQ)"

definition compare_mtime :: "stat \<Rightarrow> stat \<Rightarrow> cmp_e" where
  "compare_mtime st1 st2 =
     (if sint (st_mtime st1) < sint (st_mtime st2) then CMP_LT
      else if sint (st_mtime st1) > sint (st_mtime st2) then CMP_GT else CMP_EQ)"

definition compare_mode :: "stat \<Rightarrow> stat \<Rightarrow> cmp_e" where
  "compare_mode st1 st2 =
     (if st_mode st1 < st_mode st2 then CMP_LT else if st_mode st1 > st_mode st2 then CMP_GT else CMP_EQ)"

lemma compare_eq_iff:
  "compare_dev a b = CMP_EQ \<longleftrightarrow> st_dev a = st_dev b"
  "compare_atime a b = CMP_EQ \<longleftrightarrow> st_atime a = st_atime b"
  "compare_ino a b = CMP_EQ \<longleftrightarrow> st_ino a = st_ino b"
  "compare_size a b = CMP_EQ \<longleftrightarrow> st_size a = st_size b"
  "compare_mtime a b = CMP_EQ \<longleftrightarrow> st_mtime a = st_mtime b"
  "compare_mode a b = CMP_EQ \<longleftrightarrow> st_mode a = st_mode b"
  by (auto simp: compare_dev_def compare_atime_def compare_ino_def compare_size_def
      compare_mtime_def compare_mode_def not_less intro: signed_word_eqI [OF sym])

text \<open>\<open>while (i--) if (diffs[i].result != CMP_EQ) return diffs[i].mask;\<close>\<close>

fun scan_diffs :: "(cmp_e \<times> u32) list \<Rightarrow> nat \<Rightarrow> u32" where
  "scan_diffs diffs 0 = 0"
| "scan_diffs diffs (Suc i) =
     (if fst (diffs ! i) \<noteq> CMP_EQ then snd (diffs ! i) else scan_diffs diffs i)"

definition cmp_stat :: "stat \<Rightarrow> stat \<Rightarrow> u32" where
  "cmp_stat st1 st2 = scan_diffs
     [(compare_atime st1 st2, EVENT_OPEN), (compare_dev st1 st2, EVENT_MODIFY),
      (compare_ino st1 st2, EVENT_MODIFY), (compare_mode st1 st2, EVENT_MODIFY),
      (compare_mtime st1 st2, EVENT_MODIFY), (compare_size st1 st2, EVENT_MODIFY)] 6"

lemma cmp_stat_cases:
  "cmp_stat a b =
     (if st_dev a = st_dev b \<and> st_ino a = st_ino b \<and> st_mode a = st_mode b \<and>
         st_mtime a = st_mtime b \<and> st_size a = st_size b
      then if st_atime a = st_atime b then 0 else EVENT_OPEN
      else EVENT_MODIFY)"
  by (simp add: cmp_stat_def compare_eq_iff numeral_eq_Suc)

section \<open>Starting a history\<close>

definition stat_call :: "world \<Rightarrow> bytes \<Rightarrow> state \<Rightarrow> stat option \<times> state" where
  "stat_call w path s =
     (let (r, s) = lstat w path s in (case r of Stat st \<Rightarrow> Some st | _ \<Rightarrow> None, count_stat s))"

definition fs_target_event_push ::
  "allocator \<Rightarrow> event seq cptr \<Rightarrow> event \<Rightarrow> state \<Rightarrow> (event seq \<times> bool \<times> state) res" where
  "fs_target_event_push al events event s =
     (let s = count_event s in
      bind_res (deref events) (\<lambda>events.
        map_res (\<lambda>(events, ok). (events, ok, s)) (seq_push al events event)))"

text \<open>\<open>ref\<close> is what the caller's \<^verbatim>\<open>path\<close> pointer points to once the call has returned.\<close>

definition fs_target_event_init ::
  "world \<Rightarrow> bytes \<Rightarrow> path_ref \<Rightarrow> state \<Rightarrow> (event seq option \<times> state) res" where
  "fs_target_event_init w path ref s =
     (let (st, s) = stat_call w path s in
      case st of
        None \<Rightarrow> Inr (None, s)
      | Some st \<Rightarrow>
          bind_res (seq_create (heap w s) sizeof_event 12) (\<lambda>p.
            if p = Null then Inr (None, s)
            else
              let (now, s) = get_timestamp w s;
                  event = \<lparr>e_mask = EVENT_ACK, e_path = ref, e_at = now, e_st = st\<rparr> in
              map_res (\<lambda>(events, ok, s). (if ok then Some events else None, s))
                (fs_target_event_push (heap w s) p event s)))"

definition fs_target_latest_event :: "event seq \<Rightarrow> event option" where
  "fs_target_latest_event events = (if s_nmemb events = 0 then None else seq_tail events)"

section \<open>Detecting a change\<close>

definition file_stat :: "world \<Rightarrow> bytes \<Rightarrow> state \<Rightarrow> lstat_result \<times> state" where
  "file_stat w path s = lstat w path (count_stat s)"

text \<open>The string in the path buffer, as a callee of the C library reads it.\<close>

definition path_string :: "state \<Rightarrow> bytes res" where
  "path_string s = map_res (\<lambda>_. cstr (cur_path s)) (strlen (cur_path s))"

definition target_event_detect ::
  "world \<Rightarrow> event seq \<Rightarrow> event \<Rightarrow> state \<Rightarrow> (event seq \<times> state \<times> int) res" where
  "target_event_detect w events previous s =
     (let (now, s) = get_timestamp w s;
          event = \<lparr>e_mask = 0, e_path = Cur_Path, e_at = now, e_st = zero_stat\<rparr>;
          push = (\<lambda>event s.
            let s = count_event s in
            map_res (\<lambda>(events, ok). (events, s, if ok then 1 else - 1))
              (seq_push (heap w s) events event)) in
      bind_res (path_string s) (\<lambda>path.
        let (r, s) = file_stat w path s in
        case r of
          Stat sb \<Rightarrow>
            let mask = cmp_stat sb (e_st previous) in
            if mask \<noteq> 0 then push (event\<lparr>e_mask := mask, e_st := sb\<rparr>) s
            else Inr (events, s, 0)
        | EACCES \<Rightarrow> push (event\<lparr>e_mask := EVENT_FAIL\<rparr>) s
        | _ \<Rightarrow> push (event\<lparr>e_mask := EVENT_DELETE\<rparr>) s))"

definition event_label :: "u32 \<Rightarrow> string" where
  "event_label m =
     (if m = EVENT_ACK then ''ACK''
      else if m = EVENT_ACCESS then ''ACCESS''
      else if m = EVENT_CREATE then ''CREATE''
      else if m = EVENT_DELETE then ''DELETE''
      else if m = EVENT_MODIFY then ''MODIFY''
      else if m = EVENT_OPEN then ''OPEN''
      else if m = EVENT_FAIL then ''FAIL''
      else ''UNKNOWN'')"

fun resolve_path :: "path_ref \<Rightarrow> state \<Rightarrow> bytes res" where
  "resolve_path Cur_Path s = path_string s"
| "resolve_path (Argument p) s = Inr p"
| "resolve_path Freed_Path s = Inl Use_After_Free"

definition print_fs_target_event :: "event \<Rightarrow> state \<Rightarrow> state res" where
  "print_fs_target_event event s =
     map_res (\<lambda>path. s\<lparr>reports := \<lparr>r_path = path, r_label = event_label (e_mask event),
         r_uid = fuid_create (e_st event), r_at = e_at event, r_mtime = st_mtime (e_st event)\<rparr> # reports s\<rparr>)
       (resolve_path (e_path event) s)"

definition fs_target_event_track :: "world \<Rightarrow> event seq \<Rightarrow> state \<Rightarrow> (event seq \<times> state \<times> bool) res" where
  "fs_target_event_track w events s =
     (case fs_target_latest_event events of
        None \<Rightarrow> Inr (events, s, False)
      | Some latest_event \<Rightarrow>
          bind_res (target_event_detect w events latest_event s) (\<lambda>(events, s, result).
            if result = 0 then Inr (events, s, True)
            else
              case fs_target_latest_event events of
                None \<Rightarrow> Inr (events, s, False)
              | Some latest_event \<Rightarrow>
                  map_res (\<lambda>s. (events, s, True)) (print_fs_target_event latest_event s)))"

section \<open>Histories\<close>

text \<open>What every live target's event array satisfies.\<close>

definition history_ok :: "event seq \<Rightarrow> bool" where
  "history_ok evs \<longleftrightarrow> seq_small evs \<and> s_elt_size evs = sizeof_event \<and> 2016 \<le> unat (s_cap evs) \<and>
     s_items evs \<noteq> [] \<and> list_all (\<lambda>e. e_path e = Cur_Path) (tl (s_items evs)) \<and> \<not> s_settled evs"

text \<open>One more event is not refused: the heap grants it, and its bytes stay below a gigabyte.\<close>

definition assured :: "world \<Rightarrow> event seq \<Rightarrow> bool" where
  "assured w evs \<longleftrightarrow> (\<forall>t n. grants (w_alloc w t) n) \<and>
     (length (s_items evs) + 1) * unat sizeof_event < 2 ^ 30"

text \<open>The mask of the event a result of \<^verbatim>\<open>lstat\<close> gives rise to; 0 is no event.\<close>

definition change_mask :: "stat \<Rightarrow> lstat_result \<Rightarrow> u32" where
  "change_mask previous r = (case r of
      Stat sb \<Rightarrow> cmp_stat sb previous
    | EACCES \<Rightarrow> EVENT_FAIL
    | _ \<Rightarrow> EVENT_DELETE)"

definition change_stat :: "lstat_result \<Rightarrow> stat" where
  "change_stat r = (case r of Stat sb \<Rightarrow> sb | _ \<Rightarrow> zero_stat)"

lemma event_masks [simp]:
  "EVENT_ACK = 2" "EVENT_ACCESS = 4" "EVENT_CREATE = 8" "EVENT_DELETE = 16" "EVENT_MODIFY = 32"
  "EVENT_OPEN = 64" "EVENT_FAIL = 128"
  by (simp_all add: EVENT_ACK_def EVENT_ACCESS_def EVENT_CREATE_def EVENT_DELETE_def
      EVENT_MODIFY_def EVENT_OPEN_def EVENT_FAIL_def)

lemma fs_target_latest_event_eq:
  assumes "history_ok evs"
  shows "fs_target_latest_event evs = Some (last (s_items evs))"
  using assms seq_wf_bounds(2) [of evs]
  by (auto simp: fs_target_latest_event_def seq_tail_def history_ok_def seq_small_def)

definition path_ready :: "state \<Rightarrow> bool" where
  "path_ready s \<longleftrightarrow> 0 \<in> set (cur_path s)"

lemma path_string_eq: "path_ready s \<Longrightarrow> path_string s = Inr (cstr (cur_path s))"
  by (simp add: path_string_def path_ready_def strlen_def)

text \<open>The event that a change appends.\<close>

definition change_event :: "world \<Rightarrow> stat \<Rightarrow> state \<Rightarrow> event" where
  "change_event w previous s =
     (let r = w_lstat w (clock s + 1) (cstr (cur_path s)) in
      \<lparr>e_mask = change_mask previous r, e_path = Cur_Path, e_at = fst (get_timestamp w s),
       e_st = change_stat r\<rparr>)"

lemma target_event_detect_spec:
  fixes w :: world and s :: state
  assumes ready: "path_ready s"
  defines "r \<equiv> w_lstat w (clock s + 1) (cstr (cur_path s))"
  shows "target_event_detect w evs previous s =
    (let s' = count_stat (s\<lparr>clock := clock s + 2\<rparr>) in
     if change_mask (e_st previous) r = 0 then Inr (evs, s', 0)
     else map_res (\<lambda>(evs, ok). (evs, count_event s', if ok then 1 else - 1))
       (seq_push (w_alloc w (clock s + 2)) evs (change_event w (e_st previous) s)))"
  unfolding target_event_detect_def path_string_eq [OF ready]
  using ready
  by (cases r)
       (auto simp: r_def Let_def get_timestamp_def lstat_def file_stat_def path_string_eq path_ready_def tick_def
        count_stat_def count_event_def heap_def change_mask_def change_stat_def change_event_def
        path_string_def strlen_def
        split: prod.splits lstat_result.splits)

text \<open>The line that reports an event found at a path.\<close>

definition report_of :: "bytes \<Rightarrow> event \<Rightarrow> report" where
  "report_of path e = \<lparr>r_path = path, r_label = event_label (e_mask e), r_uid = fuid_create (e_st e),
     r_at = e_at e, r_mtime = st_mtime (e_st e)\<rparr>"

text \<open>What one tracking call does to a history and to the state.\<close>

definition tracked :: "world \<Rightarrow> event seq \<Rightarrow> state \<Rightarrow> event seq \<Rightarrow> state \<Rightarrow> bool" where
  "tracked w evs s evs' s' \<longleftrightarrow>
     (let previous = e_st (last (s_items evs)); e = change_event w previous s in
      history_ok evs' \<and> cur_path s' = cur_path s \<and> clock s \<le> clock s' \<and>
      (if e_mask e = 0 then evs' = evs \<and> reports s' = reports s
       else (\<exists>line. reports s' = line # reports s \<and> r_path line = cstr (cur_path s) \<and>
           r_label line = event_label (e_mask (last (s_items evs')))) \<and>
         (s_items evs' = s_items evs @ [e] \<or>
          s_items evs' = s_items evs \<and> length (s_items evs) \<noteq> 1 \<and> \<not> assured w evs)))"

lemma history_ok_push:
  assumes "history_ok evs" and "e_path e = Cur_Path"
  obtains evs' ok where "seq_push al evs e = Inr (evs', ok)" and "history_ok evs'"
    and "s_items evs' = (if ok then s_items evs @ [e] else s_items evs)"
    and "length (s_items evs) = 1 \<Longrightarrow> ok"
    and "(\<And>n. grants al n) \<Longrightarrow> (length (s_items evs) + 1) * unat sizeof_event < 2 ^ 30 \<Longrightarrow> ok"
proof -
  obtain evs' ok where push: "seq_push al evs e = Inr (evs', ok)" and small: "seq_small evs'"
    and cap: "unat (s_cap evs) \<le> unat (s_cap evs')"
    and room: "(length (s_items evs) + 1) * unat (s_elt_size evs) < unat (s_cap evs) \<Longrightarrow> ok"
    using seq_push_small [of evs al e] assms(1) unfolding history_ok_def by metis
  have items: "s_items evs' = (if ok then s_items evs @ [e] else s_items evs)"
    and elt: "s_elt_size evs' = s_elt_size evs" "s_settled evs' = s_settled evs"
    using seq_push_items [OF push] by simp_all
  have "history_ok evs'"
    using assms small cap items elt by (auto simp: history_ok_def)
  moreover have "length (s_items evs) = 1 \<Longrightarrow> ok"
    using room assms(1) by (simp add: history_ok_def sizeof_event_def)
  moreover have ok if "\<And>n. grants al n" "(length (s_items evs) + 1) * unat sizeof_event < 2 ^ 30"
    using seq_push_room [of evs al e] assms(1) that push by (auto simp: history_ok_def)
  ultimately show thesis
    using that push items by blast
qed

lemma last_resolves:
  assumes "history_ok evs" and "length (s_items evs) \<noteq> 1" and "path_ready s"
  shows "resolve_path (e_path (last (s_items evs))) s = Inr (cstr (cur_path s))"
proof -
  obtain x xs where "s_items evs = x # xs" "xs \<noteq> []"
    using assms(1,2) by (cases "s_items evs") (auto simp: history_ok_def)
  then have "last (s_items evs) \<in> set (tl (s_items evs))"
    by simp
  then show ?thesis
    using assms path_string_eq by (auto simp: history_ok_def list_all_iff)
qed

lemma fs_target_event_track_ok:
  assumes hist: "history_ok evs" and ready: "path_ready s"
  obtains evs' s' where "fs_target_event_track w evs s = Inr (evs', s', True)"
    and "tracked w evs s evs' s'"
    and "e_mask (change_event w (e_st (last (s_items evs))) s) \<noteq> 0 \<Longrightarrow>
      reports s' = report_of (cstr (cur_path s)) (last (s_items evs')) # reports s"
proof -
  let ?prev = "e_st (last (s_items evs))" and ?e = "change_event w (e_st (last (s_items evs))) s"
  define s1 where "s1 = count_stat (s\<lparr>clock := clock s + 2\<rparr>)"
  have mask: "e_mask ?e = change_mask ?prev (w_lstat w (clock s + 1) (cstr (cur_path s)))"
    by (simp add: change_event_def Let_def)
  have s1: "cur_path s1 = cur_path s" "clock s1 = clock s + 2" "reports s1 = reports s"
    by (simp_all add: s1_def count_stat_def)
  note detect = target_event_detect_spec [OF ready, of w evs "last (s_items evs)"]
  show thesis
  proof (cases "e_mask ?e = 0")
    case True
    then have "fs_target_event_track w evs s = Inr (evs, s1, True)"
      using detect mask by (simp add: fs_target_event_track_def fs_target_latest_event_eq [OF hist] s1_def)
    then show thesis
      using that True s1 hist by (simp add: tracked_def Let_def)
  next
    case False
    have path: "e_path ?e = Cur_Path"
      by (simp add: change_event_def Let_def)
    obtain evs' ok where push: "seq_push (w_alloc w (clock s + 2)) evs ?e = Inr (evs', ok)"
      and h': "history_ok evs'" and items: "s_items evs' = (if ok then s_items evs @ [?e] else s_items evs)"
      and single: "length (s_items evs) = 1 \<Longrightarrow> ok"
      and granted: "(\<And>n. grants (w_alloc w (clock s + 2)) n) \<Longrightarrow>
        (length (s_items evs) + 1) * unat sizeof_event < 2 ^ 30 \<Longrightarrow> ok"
      using history_ok_push [OF hist path, of "w_alloc w (clock s + 2)"] by blast
    define s2 where "s2 = count_event s1"
    have s2: "cur_path s2 = cur_path s" "clock s2 = clock s + 2" "reports s2 = reports s"
      using s1 by (simp_all add: s2_def count_event_def)
    have ready2: "path_ready s2"
      using ready s2 by (simp add: path_ready_def)
    have "length (s_items evs') \<noteq> 1"
      using items single hist by (auto simp: history_ok_def)
    then have res: "resolve_path (e_path (last (s_items evs'))) s2 = Inr (cstr (cur_path s))"
      using last_resolves [OF h' _ ready2] s2 by simp
    have "fs_target_event_track w evs s =
        map_res (\<lambda>s. (evs', s, True)) (print_fs_target_event (last (s_items evs')) s2)"
      using detect mask False push
      by (simp add: fs_target_event_track_def fs_target_latest_event_eq [OF hist]
          fs_target_latest_event_eq [OF h'] s1_def s2_def)
    then obtain s' where "fs_target_event_track w evs s = Inr (evs', s', True)"
      and "cur_path s' = cur_path s" "clock s' = clock s + 2"
      and "reports s' = report_of (cstr (cur_path s)) (last (s_items evs')) # reports s"
      using res s2 by (simp add: print_fs_target_event_def report_of_def)
    moreover have "assured w evs \<Longrightarrow> ok"
      using granted by (simp add: assured_def)
    ultimately show thesis
      using that False h' items single
      by (cases "length (s_items evs) = 1"; cases ok) (auto simp: tracked_def Let_def report_of_def)
  qed
qed
end
