(* ===== verification/Snapshot.thy ===== *)
theory Snapshot
  imports Event
begin

text \<open>
  Building and releasing the tree of targets: \<^verbatim>\<open>daemon/srcs/fs/fs_target.c\<close>. The recursion
  of \<open>fs_target_create\<close> follows what the directory streams return, so it carries fuel (one
  unit per level of directories); \<open>create_within\<close> gives an amount that suffices when
  paths have a bounded depth.
\<close>

section \<open>Paths of children\<close>

text \<open>
  \<^verbatim>\<open>attach\<close>: the block is zeroed, then filled from the front; NULL when it is not granted.
  Both strings are in memory, so the sum of their lengths does not wrap.
\<close>

definition attach :: "allocator \<Rightarrow> bytes \<Rightarrow> bytes \<Rightarrow> bytes cptr res" where
  "attach al dirname name =
     (let size = length dirname + length name + 2 in
      if \<not> grants al (of_nat size) then Inr Null
      else
        let dest = replicate size 0 in
        bind_res
          (if dirname \<noteq> [46] then
             bind_res (store_name dest 0 dirname) (\<lambda>(dest, p).
               if dirname \<noteq> [] \<and> last dirname \<noteq> SLASH
               then map_res (\<lambda>dest. (dest, p + 1)) (store_byte dest p SLASH)
               else Inr (dest, p))
           else Inr (dest, 0)) (\<lambda>(dest, p).
        map_res (\<lambda>(dest, p). Ptr dest) (store_name dest p name)))"

text \<open>The string it builds.\<close>

definition join_path :: "bytes \<Rightarrow> bytes \<Rightarrow> bytes" where
  "join_path dirname name =
     (if dirname = [46] then name
      else if dirname \<noteq> [] \<and> last dirname \<noteq> SLASH then dirname @ SLASH # name
      else dirname @ name)"

section \<open>Directory streams\<close>

text \<open>
  The entries \<^verbatim>\<open>readdir\<close> will still return; the result of \<open>directory_next_entry\<close> is
  \<open>None\<close> at the end of the stream, and it skips the entries \<^verbatim>\<open>.\<close> and \<^verbatim>\<open>..\<close>.
\<close>

fun directory_next_entry :: "bytes list \<Rightarrow> state \<Rightarrow> bytes option \<times> bytes list \<times> state" where
  "directory_next_entry [] s = (None, [], count_readdir (tick s))"
| "directory_next_entry (d_name # dir) s =
     (let s = count_readdir (tick s) in
      if d_name = [46] \<or> d_name = [46, 46] then directory_next_entry dir s
      else (Some d_name, dir, s))"

definition directory_open :: "world \<Rightarrow> bytes \<Rightarrow> state \<Rightarrow> bytes list option \<times> state" where
  "directory_open w path s = (w_readdir w (clock s) path, count_opendir (tick s))"

section \<open>Children\<close>

definition fs_target_children_count :: "fs_target \<Rightarrow> u64 res" where
  "fs_target_children_count target =
     (if f_type (t_info target) \<noteq> directory then Inr 0
      else case t_children target of
        No_Kids \<Rightarrow> Inl Hardened_Check
      | Dangling_Kids \<Rightarrow> Inl Use_After_Free
      | Kids ps cap \<Rightarrow> Inr (of_nat (length ps)))"

definition fs_target_children_get :: "fs_target \<Rightarrow> u64 \<Rightarrow> fs_target cptr res" where
  "fs_target_children_get target index =
     (if f_type (t_info target) \<noteq> directory then Inr Null
      else
        bind_res (fs_target_children_count target) (\<lambda>count.
          if count = 0 \<or> index \<ge> count then Inr Null
          else case t_children target of
            No_Kids \<Rightarrow> Inl Hardened_Check
          | Dangling_Kids \<Rightarrow> Inl Use_After_Free
          | Kids ps cap \<Rightarrow> Inr (ps ! unat index)))"

fun kids_of_seq :: "'p seq cptr \<Rightarrow> 'p kids" where
  "kids_of_seq Null = No_Kids"
| "kids_of_seq Dangling = Dangling_Kids"
| "kids_of_seq (Ptr ps) = Kids (s_items ps) (s_cap ps)"

definition fs_target_children_init :: "allocator \<Rightarrow> (fs_target cptr kids \<times> bool) res" where
  "fs_target_children_init al =
     map_res (\<lambda>p. (kids_of_seq p, p \<noteq> Null)) (seq_create al sizeof_pointer 12)"

text \<open>The array of pointers behind \<open>Kids\<close>: eight bytes per element, never settled.\<close>

definition kids_seq :: "'p list \<Rightarrow> u64 \<Rightarrow> 'p seq" where
  "kids_seq ps cap = \<lparr>s_items = ps, s_cap = cap, s_elt_size = sizeof_pointer, s_settled = False\<rparr>"

definition fs_target_children_push ::
  "allocator \<Rightarrow> fs_target cptr kids \<Rightarrow> fs_target cptr \<Rightarrow> (fs_target cptr kids \<times> bool) res" where
  "fs_target_children_push al kids other =
     (if other = Null then Inr (kids, False)
      else case kids of
        No_Kids \<Rightarrow> Inl Hardened_Check
      | Dangling_Kids \<Rightarrow> Inl Use_After_Free
      | Kids ps cap \<Rightarrow>
          map_res (\<lambda>(ps, ok). (Kids (s_items ps) (s_cap ps), ok)) (seq_push al (kids_seq ps cap) other))"

section \<open>Releasing a tree\<close>

text \<open>What is handed to \<^verbatim>\<open>free\<close>, in order.\<close>

datatype released = Name bytes | Child_Array | Node u64

function fs_target_dealloc :: "fs_target \<Rightarrow> released list res"
  and dealloc_children :: "fs_target cptr list \<Rightarrow> released list res" where
  "fs_target_dealloc (Target info evs kids) =
     map_res (\<lambda>freed. Name (f_name info) # freed @ [Node (f_uid info)])
       (case kids of
          No_Kids \<Rightarrow> Inr []
        | Dangling_Kids \<Rightarrow> if f_type info \<noteq> directory then Inr [] else Inl Use_After_Free
        | Kids ps cap \<Rightarrow>
            if f_type info \<noteq> directory \<or> ps = [] then Inr []
            else map_res (\<lambda>freed. freed @ [Child_Array]) (dealloc_children ps))"
| "dealloc_children [] = Inr []"
| "dealloc_children (p # ps) =
     bind_res (case p of Null \<Rightarrow> Inr [] | Dangling \<Rightarrow> Inl Use_After_Free | Ptr t \<Rightarrow> fs_target_dealloc t)
       (\<lambda>freed. map_res (\<lambda>rest. freed @ rest) (dealloc_children ps))"
  by pat_completeness auto
termination
  by (relation "measure (case_sum size (size_list (size_cptr size)))") auto

section \<open>Taking a snapshot\<close>

lemma directory_next_entry_shorter:
  "directory_next_entry dir s = (Some d, dir', s') \<Longrightarrow> length dir' < length dir"
  by (induction dir s rule: directory_next_entry.induct) (auto simp: Let_def split: if_splits)

text \<open>
  The loop of \<^verbatim>\<open>handle_children\<close>. \<open>create\<close> is \<open>fs_target_create\<close> on the child's path, whose
  string is released right after; a path that could not be built makes it return NULL.
\<close>

function handle_entries ::
  "(bytes \<Rightarrow> state \<Rightarrow> (fs_target cptr \<times> state) res) \<Rightarrow> world \<Rightarrow> bytes \<Rightarrow> bytes list \<Rightarrow>
   fs_target cptr kids \<Rightarrow> state \<Rightarrow> (fs_target cptr kids \<times> state) res"
where
  "handle_entries create w path dir kids s =
     (case directory_next_entry dir s of
        (None, _, s) \<Rightarrow> Inr (kids, s)
      | (Some d_name, dir, s) \<Rightarrow>
          bind_res (attach (heap w s) path d_name) (\<lambda>child_path.
          bind_res
            (if child_path = Null then Inr (Null, s)
             else bind_res (deref child_path) (\<lambda>buf. create (cstr buf) s)) (\<lambda>(child, s).
          bind_res (fs_target_children_push (heap w s) kids child) (\<lambda>(kids, ok).
            handle_entries create w path dir kids s))))"
  by pat_completeness auto
termination
  by (relation "measure (\<lambda>(create, w, path, dir, kids, s). length dir)")
     (auto dest: directory_next_entry_shorter [OF sym])

declare handle_entries.simps [simp del]

text \<open>The target it leaves behind: released when the directory could not be opened.\<close>

definition handle_children ::
  "(bytes \<Rightarrow> state \<Rightarrow> (fs_target cptr \<times> state) res) \<Rightarrow> world \<Rightarrow> bytes \<Rightarrow> target_info \<Rightarrow> event seq \<Rightarrow>
   state \<Rightarrow> (fs_target cptr \<times> state) res"
where
  "handle_children create w path info evs s =
     bind_res (fs_target_children_init (heap w s)) (\<lambda>(kids, ok).
       if \<not> ok then Inr (Ptr (Target info evs kids), s)
       else
         case directory_open w path s of
           (None, s) \<Rightarrow> map_res (\<lambda>freed. (Dangling, s)) (fs_target_dealloc (Target info evs kids))
         | (Some dir, s) \<Rightarrow>
             map_res (\<lambda>(kids, s). (Ptr (Target info evs kids), count_closedir (tick s)))
               (handle_entries create w path dir kids s))"

text \<open>The first \<^verbatim>\<open>lstat\<close>: a failure is logged, and the zeroed status is used all the same.\<close>

definition sys_lstat_exec :: "world \<Rightarrow> bytes \<Rightarrow> state \<Rightarrow> bool \<times> stat \<times> state" where
  "sys_lstat_exec w path s =
     (let (r, s) = lstat w path s in
      (True, case r of Stat st \<Rightarrow> st | _ \<Rightarrow> zero_stat, count_stat s))"

text \<open>The block is cleared before it is tested.\<close>

definition fs_target_alloc :: "allocator \<Rightarrow> bool res" where
  "fs_target_alloc al = (if grants al sizeof_target then Inr True else Inl Null_Dereference)"

text \<open>The information, what \<^verbatim>\<open>basename\<close> left of the path, and whether the name was duplicated.\<close>

text \<open>Here the path is in memory that may be written.\<close>

definition fs_target_set_info :: "allocator \<Rightarrow> bytes \<Rightarrow> stat \<Rightarrow> target_info \<times> bytes \<times> bool" where
  "fs_target_set_info al path st =
     (let (base, path) = basename path in
      (\<lparr>f_uid = fuid_create st, f_type = filetype_of (st_mode st), f_name = base, f_ok = True\<rparr>,
       path, grants al (of_nat (length base) + 1)))"

fun fs_target_create ::
  "world \<Rightarrow> nat \<Rightarrow> bytes \<Rightarrow> (bytes \<Rightarrow> path_ref) \<Rightarrow> state \<Rightarrow> (fs_target cptr \<times> state) res"
where
  "fs_target_create w 0 path ref s = Inl Out_Of_Fuel"
| "fs_target_create w (Suc fuel) path ref s =
     (let (ok, st, s) = sys_lstat_exec w path s in
      if \<not> ok then Inr (Null, s)
      else
        bind_res (fs_target_alloc (heap w s)) (\<lambda>ok.
          if \<not> ok then Inr (Null, s)
          else
            let (info, path, ok) = fs_target_set_info (heap w s) path st in
            if \<not> ok then Inr (Null, s)
            else
              bind_res (fs_target_event_init w path (ref path) s) (\<lambda>(evs, s).
                case evs of
                  None \<Rightarrow> Inr (Null, s)
                | Some evs \<Rightarrow>
                    map_res (\<lambda>(target, s). (target, count_target s))
                      (if f_type info = directory
                       then handle_children (\<lambda>path s. fs_target_create w fuel path (\<lambda>_. Freed_Path) s)
                              w path info evs s
                       else Inr (Ptr (Target info evs No_Kids), s)))))"

lemmas create_defs = sys_lstat_exec_def fs_target_alloc_def fs_target_set_info_def lstat_def Let_def

fun fs_target_delete :: "fs_target cptr \<Rightarrow> released list res" where
  "fs_target_delete Null = Inr []"
| "fs_target_delete Dangling = Inl Use_After_Free"
| "fs_target_delete (Ptr entry) = fs_target_dealloc entry"

text \<open>\<^verbatim>\<open>fs_target_print\<close>: one line per target, its depth and name.\<close>

function fs_target_print :: "fs_target cptr \<Rightarrow> bytes option \<Rightarrow> nat \<Rightarrow> (nat \<times> bytes) list res"
  and print_children :: "fs_target cptr list \<Rightarrow> bytes option \<Rightarrow> nat \<Rightarrow> (nat \<times> bytes) list res" where
  "fs_target_print Null initial_path depth = Inr []"
| "fs_target_print Dangling initial_path depth =
     (if initial_path = None then Inr [] else Inl Use_After_Free)"
| "fs_target_print (Ptr (Target info evs kids)) initial_path depth =
     (if initial_path = None then Inr []
      else
        map_res (\<lambda>lines. (depth, f_name info) # lines)
          (if f_type info \<noteq> directory then Inr []
           else case kids of
             No_Kids \<Rightarrow> Inl Hardened_Check
           | Dangling_Kids \<Rightarrow> Inl Use_After_Free
           | Kids ps cap \<Rightarrow> print_children ps initial_path (depth + 1)))"
| "print_children [] initial_path depth = Inr []"
| "print_children (p # ps) initial_path depth =
     bind_res (fs_target_print p initial_path depth) (\<lambda>lines.
       map_res (\<lambda>rest. lines @ rest) (print_children ps initial_path depth))"
  by pat_completeness auto
termination
  by (relation "measure (case_sum (\<lambda>(p, i, d). size_cptr size p)
        (\<lambda>(ps, i, d). size_list (size_cptr size) ps))") auto

end
