(* ===== verification/Tree.thy ===== *)
theory Tree
  imports Snapshot
begin

text \<open>
  Predicates and measures on trees of targets, and what \<open>fs_target_create\<close> builds: on a
  system that grants memory and opens every directory it returns a live tree.
\<close>

section \<open>Live trees\<close>

text \<open>Every pointer of the tree is live, every history is in order, every name is a string.\<close>

function (sequential) live :: "fs_target cptr \<Rightarrow> bool" and live_all :: "fs_target cptr list \<Rightarrow> bool" where
  "live (Ptr (Target info evs kids)) \<longleftrightarrow>
     history_ok evs \<and> is_cstr (f_name info) \<and>
     (if f_type info = directory then (case kids of Kids ps cap \<Rightarrow> live_all ps | _ \<Rightarrow> False)
      else kids = No_Kids)"
| "live _ \<longleftrightarrow> False"
| "live_all [] \<longleftrightarrow> True"
| "live_all (p # ps) \<longleftrightarrow> live p \<and> live_all ps"
  by pat_completeness auto
termination
  by (relation "measure (case_sum (size_cptr size) (size_list (size_cptr size)))") auto

text \<open>Every path of the tree, terminator included, fits a buffer of \<open>n\<close> bytes.\<close>

function (sequential) path_fits :: "nat \<Rightarrow> bytes \<Rightarrow> fs_target cptr \<Rightarrow> bool"
  and paths_fit :: "nat \<Rightarrow> bytes \<Rightarrow> fs_target cptr list \<Rightarrow> bool" where
  "path_fits n path (Ptr (Target info evs kids)) \<longleftrightarrow>
     length (enter path (f_name info)) < n \<and>
     (case kids of Kids ps cap \<Rightarrow> paths_fit n (enter path (f_name info)) ps | _ \<Rightarrow> True)"
| "path_fits n path _ \<longleftrightarrow> True"
| "paths_fit n path [] \<longleftrightarrow> True"
| "paths_fit n path (p # ps) \<longleftrightarrow> path_fits n path p \<and> paths_fit n path ps"
  by pat_completeness auto
termination
  by (relation "measure (case_sum (\<lambda>(n, path, p). size_cptr size p)
        (\<lambda>(n, path, ps). size_list (size_cptr size) ps))") auto

text \<open>The same tree, each history extended by one event at most.\<close>

function (sequential) grown :: "fs_target cptr \<Rightarrow> fs_target cptr \<Rightarrow> bool"
  and grown_all :: "fs_target cptr list \<Rightarrow> fs_target cptr list \<Rightarrow> bool" where
  "grown (Ptr (Target info evs kids)) (Ptr (Target info' evs' kids')) \<longleftrightarrow>
     info' = info \<and> take (length (s_items evs)) (s_items evs') = s_items evs \<and>
     length (s_items evs') \<le> length (s_items evs) + 1 \<and>
     (case (kids, kids') of
        (Kids ps cap, Kids ps' cap') \<Rightarrow> cap' = cap \<and> grown_all ps ps'
      | _ \<Rightarrow> kids' = kids)"
| "grown p q \<longleftrightarrow> p = q"
| "grown_all (p # ps) (q # qs) \<longleftrightarrow> grown p q \<and> grown_all ps qs"
| "grown_all ps qs \<longleftrightarrow> ps = qs"
  by pat_completeness auto
termination
  by (relation "measure (case_sum (\<lambda>(p, q). size_cptr size p) (\<lambda>(ps, qs). size_list (size_cptr size) ps))") auto

function (sequential) node_count :: "fs_target cptr \<Rightarrow> nat" and nodes_count :: "fs_target cptr list \<Rightarrow> nat" where
  "node_count (Ptr (Target info evs kids)) = 1 + (case kids of Kids ps cap \<Rightarrow> nodes_count ps | _ \<Rightarrow> 0)"
| "node_count _ = 0"
| "nodes_count [] = 0"
| "nodes_count (p # ps) = node_count p + nodes_count ps"
  by pat_completeness auto
termination
  by (relation "measure (case_sum (size_cptr size) (size_list (size_cptr size)))") auto

lemma grown_refl: "grown p p" and grown_all_refl: "grown_all ps ps"
  by (induction p and ps rule: node_count_nodes_count.induct) (auto split: kids.splits)

section \<open>What the path of a child is\<close>

lemma store_name_replicate:
  assumes "p = length pre" and "n = length cs + k"
  shows "store_name (pre @ replicate n 0) p cs = Inr (pre @ cs @ replicate k 0, p + length cs)"
  using store_name_append [of "replicate (length cs) 0" cs p pre "replicate k 0"] assms
  by (simp add: replicate_add)

lemma attach_ok:
  assumes "grants al (of_nat (length d + length n + 2))"
  shows "\<exists>k. attach al d n = Inr (Ptr (join_path d n @ replicate (Suc k) 0))"
proof (cases "d = [46]")
  case True
  then show ?thesis
    using assms store_name_replicate [of 0 "[]" "length n + 3" n 3]
    by (intro exI [of _ 2]) (simp add: attach_def join_path_def Let_def numeral_eq_Suc)
next
  case False
  have d: "store_name (replicate (length d + length n + 2) 0) 0 d =
      Inr (d @ replicate (length n + 2) 0, length d)"
    using store_name_replicate [of 0 "[]" _ d "length n + 2"] by simp
  show ?thesis
  proof (cases "d \<noteq> [] \<and> last d \<noteq> SLASH")
    case True
    have "store_name (d @ SLASH # replicate (length n + 1) 0) (Suc (length d)) n =
        Inr ((d @ [SLASH]) @ n @ replicate 1 0, length d + 1 + length n)"
      using store_name_replicate [of "length d + 1" "d @ [SLASH]" "length n + 1" n 1] by simp
    then show ?thesis
      using assms False True d
      by (intro exI [of _ 0]) (auto simp: attach_def join_path_def Let_def store_byte_def list_update_append)
  next
    case False
    have "store_name (d @ replicate (length n + 2) 0) (length d) n =
        Inr (d @ n @ replicate 2 0, length d + length n)"
      by (rule store_name_replicate) simp_all
    then show ?thesis
      using assms False \<open>d \<noteq> [46]\<close> d
      by (intro exI [of _ 1]) (auto simp: attach_def join_path_def Let_def numeral_eq_Suc)
  qed
qed

lemma attach_cases:
  assumes "is_cstr d" and "is_cstr n"
  shows "if grants al (of_nat (length d + length n + 2))
    then \<exists>buf. attach al d n = Inr (Ptr buf) \<and> cstr buf = join_path d n
    else attach al d n = Inr Null"
proof -
  have "is_cstr (join_path d n)"
    using assms by (simp add: join_path_def)
  then show ?thesis
    using attach_ok [of al d n] by (auto simp: attach_def Let_def cstr_append)
qed
section \<open>Creation on a system that cooperates\<close>

text \<open>
  Memory is granted, every directory can be opened, and \<open>rank\<close> bounds how many levels lie
  below a path (a file system has finitely many).
\<close>

definition friendly :: "world \<Rightarrow> (bytes \<Rightarrow> nat) \<Rightarrow> bool" where
  "friendly w rank \<longleftrightarrow> (\<forall>t n. grants (w_alloc w t) n) \<and>
     (\<forall>t q. \<exists>ds. w_readdir w t (snd (basename q)) = Some ds \<and>
        (\<forall>d \<in> set ds. is_cstr d \<and>
           (d \<notin> {[46], [46, 46]} \<longrightarrow> rank (join_path (snd (basename q)) d) < rank q)))"

text \<open>
  \<open>room\<close> bounds the length of the paths under which a target and what lies below it are
  observed: the base name, then one slash and the room of a child.
\<close>

definition roomy :: "world \<Rightarrow> (bytes \<Rightarrow> nat) \<Rightarrow> bool" where
  "roomy w room \<longleftrightarrow>
     (\<forall>q. length (fst (basename q)) \<le> room q \<and>
        (\<forall>t. case w_readdir w t (snd (basename q)) of
             None \<Rightarrow> True
           | Some ds \<Rightarrow> \<forall>d \<in> set ds. d \<notin> {[46], [46, 46]} \<longrightarrow>
               length (fst (basename q)) + 1 + room (join_path (snd (basename q)) d) \<le> room q))"

lemma roomy_child:
  assumes "roomy w room" and "basename path = (b, q)" and "w_readdir w t q = Some ds"
    and "d \<in> set ds" and "d \<notin> {[46], [46, 46]}"
  shows "length b + 1 + room (join_path q d) \<le> room path"
proof -
  have "\<forall>t. case w_readdir w t (snd (basename path)) of None \<Rightarrow> True | Some ds \<Rightarrow>
      \<forall>d \<in> set ds. d \<notin> {[46], [46, 46]} \<longrightarrow>
        length (fst (basename path)) + 1 + room (join_path (snd (basename path)) d) \<le> room path"
    using assms(1) unfolding roomy_def by blast
  then have "case w_readdir w t q of None \<Rightarrow> True | Some ds \<Rightarrow>
      \<forall>d \<in> set ds. d \<notin> {[46], [46, 46]} \<longrightarrow> length b + 1 + room (join_path q d) \<le> room path"
    unfolding assms(2) fst_conv snd_conv by (rule spec)
  then show ?thesis
    using assms(3-5) by simp
qed

text \<open>The longest path reached from \<open>path\<close> with \<open>r\<close> more bytes.\<close>

definition reach :: "bytes \<Rightarrow> nat \<Rightarrow> nat" where
  "reach path r = (if path = [] then r else length path + 1 + r)"

lemma reach_enter: "length b + 1 + r \<le> r' \<Longrightarrow> reach (enter path b) r \<le> reach path r'"
  by (auto simp: reach_def enter_def)

lemma length_enter: "length (enter path b) = reach path (length b)"
  by (simp add: reach_def enter_def)

lemma reach_mono: "r \<le> r' \<Longrightarrow> reach path r \<le> reach path r'"
  by (simp add: reach_def)

definition within :: "nat \<Rightarrow> fs_target cptr \<Rightarrow> bool" where
  "within r p \<longleftrightarrow> (\<forall>n path. reach path r < n \<longrightarrow> path_fits n path p)"

lemma paths_fit_all: "paths_fit n path ps \<longleftrightarrow> (\<forall>p \<in> set ps. path_fits n path p)"
  by (induction ps) auto

lemma within_Target:
  assumes "length (f_name info) \<le> r"
    and "\<And>ps cap. kids = Kids ps cap \<Longrightarrow> \<forall>p \<in> set ps. \<exists>r'. within r' p \<and> length (f_name info) + 1 + r' \<le> r"
  shows "within r (Ptr (Target info evs kids))"
  unfolding within_def
proof (intro allI impI)
  fix n path
  assume n: "reach path r < n"
  have "paths_fit n (enter path (f_name info)) ps" if kids: "kids = Kids ps cap" for ps cap
    unfolding paths_fit_all
  proof
    fix p
    assume "p \<in> set ps"
    then obtain r' where "within r' p" "length (f_name info) + 1 + r' \<le> r"
      using assms(2) [OF kids] by blast
    then show "path_fits n (enter path (f_name info)) p"
      using n reach_enter [of "f_name info" r' r path] by (simp add: within_def)
  qed
  moreover have "length (enter path (f_name info)) < n"
    using n reach_mono [OF assms(1), of path] by (simp add: length_enter)
  ultimately show "path_fits n path (Ptr (Target info evs kids))"
    by (cases kids) simp_all
qed

lemma directory_next_entry_set:
  "directory_next_entry dir s = (Some d, dir', s') \<Longrightarrow>
   d \<in> set dir \<and> set dir' \<subseteq> set dir \<and> d \<notin> {[46], [46, 46]}"
  by (induction dir s rule: directory_next_entry.induct) (auto simp: Let_def split: if_splits)

lemma basename_cstr:
  assumes "is_cstr p"
  shows "is_cstr (fst (basename p))" and "is_cstr (snd (basename p))"
proof -
  have "set (strip_slashes p) \<subseteq> set p"
    by (auto simp: strip_slashes_def dest: set_dropWhileD)
  then show "is_cstr (fst (basename p))" "is_cstr (snd (basename p))"
    using assms by (auto simp: basename_def is_cstr_def dest!: set_takeWhileD)
qed

definition kids_ok :: "fs_target cptr list \<Rightarrow> u64 \<Rightarrow> bool" where
  "kids_ok ps cap \<longleftrightarrow> live_all ps \<and> seq_small (kids_seq ps cap)"

lemma live_all_append [simp]: "live_all (ps @ qs) \<longleftrightarrow> live_all ps \<and> live_all qs"
  by (induction ps) auto

lemma children_push_ok:
  assumes "kids_ok ps cap" and "p = Null \<or> live p"
  obtains ps' cap' ok where "fs_target_children_push al (Kids ps cap) p = Inr (Kids ps' cap', ok)"
    and "kids_ok ps' cap'" and "ps' = ps \<or> p \<noteq> Null \<and> ps' = ps @ [p]"
proof (cases "p = Null")
  case True
  then show thesis
    using that [of ps cap False] assms(1) by (simp add: fs_target_children_push_def)
next
  case False
  obtain s' ok where push: "seq_push al (kids_seq ps cap) p = Inr (s', ok)" and small: "seq_small s'"
    using seq_push_small [of "kids_seq ps cap" al p] assms(1) unfolding kids_ok_def by metis
  have "s' = kids_seq (s_items s') (s_cap s')"
    using seq_push_items [OF push] by (simp add: kids_seq_def)
  moreover have "live_all (s_items s')"
    using seq_push_items [OF push] assms False by (auto simp: kids_seq_def kids_ok_def)
  ultimately have "kids_ok (s_items s') (s_cap s')"
    using small by (simp add: kids_ok_def)
  then show thesis
    using that [of "s_items s'" "s_cap s'" ok] push False seq_push_items [OF push]
    by (simp add: fs_target_children_push_def kids_seq_def)
qed

text \<open>
  The loop over the entries keeps any property \<open>Q\<close> of children that every created child has.
\<close>

lemma handle_entries_ok:
  assumes mem: "\<And>t n. grants (w_alloc w t) n" and path: "is_cstr path"
  shows "\<forall>d \<in> set dir. is_cstr d \<Longrightarrow>
    \<forall>d \<in> set dir. d \<notin> {[46], [46, 46]} \<longrightarrow>
       (\<forall>s. \<exists>p s'. create (join_path path d) s = Inr (p, s') \<and> (p = Null \<or> live p \<and> Q p)) \<Longrightarrow>
    kids_ok ps cap \<Longrightarrow> \<forall>p \<in> set ps. Q p \<Longrightarrow>
    \<exists>ps' cap' s'. handle_entries create w path dir (Kids ps cap) s = Inr (Kids ps' cap', s') \<and>
      kids_ok ps' cap' \<and> (\<forall>p \<in> set ps'. Q p)"
proof (induction dir arbitrary: ps cap s rule: measure_induct_rule [of length])
  case (less dir)
  obtain e dir' s1 where nxt: "directory_next_entry dir s = (e, dir', s1)"
    by (cases "directory_next_entry dir s") auto
  show ?case
  proof (cases e)
    case None
    then show ?thesis
      using nxt less.prems(3,4) by (simp add: handle_entries.simps [of _ _ _ dir])
  next
    case (Some d)
    note d = directory_next_entry_set [OF nxt [unfolded Some]]
    obtain buf where buf: "attach (heap w s1) path d = Inr (Ptr buf)" "cstr buf = join_path path d"
      using attach_cases [OF path, of d "heap w s1"] less.prems(1) d mem by (auto simp: heap_def)
    obtain p s2 where child: "create (join_path path d) s1 = Inr (p, s2)" "p = Null \<or> live p \<and> Q p"
      using less.prems(2) d by blast
    obtain ps1 cap1 ok where push: "fs_target_children_push (heap w s2) (Kids ps cap) p = Inr (Kids ps1 cap1, ok)"
      "kids_ok ps1 cap1" "ps1 = ps \<or> p \<noteq> Null \<and> ps1 = ps @ [p]"
      using children_push_ok [OF less.prems(3), of p] child(2) by metis
    have "\<forall>p \<in> set ps1. Q p"
      using push(3) less.prems(4) child(2) by auto
    then have "\<exists>ps' cap' s'. handle_entries create w path dir' (Kids ps1 cap1) s2 = Inr (Kids ps' cap', s') \<and>
        kids_ok ps' cap' \<and> (\<forall>p \<in> set ps'. Q p)"
      by (intro less.IH) (use directory_next_entry_shorter [OF nxt [unfolded Some]] less.prems(1,2) d push in auto)
    then show ?thesis
      using nxt Some buf child push by (simp add: handle_entries.simps [of _ _ _ dir])
  qed
qed

text \<open>A fresh event array holds the acknowledgement alone.\<close>

lemma seq_create_events:
  assumes "\<And>n. grants al n"
  shows "seq_create al sizeof_event 12 =
    Inr (Ptr \<lparr>s_items = [], s_cap = 2016, s_elt_size = sizeof_event, s_settled = False\<rparr>)"
proof -
  have "size_align (sizeof_event * 12) = 2016" "SIZE_T_SAFE_TO_MUL sizeof_event 12"
    by (code_simp, code_simp)
  then show ?thesis
    using assms by (simp add: seq_create_def sizeof_event_def)
qed

lemma event_init_ok:
  assumes mem: "\<And>t n. grants (w_alloc w t) n"
  shows "(\<exists>st evs s'. w_lstat w (clock s) path = Stat st \<and>
      fs_target_event_init w path ref s = Inr (Some evs, s') \<and> history_ok evs \<and>
      (\<exists>now. s_items evs = [\<lparr>e_mask = EVENT_ACK, e_path = ref, e_at = now, e_st = st\<rparr>])) \<or>
    (\<forall>st. w_lstat w (clock s) path \<noteq> Stat st) \<and> (\<exists>s'. fs_target_event_init w path ref s = Inr (None, s'))"
proof (cases "w_lstat w (clock s) path")
  case (Stat st)
  let ?s = "count_stat (tick s)"
  obtain now s1 where time: "get_timestamp w ?s = (now, s1)"
    by (cases "get_timestamp w ?s")
  let ?new = "\<lparr>s_items = [], s_cap = 2016, s_elt_size = sizeof_event, s_settled = False\<rparr> :: event seq"
  let ?e = "\<lparr>e_mask = EVENT_ACK, e_path = ref, e_at = now, e_st = st\<rparr>"
  have "seq_small ?new"
    by (simp add: seq_small_def seq_wf_def sizeof_event_def)
  then obtain evs ok where push: "seq_push (heap w s1) ?new ?e = Inr (evs, ok)"
    and small: "seq_small evs" and cap: "2016 \<le> unat (s_cap evs)" and okk: ok
    using seq_push_small [of ?new "heap w s1" ?e] by (auto simp: sizeof_event_def)
  have items: "s_items evs = [?e]" "s_elt_size evs = sizeof_event" "\<not> s_settled evs"
    using seq_push_items [OF push] okk by simp_all
  have "fs_target_event_init w path ref s = Inr (Some evs, count_event s1)"
    using Stat push okk time mem
    by (simp add: fs_target_event_init_def stat_call_def fs_target_event_push_def lstat_def Let_def seq_create_events heap_def)
  moreover have "history_ok evs"
    using small cap items by (simp add: history_ok_def)
  ultimately show ?thesis
    using Stat items by blast
qed (simp_all add: fs_target_event_init_def stat_call_def lstat_def Let_def)

lemma seq_create_kids:
  assumes "\<And>n. grants al n"
  obtains cap where "fs_target_children_init al = Inr (Kids [] cap, True)" and "kids_ok [] cap"
proof -
  have "size_align (sizeof_pointer * 12) = 96" "SIZE_T_SAFE_TO_MUL sizeof_pointer 12"
    by (code_simp, code_simp)
  then have "fs_target_children_init al = Inr (Kids [] 96, True)"
    using assms by (simp add: fs_target_children_init_def seq_create_def sizeof_pointer_def)
  moreover have "kids_ok [] 96"
    by (simp add: kids_ok_def kids_seq_def seq_small_def seq_wf_def sizeof_pointer_def)
  ultimately show thesis
    by (rule that)
qed

lemma create_within:
  assumes world: "friendly w rank"
  shows "is_cstr path \<Longrightarrow> rank path < n \<Longrightarrow>
    \<exists>p s'. fs_target_create w n path ref s = Inr (p, s') \<and>
      (p = Null \<or> live p \<and> (roomy w room \<longrightarrow> within (room path) p))"
proof (induction n arbitrary: path ref s)
  case (Suc n)
  have mem: "grants (w_alloc w t) k" for t k
    using world by (simp add: friendly_def)
  obtain b q where bq: "basename path = (b, q)"
    by (cases "basename path")
  let ?s = "count_stat (tick s)"
  define st where "st = (case w_lstat w (clock s) path of Stat st \<Rightarrow> st | _ \<Rightarrow> zero_stat)"
  define info where "info = \<lparr>f_uid = fuid_create st, f_type = filetype_of (st_mode st),
    f_name = b, f_ok = True\<rparr>"
  have base: "is_cstr b" "is_cstr q"
    using basename_cstr [OF Suc.prems(1)] bq by simp_all
  have len: "length b \<le> room path" if "roomy w room"
    using that bq unfolding roomy_def by (metis fst_conv)
  have run: "fs_target_create w (Suc n) path ref s =
     bind_res (fs_target_event_init w q (ref q) ?s) (\<lambda>(evs, s).
       case evs of
         None \<Rightarrow> Inr (Null, s)
       | Some evs \<Rightarrow>
           map_res (\<lambda>(target, s). (target, count_target s))
             (if f_type info = directory
              then handle_children (\<lambda>path s. fs_target_create w n path (\<lambda>_. Freed_Path) s)
                     w q info evs s
              else Inr (Ptr (Target info evs No_Kids), s)))"
    unfolding info_def st_def by (simp add: create_defs heap_def mem bq)
  show ?case
  proof (cases "\<exists>s'. fs_target_event_init w q (ref q) ?s = Inr (None, s')")
    case True
    then show ?thesis
      using run by (auto simp del: fs_target_create.simps)
  next
    case False
    then obtain evs s1 where init: "fs_target_event_init w q (ref q) ?s = Inr (Some evs, s1)"
      and hist: "history_ok evs"
      using event_init_ok [of w ?s q "ref q", OF mem] by blast
    show ?thesis
    proof (cases "f_type info = directory")
      case False
      have "within (room path) (Ptr (Target info evs No_Kids))" if "roomy w room"
        by (rule within_Target) (use len [OF that] in \<open>simp_all add: info_def\<close>)
      with False show ?thesis
        using run init hist base by (simp add: info_def del: fs_target_create.simps)
    next
      case True
      obtain cap where kids: "fs_target_children_init (heap w s1) = Inr (Kids [] cap, True)" "kids_ok [] cap"
        using seq_create_kids [of "heap w s1"] mem by (auto simp: heap_def)
      obtain ds where ds: "w_readdir w (clock s1) q = Some ds" "\<forall>d \<in> set ds. is_cstr d"
        "\<forall>d \<in> set ds. d \<notin> {[46], [46, 46]} \<longrightarrow> rank (join_path q d) < rank path"
        using world bq unfolding friendly_def by (metis snd_conv)
      let ?fits = "\<lambda>p. roomy w room \<longrightarrow> (\<exists>r. within r p \<and> length b + 1 + r \<le> room path)"
      have step: "length b + 1 + room (join_path q d) \<le> room path"
        if "d \<in> set ds" "d \<notin> {[46], [46, 46]}" "roomy w room" for d
        by (rule roomy_child [OF that(3) bq ds(1) that(1,2)])
      have child: "\<exists>p s'. fs_target_create w n (join_path q d) (\<lambda>_. Freed_Path) s = Inr (p, s') \<and>
          (p = Null \<or> live p \<and> ?fits p)" if d: "d \<in> set ds" "d \<notin> {[46], [46, 46]}" for d s
      proof -
        have j: "is_cstr (join_path q d)"
          using base ds(2) d by (simp add: join_path_def)
        have r: "rank (join_path q d) < n"
          using ds(3) d Suc.prems(2) by fastforce
        then obtain p s' where "fs_target_create w n (join_path q d) (\<lambda>_. Freed_Path) s = Inr (p, s')"
          "p = Null \<or> live p \<and> (roomy w room \<longrightarrow> within (room (join_path q d)) p)"
          using Suc.IH [OF j r] by blast
        then show ?thesis
          using step [OF d] by blast
      qed
      obtain ps cap' s2 where entries: "handle_entries (\<lambda>path s. fs_target_create w n path (\<lambda>_. Freed_Path) s)
          w q ds (Kids [] cap) (count_opendir (tick s1)) = Inr (Kids ps cap', s2)"
        and ok: "kids_ok ps cap'" and fits: "\<forall>p \<in> set ps. ?fits p"
        using handle_entries_ok [of w q ds "\<lambda>path s. fs_target_create w n path (\<lambda>_. Freed_Path) s" ?fits
            "[]" cap "count_opendir (tick s1)"] mem base ds(2) child kids(2) by auto
      have "within (room path) (Ptr (Target info evs (Kids ps cap')))" if "roomy w room"
        by (rule within_Target) (use len fits that in \<open>auto simp: info_def\<close>)
      then show ?thesis
        using run init True kids(1) ds(1) hist base entries ok
        by (simp add: handle_children_def directory_open_def kids_ok_def info_def del: fs_target_create.simps)
    qed
  qed
qed simp

lemma create_ok:
  assumes "friendly w rank" and "is_cstr path" and "rank path < n"
  shows "\<exists>p s'. fs_target_create w n path ref s = Inr (p, s') \<and> (p = Null \<or> live p)"
  using create_within [OF assms] by blast

section \<open>Creation leaves the current path and the output alone\<close>

definition same_view :: "state \<Rightarrow> state \<Rightarrow> bool" where
  "same_view s s' \<longleftrightarrow> cur_path s' = cur_path s \<and> reports s' = reports s"

lemma same_view_refl: "same_view s s"
  by (simp add: same_view_def)

lemma same_view_trans: "same_view s t \<Longrightarrow> same_view t u \<Longrightarrow> same_view s u"
  by (simp add: same_view_def)

lemma same_view_steps [simp]:
  "same_view s (tick t) \<longleftrightarrow> same_view s t" "same_view s (count_stat t) \<longleftrightarrow> same_view s t"
  "same_view s (count_opendir t) \<longleftrightarrow> same_view s t" "same_view s (count_closedir t) \<longleftrightarrow> same_view s t"
  "same_view s (count_readdir t) \<longleftrightarrow> same_view s t" "same_view s (count_event t) \<longleftrightarrow> same_view s t"
  "same_view s (count_target t) \<longleftrightarrow> same_view s t"
  "same_view (tick s) t \<longleftrightarrow> same_view s t" "same_view (count_stat s) t \<longleftrightarrow> same_view s t"
  "same_view (count_opendir s) t \<longleftrightarrow> same_view s t" "same_view (count_readdir s) t \<longleftrightarrow> same_view s t"
  by (simp_all add: same_view_def tick_def count_stat_def count_opendir_def count_closedir_def
      count_readdir_def count_event_def count_target_def)

lemma event_init_view:
  "fs_target_event_init w path ref s = Inr (evs, s') \<Longrightarrow> same_view s s'"
  by (auto simp: fs_target_event_init_def stat_call_def fs_target_event_push_def lstat_def get_timestamp_def Let_def bind_res_Inr_iff
      map_res_Inr_iff same_view_refl split: lstat_result.splits prod.splits if_splits)

lemma next_entry_view:
  "directory_next_entry dir s = (e, dir', s') \<Longrightarrow> same_view s s'"
  by (induction dir s rule: directory_next_entry.induct) (auto simp: Let_def same_view_refl split: if_splits)

text \<open>
  What the loop of \<open>handle_children\<close> keeps: a preorder \<open>R\<close> on the state that reading an entry and
  creating a child respect, and a property \<open>Q\<close> of the children.
\<close>

definition kids_all :: "('p \<Rightarrow> bool) \<Rightarrow> 'p kids \<Rightarrow> bool" where
  "kids_all Q kids \<longleftrightarrow> (case kids of Kids ps cap \<Rightarrow> (\<forall>p \<in> set ps. Q p) | _ \<Rightarrow> True)"

lemma kids_all_simps [simp]:
  "kids_all Q No_Kids" "kids_all Q Dangling_Kids" "kids_all Q (Kids ps cap) \<longleftrightarrow> (\<forall>p \<in> set ps. Q p)"
  by (simp_all add: kids_all_def)

lemma children_push_keeps:
  assumes "fs_target_children_push al kids p = Inr (kids', ok)" and "kids_all Q kids" and "p \<noteq> Null \<Longrightarrow> Q p"
  shows "kids_all Q kids'"
  using assms
  by (cases kids)
     (auto simp: fs_target_children_push_def kids_seq_def map_res_Inr_iff split: if_splits dest!: seq_push_items)

lemma handle_entries_keeps:
  assumes refl: "\<And>s. R s s" and trans: "\<And>s t u. R s t \<Longrightarrow> R t u \<Longrightarrow> R s u"
    and nxt: "\<And>dir s e dir' s'. directory_next_entry dir s = (e, dir', s') \<Longrightarrow> R s s'"
    and create: "\<And>path s p s'. create path s = Inr (p, s') \<Longrightarrow> R s s' \<and> (p \<noteq> Null \<longrightarrow> Q p)"
  shows "handle_entries create w path dir kids s = Inr (kids', s') \<Longrightarrow> kids_all Q kids \<Longrightarrow> R s s' \<and> kids_all Q kids'"
proof (induction dir arbitrary: kids s rule: measure_induct_rule [of length])
  case (less dir)
  obtain e dir' s1 where read: "directory_next_entry dir s = (e, dir', s1)"
    by (cases "directory_next_entry dir s") auto
  note r1 = nxt [OF read]
  show ?case
  proof (cases e)
    case None
    then show ?thesis
      using less.prems read r1 by (simp add: handle_entries.simps [of _ _ _ dir])
  next
    case (Some d)
    obtain child_path child s2 kids2 ok where
      child: "(if child_path = Null then Inr (Null, s1)
               else bind_res (deref child_path) (\<lambda>buf. create (cstr buf) s1)) = Inr (child, s2)"
      and push: "fs_target_children_push (heap w s2) kids child = Inr (kids2, ok)"
      and rest: "handle_entries create w path dir' kids2 s2 = Inr (kids', s')"
      using less.prems(1) read Some by (auto simp: handle_entries.simps [of _ _ _ dir] bind_res_Inr_iff)
    have "R s1 s2 \<and> (child \<noteq> Null \<longrightarrow> Q child)"
      using child refl by (auto simp: bind_res_Inr_iff split: if_splits dest: create)
    moreover from this have "kids_all Q kids2"
      using children_push_keeps [OF push less.prems(2)] by blast
    ultimately show ?thesis
      using less.IH [OF directory_next_entry_shorter [OF read [unfolded Some]] rest] r1 trans by blast
  qed
qed

lemma handle_entries_view:
  assumes "\<And>path s p s'. create path s = Inr (p, s') \<Longrightarrow> same_view s s'"
    and "handle_entries create w path dir kids s = Inr (kids', s')"
  shows "same_view s s'"
  using handle_entries_keeps [of same_view create "\<lambda>_. True" w path dir kids s kids' s']
    assms same_view_refl same_view_trans next_entry_view by (auto simp: kids_all_def split: kids.splits)

lemma handle_children_view:
  assumes create: "\<And>path s p s'. create path s = Inr (p, s') \<Longrightarrow> same_view s s'"
    and run: "handle_children create w path info evs s = Inr (p, s')"
  shows "same_view s s'"
proof -
  have "handle_entries create w q dir kids t = Inr (kids', t') \<Longrightarrow> same_view t t'" for q dir kids t kids' t'
    by (rule handle_entries_view) (rule create)
  then show ?thesis
    using run
    by (auto simp: handle_children_def directory_open_def bind_res_Inr_iff map_res_Inr_iff same_view_refl
      split: if_splits option.splits prod.splits) fastforce+
qed

lemma create_view:
  "fs_target_create w n path ref s = Inr (p, s') \<Longrightarrow> same_view s s'"
proof (induction n arbitrary: path ref s p s')
  case (Suc n)
  obtain b q where bq: "basename path = (b, q)"
    by (cases "basename path")
  let ?create = "\<lambda>path s. fs_target_create w n path (\<lambda>_. Freed_Path) s"
  let ?s = "count_stat (tick s)"
  define st where "st = (case w_lstat w (clock s) path of Stat st \<Rightarrow> st | _ \<Rightarrow> zero_stat)"
  define info where "info = \<lparr>f_uid = fuid_create st, f_type = filetype_of (st_mode st),
    f_name = b, f_ok = True\<rparr>"
  have mem: "grants (heap w ?s) sizeof_target"
    using Suc.prems by (auto simp: create_defs bq split: if_splits)
  show ?case
  proof (cases "grants (heap w ?s) (of_nat (length b) + 1)")
    case False
    then show ?thesis
      using Suc.prems mem by (auto simp: create_defs bq same_view_refl)
  next
    case True
    have "bind_res (fs_target_event_init w q (ref q) ?s) (\<lambda>(evs, s). case evs of
        None \<Rightarrow> Inr (Null, s)
      | Some evs \<Rightarrow>
          map_res (\<lambda>(target, s). (target, count_target s))
            (if f_type info = directory then handle_children ?create w q info evs s
             else Inr (Ptr (Target info evs No_Kids), s))) = Inr (p, s')"
      using Suc.prems True mem unfolding info_def st_def by (simp add: create_defs bq)
    then obtain evs s1 where init: "fs_target_event_init w q (ref q) ?s = Inr (evs, s1)"
      and rest: "(case evs of
        None \<Rightarrow> Inr (Null, s1)
      | Some evs \<Rightarrow>
          map_res (\<lambda>(target, s). (target, count_target s))
            (if f_type info = directory then handle_children ?create w q info evs s1
             else Inr (Ptr (Target info evs No_Kids), s1))) = Inr (p, s')"
      by (auto simp: bind_res_Inr_iff)
    have v1: "same_view s s1"
      using event_init_view [OF init] by simp
    show ?thesis
    proof (cases evs)
      case None
      then show ?thesis
        using rest v1 by simp
    next
      case (Some e)
      show ?thesis
      proof (cases "f_type info = directory")
        case True
        then obtain t s2 where "handle_children ?create w q info e s1 = Inr (t, s2)" "s' = count_target s2"
          using rest Some by (auto simp: map_res_Inr_iff)
        then have "same_view s1 s'"
          using handle_children_view [where create = ?create, OF Suc.IH] by simp
        then show ?thesis
          using v1 same_view_trans by blast
      qed (use rest Some v1 in auto)
    qed
  qed
qed simp
end
