(* ===== verification/Routine.thy ===== *)
theory Routine
  imports Tree
begin

text \<open>
  One round of observation: \<^verbatim>\<open>daemon/srcs/fs/routine.c\<close>. The walk enters a target by
  appending its name to the current path, visits the children of a directory before the
  directory itself, tracks the target under the path it has built, and leaves by cutting the
  name off again. Targets are mutable in C; here each visit returns the target as it left it.
\<close>

section \<open>The walk\<close>

function fs_target_observe :: "world \<Rightarrow> fs_target cptr \<Rightarrow> state \<Rightarrow> (fs_target cptr \<times> state \<times> bool) res"
  and propagate_children_recursive ::
    "world \<Rightarrow> fs_target cptr list \<Rightarrow> state \<Rightarrow> (fs_target cptr list \<times> state) res"
where
  "fs_target_observe w Null s = Inr (Null, s, False)"
| "fs_target_observe w Dangling s = Inl Use_After_Free"
| "fs_target_observe w (Ptr (Target info evs kids)) s =
     bind_res (set_current_wd (Some (f_name info)) (cur_path s)) (\<lambda>path.
     bind_res
       (if f_type info = directory then
          case kids of
            No_Kids \<Rightarrow> Inl Hardened_Check
          | Dangling_Kids \<Rightarrow> Inl Use_After_Free
          | Kids ps cap \<Rightarrow>
              map_res (\<lambda>(ps, s). (Kids ps cap, s))
                (propagate_children_recursive w ps (s\<lparr>cur_path := path\<rparr>))
        else Inr (kids, s\<lparr>cur_path := path\<rparr>)) (\<lambda>(kids, s).
     bind_res
       (if f_type info = unknown then Inr (evs, s)
        else map_res (\<lambda>(evs, s, tracked). (evs, s)) (fs_target_event_track w evs s)) (\<lambda>(evs, s).
     map_res (\<lambda>path. (Ptr (Target info evs kids), s\<lparr>cur_path := path\<rparr>, True))
       (unset_current_wd (Some (f_name info)) (cur_path s)))))"
| "propagate_children_recursive w [] s = Inr ([], s)"
| "propagate_children_recursive w (child # ps) s =
     bind_res (fs_target_observe w child s) (\<lambda>(child, s, b).
       map_res (\<lambda>(ps, s). (child # ps, s)) (propagate_children_recursive w ps s))"
  by pat_completeness auto
termination
  by (relation "measure (case_sum (\<lambda>(w, p, s). size_cptr size p)
        (\<lambda>(w, ps, s). size_list (size_cptr size) ps))") auto

section \<open>A round on a live tree\<close>

text \<open>The state after a visit that printed at most \<open>n\<close> lines: the path is the one before.\<close>

definition visited :: "nat \<Rightarrow> state \<Rightarrow> state \<Rightarrow> bool" where
  "visited n s s' \<longleftrightarrow> cstr (cur_path s') = cstr (cur_path s) \<and>
     length (cur_path s') = length (cur_path s) \<and> path_ready s' \<and> clock s \<le> clock s' \<and>
     (\<exists>lines. reports s' = lines @ reports s \<and> length lines \<le> n)"

lemma visited_refl: "path_ready s \<Longrightarrow> visited 0 s s"
  by (simp add: visited_def)

lemma visited_trans: "visited m s t \<Longrightarrow> visited n t u \<Longrightarrow> visited (m + n) s u"
proof -
  assume v: "visited m s t" "visited n t u"
  then obtain l1 l2 where "reports t = l1 @ reports s" "length l1 \<le> m"
    "reports u = l2 @ reports t" "length l2 \<le> n"
    by (auto simp: visited_def)
  then have "reports u = (l2 @ l1) @ reports s \<and> length (l2 @ l1) \<le> m + n"
    by simp
  then show ?thesis
    using v unfolding visited_def by auto
qed

text \<open>A visit of \<open>p\<close> that ended as it should.\<close>

definition good_visit :: "fs_target cptr \<Rightarrow> state \<Rightarrow> (fs_target cptr \<times> state \<times> bool) res \<Rightarrow> bool" where
  "good_visit p s r \<longleftrightarrow> (\<exists>q s'. r = Inr (q, s', True) \<and> live q \<and> grown p q \<and> visited (node_count p) s s')"

definition good_visits :: "fs_target cptr list \<Rightarrow> state \<Rightarrow> (fs_target cptr list \<times> state) res \<Rightarrow> bool" where
  "good_visits ps s r \<longleftrightarrow>
     (\<exists>qs s'. r = Inr (qs, s') \<and> live_all qs \<and> grown_all ps qs \<and> visited (nodes_count ps) s s')"

lemma tracked_visited:
  assumes "tracked w evs s evs' s'" and "path_ready s"
  shows "visited 1 s s'" and "history_ok evs'"
    and "take (length (s_items evs)) (s_items evs') = s_items evs"
    and "length (s_items evs') \<le> length (s_items evs) + 1"
  using assms by (auto simp: tracked_def Let_def visited_def path_ready_def split: if_splits)

text \<open>The second half of a visit: the target itself is tracked, then the path is restored.\<close>

lemma visit_end:
  assumes hist: "history_ok evs" and name: "is_cstr (f_name info)" "is_cstr path"
    and s: "path_ready s" "cstr (cur_path s) = enter path (f_name info)"
  obtains evs' s' where
    "bind_res
       (if f_type info = unknown then Inr (evs, s)
        else map_res (\<lambda>(evs, s, tracked). (evs, s)) (fs_target_event_track w evs s)) (\<lambda>(evs, s).
     map_res (\<lambda>path. (Ptr (Target info evs kids), s\<lparr>cur_path := path\<rparr>, True))
       (unset_current_wd (Some (f_name info)) (cur_path s))) = Inr (Ptr (Target info evs' kids), s', True)"
    and "history_ok evs'" and "take (length (s_items evs)) (s_items evs') = s_items evs"
    and "length (s_items evs') \<le> length (s_items evs) + 1"
    and "cstr (cur_path s') = path" and "length (cur_path s') = length (cur_path s)"
    and "path_ready s'" and "clock s \<le> clock s'"
    and "\<exists>lines. reports s' = lines @ reports s \<and> length lines \<le> 1"
proof -
  obtain evs1 s1 where track: "(if f_type info = unknown then Inr (evs, s)
        else map_res (\<lambda>(evs, s, tracked). (evs, s)) (fs_target_event_track w evs s)) = Inr (evs1, s1)"
    and h: "history_ok evs1" "take (length (s_items evs)) (s_items evs1) = s_items evs"
      "length (s_items evs1) \<le> length (s_items evs) + 1"
    and v: "visited 1 s s1"
  proof (cases "f_type info = unknown")
    case True
    then show thesis
      using that [of evs s] hist s by (auto simp: visited_def)
  next
    case False
    obtain evs1 s1 where "fs_target_event_track w evs s = Inr (evs1, s1, True)" "tracked w evs s evs1 s1"
      using fs_target_event_track_ok [OF hist s(1)] by blast
    then show thesis
      using that [of evs1 s1] False tracked_visited [OF _ s(1), of w evs evs1 s1] by simp
  qed
  obtain buf where buf: "unset_current_wd (Some (f_name info)) (cur_path s1) = Inr buf"
    "0 \<in> set buf" "cstr buf = path" "length buf = length (cur_path s1)"
    by (rule leave_wd [of "cur_path s1" path "f_name info"])
       (use v s name in \<open>auto simp: visited_def path_ready_def\<close>)
  show thesis
    by (rule that [of evs1 "s1\<lparr>cur_path := buf\<rparr>"])
       (use track h v buf in \<open>auto simp: visited_def path_ready_def\<close>)
qed


lemma observe_good:
  "live p \<Longrightarrow> path_ready s \<Longrightarrow> path_fits (length (cur_path s)) (cstr (cur_path s)) p \<Longrightarrow>
     good_visit p s (fs_target_observe w p s)"
  "live_all ps \<Longrightarrow> path_ready s \<Longrightarrow> paths_fit (length (cur_path s)) (cstr (cur_path s)) ps \<Longrightarrow>
     good_visits ps s (propagate_children_recursive w ps s)"
proof (induction w p s and w ps s rule: fs_target_observe_propagate_children_recursive.induct)
  case (3 w info evs kids s)
  let ?path = "cstr (cur_path s)"
  have hist: "history_ok evs" and name: "is_cstr (f_name info)"
    using "3.prems"(1) by simp_all
  obtain buf where buf: "set_current_wd (Some (f_name info)) (cur_path s) = Inr buf"
    "0 \<in> set buf" "cstr buf = enter ?path (f_name info)" "length buf = length (cur_path s)"
    by (rule enter_wd [of "cur_path s" "f_name info"])
       (use "3.prems" name in \<open>auto simp: path_ready_def\<close>)
  let ?s = "s\<lparr>cur_path := buf\<rparr>"
  have ready: "path_ready ?s"
    using buf by (simp add: path_ready_def)
  show ?case
  proof (cases "f_type info = directory")
    case True
    then obtain ps cap where kids: "kids = Kids ps cap" and all: "live_all ps"
      using "3.prems"(1) by (auto split: kids.splits)
    have "good_visits ps ?s (propagate_children_recursive w ps ?s)"
      using "3.IH" [OF buf(1) True kids] all ready "3.prems"(3) buf kids by simp
    then obtain qs s1 where run: "propagate_children_recursive w ps ?s = Inr (qs, s1)"
      and qs: "live_all qs" "grown_all ps qs" and v: "visited (nodes_count ps) ?s s1"
      by (auto simp: good_visits_def)
    have s1: "path_ready s1" "cstr (cur_path s1) = enter ?path (f_name info)"
      using v buf by (auto simp: visited_def)
    obtain evs' s' where fin: "bind_res
         (if f_type info = unknown then Inr (evs, s1)
          else map_res (\<lambda>(evs, s, tracked). (evs, s)) (fs_target_event_track w evs s1)) (\<lambda>(evs, s).
       map_res (\<lambda>path. (Ptr (Target info evs (Kids qs cap)), s\<lparr>cur_path := path\<rparr>, True))
         (unset_current_wd (Some (f_name info)) (cur_path s))) =
       Inr (Ptr (Target info evs' (Kids qs cap)), s', True)"
      and h: "history_ok evs'" "take (length (s_items evs)) (s_items evs') = s_items evs"
        "length (s_items evs') \<le> length (s_items evs) + 1"
      and s': "cstr (cur_path s') = ?path" "length (cur_path s') = length (cur_path s1)" "path_ready s'" "clock s1 \<le> clock s'"
        "\<exists>lines. reports s' = lines @ reports s1 \<and> length lines \<le> 1"
      using visit_end [OF hist name is_cstr_cstr s1] by blast
    have "visited (1 + nodes_count ps) s s'"
      using v s' buf visited_trans [of "nodes_count ps" ?s s1 1 s'] by (auto simp: visited_def)
    then show ?thesis
      using buf(1) True kids run fin h qs name by (simp add: good_visit_def)
  next
    case False
    have s0: "cstr (cur_path ?s) = enter ?path (f_name info)"
      using buf by simp
    obtain evs' s' where fin: "bind_res
         (if f_type info = unknown then Inr (evs, ?s)
          else map_res (\<lambda>(evs, s, tracked). (evs, s)) (fs_target_event_track w evs ?s)) (\<lambda>(evs, s).
       map_res (\<lambda>path. (Ptr (Target info evs kids), s\<lparr>cur_path := path\<rparr>, True))
         (unset_current_wd (Some (f_name info)) (cur_path s))) =
       Inr (Ptr (Target info evs' kids), s', True)"
      and h: "history_ok evs'" "take (length (s_items evs)) (s_items evs') = s_items evs"
        "length (s_items evs') \<le> length (s_items evs) + 1"
      and s': "cstr (cur_path s') = ?path" "length (cur_path s') = length (cur_path ?s)" "path_ready s'" "clock ?s \<le> clock s'"
        "\<exists>lines. reports s' = lines @ reports ?s \<and> length lines \<le> 1"
      using visit_end [OF hist name is_cstr_cstr ready s0] by blast
    have "visited (node_count (Ptr (Target info evs kids))) s s'"
      using s' buf by (auto simp: visited_def)
    moreover have "grown (Ptr (Target info evs kids)) (Ptr (Target info evs' kids))"
      using h by (auto simp: grown_all_refl split: kids.splits)
    ultimately show ?thesis
      using buf(1) False fin h name "3.prems"(1) by (simp add: good_visit_def del: grown.simps)
  qed
next
  case (5 w child ps s)
  obtain q s1 where q: "fs_target_observe w child s = Inr (q, s1, True)" "live q" "grown child q"
    and v: "visited (node_count child) s s1"
    using "5.IH"(1) "5.prems" by (auto simp: good_visit_def)
  have "good_visits ps s1 (propagate_children_recursive w ps s1)"
    using "5.IH"(2) [OF q(1) refl refl] "5.prems" v by (simp add: visited_def)
  then obtain qs s2 where qs: "propagate_children_recursive w ps s1 = Inr (qs, s2)" "live_all qs"
    "grown_all ps qs" and v2: "visited (nodes_count ps) s1 s2"
    by (auto simp: good_visits_def)
  show ?case
    using q qs visited_trans [OF v v2] by (simp add: good_visits_def)
qed (auto simp: good_visits_def visited_refl)
section \<open>Releasing a live tree\<close>

fun is_node :: "released \<Rightarrow> bool" where
  "is_node (Node u) \<longleftrightarrow> True" | "is_node _ \<longleftrightarrow> False"

fun is_name :: "released \<Rightarrow> bool" where
  "is_name (Name u) \<longleftrightarrow> True" | "is_name _ \<longleftrightarrow> False"

lemma dealloc_counts:
  "live (Ptr t) \<Longrightarrow> \<exists>fr. fs_target_dealloc t = Inr fr \<and>
     length (filter is_node fr) = node_count (Ptr t) \<and> length (filter is_name fr) = node_count (Ptr t)"
  "live_all ps \<Longrightarrow> \<exists>fr. dealloc_children ps = Inr fr \<and>
     length (filter is_node fr) = nodes_count ps \<and> length (filter is_name fr) = nodes_count ps"
proof (induction t and ps rule: fs_target_dealloc_dealloc_children.induct)
  case (1 info evs kids)
  show ?case
  proof (cases "f_type info = directory")
    case True
    then obtain ps cap where "kids = Kids ps cap" "live_all ps"
      using "1.prems" by (auto split: kids.splits)
    then show ?thesis
      using "1.IH" [of ps cap] True by (cases "ps = []") auto
  qed (use "1.prems" in simp)
next
  case (3 p ps)
  from "3.prems" obtain t where t: "p = Ptr t" "live (Ptr t)" "live_all ps"
    by (cases p) auto
  obtain fr where fr: "fs_target_dealloc t = Inr fr" "length (filter is_node fr) = node_count (Ptr t)"
    "length (filter is_name fr) = node_count (Ptr t)"
    using "3.IH"(1) [OF t(1,2)] by blast
  moreover from fr obtain rest where "dealloc_children ps = Inr rest" "length (filter is_node rest) = nodes_count ps"
    "length (filter is_name rest) = nodes_count ps"
    using "3.IH"(2) [OF _ t(3)] t(1) fr(1) by auto
  ultimately show ?case
    using t(1) by simp
qed simp

section \<open>Rounds in which nothing changed\<close>

text \<open>Every tracked target has the status of its latest event.\<close>

function (sequential) quiet :: "(bytes \<Rightarrow> lstat_result) \<Rightarrow> bytes \<Rightarrow> fs_target cptr \<Rightarrow> bool"
  and quiet_all :: "(bytes \<Rightarrow> lstat_result) \<Rightarrow> bytes \<Rightarrow> fs_target cptr list \<Rightarrow> bool" where
  "quiet fs path (Ptr (Target info evs kids)) \<longleftrightarrow>
     (f_type info = unknown \<or>
      change_mask (e_st (last (s_items evs))) (fs (enter path (f_name info))) = 0) \<and>
     (case kids of Kids ps cap \<Rightarrow> quiet_all fs (enter path (f_name info)) ps | _ \<Rightarrow> True)"
| "quiet fs path _ \<longleftrightarrow> True"
| "quiet_all fs path [] \<longleftrightarrow> True"
| "quiet_all fs path (p # ps) \<longleftrightarrow> quiet fs path p \<and> quiet_all fs path ps"
  by pat_completeness auto
termination
  by (relation "measure (case_sum (\<lambda>(fs, path, p). size_cptr size p)
        (\<lambda>(fs, path, ps). size_list (size_cptr size) ps))") auto

lemma visit_end_quiet:
  assumes hist: "history_ok evs" and name: "is_cstr (f_name info)" "is_cstr path"
    and s: "path_ready s" "cstr (cur_path s) = enter path (f_name info)"
    and fs: "\<And>t p. w_lstat w t p = fs p"
    and same: "f_type info = unknown \<or>
      change_mask (e_st (last (s_items evs))) (fs (enter path (f_name info))) = 0"
  obtains s' where
    "bind_res
       (if f_type info = unknown then Inr (evs, s)
        else map_res (\<lambda>(evs, s, tracked). (evs, s)) (fs_target_event_track w evs s)) (\<lambda>(evs, s).
     map_res (\<lambda>path. (Ptr (Target info evs kids), s\<lparr>cur_path := path\<rparr>, True))
       (unset_current_wd (Some (f_name info)) (cur_path s))) = Inr (Ptr (Target info evs kids), s', True)"
    and "cstr (cur_path s') = path" and "length (cur_path s') = length (cur_path s)"
    and "path_ready s'" and "reports s' = reports s"
proof -
  obtain s1 where track: "(if f_type info = unknown then Inr (evs, s)
        else map_res (\<lambda>(evs, s, tracked). (evs, s)) (fs_target_event_track w evs s)) = Inr (evs, s1)"
    and s1: "cur_path s1 = cur_path s" "reports s1 = reports s"
  proof (cases "f_type info = unknown")
    case True
    then show thesis
      using that [of s] by simp
  next
    case False
    obtain evs1 s1 where run: "fs_target_event_track w evs s = Inr (evs1, s1, True)" "tracked w evs s evs1 s1"
      using fs_target_event_track_ok [OF hist s(1)] by blast
    have "e_mask (change_event w (e_st (last (s_items evs))) s) = 0"
      using same False s(2) fs by (simp add: change_event_def Let_def)
    then show thesis
      using that [of s1] run False by (simp add: tracked_def Let_def)
  qed
  obtain buf where buf: "unset_current_wd (Some (f_name info)) (cur_path s1) = Inr buf"
    "0 \<in> set buf" "cstr buf = path" "length buf = length (cur_path s1)"
    by (rule leave_wd [of "cur_path s1" path "f_name info"])
       (use s1 s name in \<open>auto simp: path_ready_def\<close>)
  show thesis
    by (rule that [of "s1\<lparr>cur_path := buf\<rparr>"])
       (use track s1 buf in \<open>auto simp: path_ready_def\<close>)
qed

text \<open>The state differs in the clock, the counters and the bytes behind the terminator only.\<close>

definition unmoved :: "state \<Rightarrow> state \<Rightarrow> bool" where
  "unmoved s s' \<longleftrightarrow> cstr (cur_path s') = cstr (cur_path s) \<and>
     length (cur_path s') = length (cur_path s) \<and> path_ready s' \<and> reports s' = reports s"

lemma observe_quiet:
  assumes fs: "\<And>t p. w_lstat w t p = fs p"
  shows "live p \<Longrightarrow> path_ready s \<Longrightarrow> path_fits (length (cur_path s)) (cstr (cur_path s)) p \<Longrightarrow>
     quiet fs (cstr (cur_path s)) p \<Longrightarrow>
     \<exists>s'. fs_target_observe w p s = Inr (p, s', True) \<and> unmoved s s'"
    and "live_all ps \<Longrightarrow> path_ready s \<Longrightarrow> paths_fit (length (cur_path s)) (cstr (cur_path s)) ps \<Longrightarrow>
     quiet_all fs (cstr (cur_path s)) ps \<Longrightarrow>
     \<exists>s'. propagate_children_recursive w ps s = Inr (ps, s') \<and> unmoved s s'"
  using fs
proof (induction w p s and w ps s rule: fs_target_observe_propagate_children_recursive.induct)
  case (3 w info evs kids s)
  let ?path = "cstr (cur_path s)"
  have hist: "history_ok evs" and name: "is_cstr (f_name info)"
    and same: "f_type info = unknown \<or>
      change_mask (e_st (last (s_items evs))) (fs (enter ?path (f_name info))) = 0"
    using "3.prems"(1,4) by simp_all
  obtain buf where buf: "set_current_wd (Some (f_name info)) (cur_path s) = Inr buf"
    "0 \<in> set buf" "cstr buf = enter ?path (f_name info)" "length buf = length (cur_path s)"
    by (rule enter_wd [of "cur_path s" "f_name info"])
       (use "3.prems" name in \<open>auto simp: path_ready_def\<close>)
  let ?s = "s\<lparr>cur_path := buf\<rparr>"
  have ready: "path_ready ?s" and s0: "cstr (cur_path ?s) = enter ?path (f_name info)"
    using buf by (simp_all add: path_ready_def)
  obtain s1 where walk: "(if f_type info = directory then
          case kids of
            No_Kids \<Rightarrow> Inl Hardened_Check
          | Dangling_Kids \<Rightarrow> Inl Use_After_Free
          | Kids ps cap \<Rightarrow>
              map_res (\<lambda>(ps, s). (Kids ps cap, s)) (propagate_children_recursive w ps ?s)
        else Inr (kids, ?s)) = Inr (kids, s1)" and s1: "unmoved ?s s1"
  proof (cases "f_type info = directory")
    case True
    then obtain ps cap where kids: "kids = Kids ps cap" and all: "live_all ps"
      using "3.prems"(1) by (auto split: kids.splits)
    have "\<exists>s'. propagate_children_recursive w ps ?s = Inr (ps, s') \<and> unmoved ?s s'"
      using "3.IH" [OF buf(1) True kids] all ready "3.prems" buf kids by simp
    then show thesis
      using that True kids by auto
  qed (use that [of ?s] ready in \<open>simp add: unmoved_def\<close>)
  have ready1: "path_ready s1" and at1: "cstr (cur_path s1) = enter ?path (f_name info)"
    using s1 s0 by (simp_all add: unmoved_def)
  obtain s' where "bind_res
       (if f_type info = unknown then Inr (evs, s1)
        else map_res (\<lambda>(evs, s, tracked). (evs, s)) (fs_target_event_track w evs s1)) (\<lambda>(evs, s).
     map_res (\<lambda>path. (Ptr (Target info evs kids), s\<lparr>cur_path := path\<rparr>, True))
       (unset_current_wd (Some (f_name info)) (cur_path s))) = Inr (Ptr (Target info evs kids), s', True)"
    and "cstr (cur_path s') = ?path" "length (cur_path s') = length (cur_path s1)"
    "path_ready s'" "reports s' = reports s1"
    using visit_end_quiet [OF hist name is_cstr_cstr ready1 at1 "3.prems"(5) same] by blast
  then show ?case
    using buf(1,4) walk s1 by (simp add: unmoved_def)
next
  case (5 w child ps s)
  obtain s1 where q: "fs_target_observe w child s = Inr (child, s1, True)" and s1: "unmoved s s1"
    using "5.IH"(1) "5.prems" by auto
  have "\<exists>s'. propagate_children_recursive w ps s1 = Inr (ps, s') \<and> unmoved s1 s'"
    using "5.IH"(2) [OF q refl refl] "5.prems" s1 by (simp add: unmoved_def)
  then show ?case
    using q s1 by (auto simp: unmoved_def)
qed (auto simp: unmoved_def)

end
