(* ===== verification/Names.thy ===== *)
theory Names
  imports Path
begin

text \<open>
  The stack of file names that \<^verbatim>\<open>main.c\<close> fills from the command line and \<^verbatim>\<open>loop.c\<close> empties,
  and the contract its clients rely on: pushing, reversing and popping is first in, first out.
\<close>

section \<open>The stack of file names\<close>

definition FILE_STACK_SIZE :: nat where
  "FILE_STACK_SIZE = 16"

text \<open>
  A name points into \<open>argv\<close>, which a callee may write to, or to a string literal of the program,
  which it may not.
\<close>

datatype filename = Argv bytes | Literal bytes

fun name_text :: "filename \<Rightarrow> bytes" where
  "name_text (Argv p) = p"
| "name_text (Literal p) = p"

record file_stack =
  slots :: "filename option list"
  stack_top :: nat

definition stack_init :: file_stack where
  "stack_init = \<lparr>slots = replicate FILE_STACK_SIZE None, stack_top = 0\<rparr>"

definition filename_stack_push :: "filename option \<Rightarrow> file_stack \<Rightarrow> file_stack res" where
  "filename_stack_push filename st =
     (if stack_top st < FILE_STACK_SIZE - 1
      then map_res (\<lambda>xs. st\<lparr>slots := xs, stack_top := stack_top st + 1\<rparr>) (store_slot (slots st) (stack_top st + 1) filename)
      else Inr st)"

definition filename_stack_pop :: "file_stack \<Rightarrow> (filename option \<times> file_stack) res" where
  "filename_stack_pop st =
     (if 0 < stack_top st then map_res (\<lambda>x. (x, st\<lparr>stack_top := stack_top st - 1\<rparr>)) (load_slot (slots st) (stack_top st))
      else Inr (None, st))"

text \<open>\<open>while (i < j) { exchange slots i and j; i++; j--; }\<close>\<close>

function reverse_loop :: "'a list \<Rightarrow> nat \<Rightarrow> nat \<Rightarrow> 'a list res" where
  "reverse_loop xs i j =
     (if i < j then
        bind_res (load_slot xs i) (\<lambda>tmp.
        bind_res (load_slot xs j) (\<lambda>x.
        bind_res (store_slot xs i x) (\<lambda>xs.
        bind_res (store_slot xs j tmp) (\<lambda>xs. reverse_loop xs (i + 1) (j - 1)))))
      else Inr xs)"
  by pat_completeness auto
termination
  by (relation "measure (\<lambda>(xs, i, j). j - i)") auto

declare reverse_loop.simps [simp del]

definition stack_reverse_in_place :: "file_stack \<Rightarrow> file_stack res" where
  "stack_reverse_in_place st = map_res (\<lambda>xs. st\<lparr>slots := xs\<rparr>) (reverse_loop (slots st) 1 (stack_top st))"

section \<open>What the operations do\<close>

definition stack_ok :: "file_stack \<Rightarrow> bool" where
  "stack_ok st \<longleftrightarrow> length (slots st) = FILE_STACK_SIZE \<and> stack_top st < FILE_STACK_SIZE"

text \<open>From the bottom to the top; slot 0 is never used.\<close>

definition contents :: "file_stack \<Rightarrow> filename option list" where
  "contents st = take (stack_top st) (drop 1 (slots st))"

lemma push_contents:
  assumes "stack_ok st"
  obtains st' where "filename_stack_push f st = Inr st'" and "stack_ok st'"
    and "contents st' = (if stack_top st < 15 then contents st @ [f] else contents st)"
    and "stack_top st' = (if stack_top st < 15 then stack_top st + 1 else stack_top st)"
proof (cases "stack_top st < 15")
  case True
  have "take (Suc (stack_top st)) (drop (Suc 0) ((slots st)[Suc (stack_top st) := f])) =
      take (stack_top st) (drop (Suc 0) (slots st)) @ [f]"
    using assms True
    by (simp add: stack_ok_def FILE_STACK_SIZE_def drop_update_swap take_Suc_conv_app_nth)
  then show thesis
    using that assms True
    by (simp add: filename_stack_push_def stack_ok_def FILE_STACK_SIZE_def store_slot_def contents_def)
next
  case False
  then show thesis
    using that [of st] assms by (simp add: filename_stack_push_def FILE_STACK_SIZE_def)
qed

lemma pop_contents:
  assumes "stack_ok st" and "0 < stack_top st"
  shows "\<exists>st'. filename_stack_pop st = Inr (last (contents st), st') \<and> stack_ok st' \<and>
    contents st' = butlast (contents st) \<and> stack_top st' = stack_top st - 1 \<and> slots st' = slots st"
proof -
  obtain n where n: "stack_top st = Suc n" "Suc n < length (slots st)"
    using assms by (cases "stack_top st") (auto simp: stack_ok_def)
  then have "contents st = take n (drop 1 (slots st)) @ [slots st ! Suc n]"
    by (simp add: contents_def take_Suc_conv_app_nth)
  then show ?thesis
    using n assms by (simp add: filename_stack_pop_def load_slot_def stack_ok_def contents_def)
qed

lemma reverse_loop_nth:
  "j < length xs \<Longrightarrow> \<exists>ys. reverse_loop xs i j = Inr ys \<and> length ys = length xs \<and>
     (\<forall>k < length xs. ys ! k = (if i \<le> k \<and> k \<le> j then xs ! (i + j - k) else xs ! k))"
proof (induction xs i j rule: reverse_loop.induct)
  case (1 xs i j)
  show ?case
  proof (cases "i < j")
    case True
    let ?xs = "xs[i := xs ! j, j := xs ! i]"
    have step: "reverse_loop xs i j = reverse_loop ?xs (i + 1) (j - 1)"
      using True "1.prems" by (simp add: reverse_loop.simps [of xs] load_slot_def store_slot_def)
    have "\<exists>ys. reverse_loop ?xs (i + 1) (j - 1) = Inr ys \<and> length ys = length ?xs \<and>
       (\<forall>k < length ?xs. ys ! k = (if i + 1 \<le> k \<and> k \<le> j - 1 then ?xs ! (i + 1 + (j - 1) - k) else ?xs ! k))"
      using "1.IH" [OF True, of "xs ! i" "xs ! j" "xs[i := xs ! j]" ?xs] True "1.prems"
      by (simp add: load_slot_def store_slot_def)
    then obtain ys where ys: "reverse_loop ?xs (i + 1) (j - 1) = Inr ys" "length ys = length xs"
      "\<And>k. k < length xs \<Longrightarrow>
         ys ! k = (if i + 1 \<le> k \<and> k \<le> j - 1 then ?xs ! (i + 1 + (j - 1) - k) else ?xs ! k)"
      by auto
    have "ys ! k = (if i \<le> k \<and> k \<le> j then xs ! (i + j - k) else xs ! k)" if "k < length xs" for k
      using ys(3) [OF that] True "1.prems" by (auto simp: nth_list_update)
    then show ?thesis
      using step ys by auto
  next
    case False
    have "xs ! k = xs ! (i + j - k)" if "i \<le> k" "k \<le> j" for k
    proof -
      have "i = k" "j = k"
        using that False by simp_all
      then show ?thesis
        by simp
    qed
    then show ?thesis
      using False by (simp add: reverse_loop.simps [of xs])
  qed
qed

lemma reverse_contents:
  assumes "stack_ok st"
  obtains st' where "stack_reverse_in_place st = Inr st'" and "stack_ok st'"
    and "contents st' = rev (contents st)" and "stack_top st' = stack_top st"
proof -
  obtain ys where ys: "reverse_loop (slots st) 1 (stack_top st) = Inr ys" "length ys = length (slots st)"
    "\<And>k. k < length (slots st) \<Longrightarrow>
      ys ! k = (if 1 \<le> k \<and> k \<le> stack_top st then slots st ! (1 + stack_top st - k) else slots st ! k)"
    using reverse_loop_nth [of "stack_top st" "slots st" 1] assms by (auto simp: stack_ok_def)
  have "take (stack_top st) (drop 1 ys) = rev (take (stack_top st) (drop 1 (slots st)))"
  proof (rule nth_equalityI)
    fix i
    assume "i < length (take (stack_top st) (drop 1 ys))"
    then have "i < stack_top st" "Suc i < length (slots st)" "stack_top st < length (slots st)"
      using ys assms by (simp_all add: stack_ok_def)
    moreover have "Suc (stack_top st) - Suc i = Suc (stack_top st - Suc i)"
      using \<open>i < stack_top st\<close> by simp
    ultimately show "take (stack_top st) (drop 1 ys) ! i = rev (take (stack_top st) (drop 1 (slots st))) ! i"
      using ys(2) ys(3) [of "Suc i"] by (simp add: rev_nth)
  qed (use ys in simp)
  then show thesis
    using that [of "st\<lparr>slots := ys\<rparr>"] ys assms
    by (simp add: stack_reverse_in_place_def stack_ok_def contents_def)
qed

section \<open>First in, first out\<close>

fun pop_each :: "('s \<Rightarrow> ('a \<times> 's) res) \<Rightarrow> nat \<Rightarrow> 's \<Rightarrow> ('a list \<times> 's) res" where
  "pop_each pop 0 s = Inr ([], s)"
| "pop_each pop (Suc n) s = bind_res (pop s) (\<lambda>(x, s). map_res (\<lambda>(xs, s). (x # xs, s)) (pop_each pop n s))"

text \<open>A stack of at most \<open>room\<close> items that drops what does not fit and can be reversed.\<close>

locale bounded_stack =
  fixes items :: "'s \<Rightarrow> 'a list"
    and good :: "'s \<Rightarrow> bool"
    and room :: nat
    and push :: "'a \<Rightarrow> 's \<Rightarrow> 's res"
    and pop :: "'s \<Rightarrow> ('a \<times> 's) res"
    and flip :: "'s \<Rightarrow> 's res"
  assumes items_room: "good s \<Longrightarrow> length (items s) \<le> room"
    and push_law: "good s \<Longrightarrow> \<exists>s'. push x s = Inr s' \<and> good s' \<and>
      items s' = (if length (items s) < room then items s @ [x] else items s)"
    and pop_law: "good s \<Longrightarrow> items s \<noteq> [] \<Longrightarrow> \<exists>s'. pop s = Inr (last (items s), s') \<and> good s' \<and>
      items s' = butlast (items s)"
    and flip_law: "good s \<Longrightarrow> \<exists>s'. flip s = Inr s' \<and> good s' \<and> items s' = rev (items s)"
begin

lemma push_each_items:
  "good s \<Longrightarrow> \<exists>s'. each_res push xs s = Inr s' \<and> good s' \<and>
     items s' = items s @ take (room - length (items s)) xs"
proof (induction xs arbitrary: s)
  case (Cons x xs)
  obtain s1 where s1: "push x s = Inr s1" "good s1"
    "items s1 = (if length (items s) < room then items s @ [x] else items s)"
    using push_law [OF Cons.prems] by blast
  obtain s2 where s2: "each_res push xs s1 = Inr s2" "good s2"
    "items s2 = items s1 @ take (room - length (items s1)) xs"
    using Cons.IH [OF s1(2)] by blast
  have "items s2 = items s @ take (room - length (items s)) (x # xs)"
    using s1(3) s2(3) by (cases "length (items s) < room") (simp_all add: take_Cons')
  then show ?case
    using s1(1) s2 by simp
qed simp

lemma pop_each_items:
  "good s \<Longrightarrow> n \<le> length (items s) \<Longrightarrow> \<exists>s'. pop_each pop n s = Inr (take n (rev (items s)), s')"
proof (induction n arbitrary: s)
  case (Suc n)
  then have ne: "items s \<noteq> []"
    by auto
  then obtain ys y where y: "items s = ys @ [y]"
    by (metis append_butlast_last_id)
  obtain s1 where s1: "pop s = Inr (y, s1)" "good s1" "items s1 = ys"
    using pop_law [OF Suc.prems(1) ne] y by auto
  then obtain s2 where "pop_each pop n s1 = Inr (take n (rev ys), s2)"
    using Suc.IH [OF s1(2)] Suc.prems(2) y by auto
  then show ?case
    using s1(1) y by simp
qed simp

text \<open>What goes in comes out in the same order, as far as it fits.\<close>

lemma first_in_first_out:
  assumes "good s" and "items s = []"
  shows "\<exists>s1 s2 s3. each_res push xs s = Inr s1 \<and> flip s1 = Inr s2 \<and>
    pop_each pop (min room (length xs)) s2 = Inr (take room xs, s3)"
proof -
  obtain s1 where s1: "each_res push xs s = Inr s1" "good s1" "items s1 = take room xs"
    using push_each_items [OF assms(1), of xs] assms(2) by auto
  obtain s2 where s2: "flip s1 = Inr s2" "good s2" "items s2 = rev (take room xs)"
    using flip_law [OF s1(2)] s1(3) by auto
  have len: "min room (length xs) \<le> length (items s2)"
    using s2(3) by simp
  have "take (min room (length xs)) (take room xs) = take room xs"
    by (simp add: min_def)
  then obtain s3 where "pop_each pop (min room (length xs)) s2 = Inr (take room xs, s3)"
    using pop_each_items [OF s2(2) len] s2(3) by auto
  then show ?thesis
    using s1(1) s2(1) by blast
qed

end

lemma contents_length: "stack_ok st \<Longrightarrow> length (contents st) = stack_top st"
  by (auto simp: stack_ok_def contents_def FILE_STACK_SIZE_def)

interpretation names: bounded_stack contents stack_ok 15 filename_stack_push filename_stack_pop
  stack_reverse_in_place
proof unfold_locales
  fix st :: file_stack and f
  assume ok: "stack_ok st"
  then show "length (contents st) \<le> 15"
    by (simp add: contents_length) (simp add: stack_ok_def FILE_STACK_SIZE_def)
  show "\<exists>s'. filename_stack_push f st = Inr s' \<and> stack_ok s' \<and>
      contents s' = (if length (contents st) < 15 then contents st @ [f] else contents st)"
    using push_contents [OF ok, of f] contents_length [OF ok] by metis
  show "\<exists>s'. filename_stack_pop st = Inr (last (contents st), s') \<and> stack_ok s' \<and>
      contents s' = butlast (contents st)" if "contents st \<noteq> []"
    using pop_contents [OF ok] contents_length [OF ok] that by fastforce
  show "\<exists>s'. stack_reverse_in_place st = Inr s' \<and> stack_ok s' \<and> contents s' = rev (contents st)"
    using reverse_contents [OF ok] by blast
qed

abbreviation push_names :: "filename option list \<Rightarrow> file_stack \<Rightarrow> file_stack res" where
  "push_names \<equiv> each_res filename_stack_push"

abbreviation pop_names :: "nat \<Rightarrow> file_stack \<Rightarrow> (filename option list \<times> file_stack) res" where
  "pop_names \<equiv> pop_each filename_stack_pop"

lemma push_names_contents:
  assumes "stack_ok st"
  shows "\<exists>st'. push_names fs st = Inr st' \<and> stack_ok st' \<and>
     contents st' = contents st @ take (15 - stack_top st) fs \<and> stack_top st' = min 15 (stack_top st + length fs)"
proof -
  obtain st' where st': "push_names fs st = Inr st'" "stack_ok st'"
    "contents st' = contents st @ take (15 - stack_top st) fs"
    using names.push_each_items [OF assms, of fs] contents_length [OF assms] by auto
  have "stack_top st \<le> 15"
    using assms by (simp add: stack_ok_def FILE_STACK_SIZE_def)
  then have "stack_top st' = min 15 (stack_top st + length fs)"
    using st'(3) contents_length [OF assms] contents_length [OF st'(2)] by auto
  then show ?thesis
    using st' by blast
qed

lemma pop_names_contents:
  "stack_ok st \<Longrightarrow> n \<le> stack_top st \<Longrightarrow> \<exists>st'. pop_names n st = Inr (take n (rev (contents st)), st')"
  using names.pop_each_items [of st n] by (simp add: contents_length)

end
