(* ===== verification/Service.thy ===== *)
theory Service
  imports Routine Names
begin

text \<open>
  The daemon itself: \<^verbatim>\<open>loop.c\<close>, which takes a snapshot of every name, observes all of them once per second until
  a signal arrives, and then releases them. The two loops that wait for the outside (the busy
  wait of \<open>spin\<close>, the rounds of \<open>service\<close>) carry fuel; \<open>spin_ok\<close> gives the amount for
  a clock that advances.
\<close>

section \<open>The service\<close>

record service =
  sv_fp :: "fs_target cptr list"
  sv_paths :: "filename option list"
  sv_index :: nat
  sv_stack :: file_stack
  sv_state :: state

definition perf_init :: perf where
  "perf_init = \<lparr>n_stat = 0, n_opendir = 0, n_closedir = 0, n_readdir = 0, n_rounds = 0, n_events = 0,
     n_target = 0\<rparr>"

definition state_init :: state where
  "state_init = \<lparr>cur_path = cur_path_init, perf = perf_init, clock = 0, reports = []\<rparr>"

definition service_start :: "file_stack \<Rightarrow> service" where
  "service_start stack = \<lparr>sv_fp = replicate 64 Null, sv_paths = replicate 64 None, sv_index = 0,
     sv_stack = stack, sv_state = state_init\<rparr>"

text \<open>
  \<open>fs_target_create\<close> on a name of the stack. When the name is a literal and \<^verbatim>\<open>basename\<close> has to cut it, the
  store into the literal ends the process: after the \<^verbatim>\<open>lstat\<close> and the allocation, inside
  \<open>fs_target_set_info\<close>.
\<close>

definition fs_target_create_named ::
  "world \<Rightarrow> nat \<Rightarrow> filename \<Rightarrow> state \<Rightarrow> (fs_target cptr \<times> state) res" where
  "fs_target_create_named w fuel f s =
     (case f of
        Argv path \<Rightarrow> fs_target_create w fuel path Argument s
      | Literal path \<Rightarrow>
          if snd (basename path) = path then fs_target_create w fuel path Argument s
          else
            let (ok, st, s) = sys_lstat_exec w path s in
            if \<not> ok then Inr (Null, s)
            else
              bind_res (fs_target_alloc (heap w s)) (\<lambda>ok.
                if \<not> ok then Inr (Null, s) else Inl Read_Only_Write))"

text \<open>A name that is not written to.\<close>

fun kept :: "filename \<Rightarrow> bool" where
  "kept (Argv p) \<longleftrightarrow> True"
| "kept (Literal p) \<longleftrightarrow> snd (basename p) = p"

lemma create_named_kept:
  "kept f \<Longrightarrow> fs_target_create_named w fuel f s = fs_target_create w fuel (name_text f) Argument s"
  by (cases f) (simp_all add: fs_target_create_named_def)

lemma create_named_Inr:
  "fs_target_create_named w fuel f s = Inr r \<Longrightarrow>
     kept f \<and> fs_target_create w fuel (name_text f) Argument s = Inr r"
  by (cases f) (auto simp: fs_target_create_named_def create_defs split: if_splits prod.splits)

text \<open>One turn of the loop of \<^verbatim>\<open>service_init\<close>; the flag tells whether the stack was empty.\<close>

definition service_init_step :: "world \<Rightarrow> nat \<Rightarrow> service \<Rightarrow> (service \<times> bool) res" where
  "service_init_step w fuel sv =
     bind_res (filename_stack_pop (sv_stack sv)) (\<lambda>(path, stack).
     bind_res (store_slot (sv_paths sv) (sv_index sv) path) (\<lambda>paths.
       let sv = sv\<lparr>sv_stack := stack, sv_paths := paths\<rparr> in
       case path of
         None \<Rightarrow> Inr (sv, True)
       | Some path \<Rightarrow>
           bind_res (fs_target_create_named w fuel path (sv_state sv)) (\<lambda>(target, s).
           map_res (\<lambda>fp.
               (sv\<lparr>sv_fp := fp, sv_state := s,
                   sv_index := (if target = Null then sv_index sv else sv_index sv + 1)\<rparr>, False))
             (store_slot (sv_fp sv) (sv_index sv) target))))"

text \<open>The loop runs once per name and once more; the last argument counts its turns.\<close>

fun service_init :: "world \<Rightarrow> nat \<Rightarrow> nat \<Rightarrow> service \<Rightarrow> service res" where
  "service_init w fuel 0 sv = Inl Out_Of_Fuel"
| "service_init w fuel (Suc k) sv =
     bind_res (service_init_step w fuel sv) (\<lambda>(sv, done).
       if done then Inr sv else service_init w fuel k sv)"

text \<open>The lines printed and what was released, for the entries \<open>i, ..., sv_index - 1\<close>.\<close>

fun service_deinit :: "service \<Rightarrow> nat \<Rightarrow> nat \<Rightarrow> ((nat \<times> bytes) list \<times> released list) res" where
  "service_deinit sv i 0 = Inr ([], [])"
| "service_deinit sv i (Suc k) =
     bind_res (load_slot (sv_fp sv) i) (\<lambda>target.
     bind_res
       (if target \<noteq> Null then
          bind_res (load_slot (sv_fp sv) (sv_index sv)) (\<lambda>shown.
          bind_res (load_slot (sv_paths sv) (sv_index sv)) (\<lambda>path.
          bind_res (fs_target_print shown (map_option name_text path) 0) (\<lambda>lines.
          map_res (\<lambda>freed. (lines, freed)) (fs_target_delete target))))
        else Inr ([], [])) (\<lambda>(lines, freed).
     map_res (\<lambda>(lines', freed'). (lines @ lines', freed @ freed')) (service_deinit sv (i + 1) k)))"

text \<open>\<^verbatim>\<open>while (get_timestamp() - start < ms)\<close> with the check of \<^verbatim>\<open>terminate\<close> and the \<^verbatim>\<open>usleep\<close>.\<close>

fun spin_loop :: "world \<Rightarrow> nat \<Rightarrow> u64 \<Rightarrow> u64 \<Rightarrow> state \<Rightarrow> (bool \<times> state) res" where
  "spin_loop w 0 start ms s = Inl Out_Of_Fuel"
| "spin_loop w (Suc k) start ms s =
     (let (now, s) = get_timestamp w s in
      if now - start < ms then
        if w_terminate w (clock s) then Inr (False, s)
        else spin_loop w k start ms (tick s)
      else Inr (True, s))"

definition spin :: "world \<Rightarrow> nat \<Rightarrow> u64 \<Rightarrow> state \<Rightarrow> (bool \<times> state) res" where
  "spin w k ms s = (let (start, s) = get_timestamp w s in spin_loop w k start ms s)"

text \<open>\<open>spin_wait\<close> of \<^verbatim>\<open>time.c\<close>, which the daemon does not call, waits without looking at the signal.\<close>

fun spin_wait_loop :: "world \<Rightarrow> nat \<Rightarrow> u64 \<Rightarrow> u64 \<Rightarrow> state \<Rightarrow> state res" where
  "spin_wait_loop w 0 start ms s = Inl Out_Of_Fuel"
| "spin_wait_loop w (Suc k) start ms s =
     (let (now, s) = get_timestamp w s in
      if now - start < ms then spin_wait_loop w k start ms (tick s) else Inr s)"

definition spin_wait :: "world \<Rightarrow> nat \<Rightarrow> u64 \<Rightarrow> state \<Rightarrow> state res" where
  "spin_wait w k ms s = (let (start, s) = get_timestamp w s in spin_wait_loop w k start ms s)"

lemma spin_without_signal:
  assumes "\<And>t. \<not> w_terminate w t"
  shows "spin w k ms s = map_res (\<lambda>s. (True, s)) (spin_wait w k ms s)"
proof -
  have "spin_loop w k start ms s = map_res (\<lambda>s. (True, s)) (spin_wait_loop w k start ms s)" for start s
    by (induction k arbitrary: s) (simp_all add: assms split: prod.splits)
  then show ?thesis
    by (simp add: spin_def spin_wait_def split: prod.splits)
qed

text \<open>\<^verbatim>\<open>while (i < fp_index) { target = fp[i++]; if (target) fs_target_observe(target); }\<close>\<close>

fun observe_entries :: "world \<Rightarrow> service \<Rightarrow> nat \<Rightarrow> nat \<Rightarrow> service res" where
  "observe_entries w sv i 0 = Inr sv"
| "observe_entries w sv i (Suc k) =
     bind_res (load_slot (sv_fp sv) i) (\<lambda>target.
     bind_res
       (if target \<noteq> Null then
          bind_res (fs_target_observe w target (sv_state sv)) (\<lambda>(target, s, b).
            map_res (\<lambda>fp. sv\<lparr>sv_fp := fp, sv_state := s\<rparr>) (store_slot (sv_fp sv) i target))
        else Inr sv) (\<lambda>sv. observe_entries w sv (i + 1) k))"

text \<open>One round: \<open>False\<close> when the wait was ended by a signal.\<close>

definition service_round :: "world \<Rightarrow> nat \<Rightarrow> service \<Rightarrow> (service \<times> bool) res" where
  "service_round w k sv =
     bind_res (spin w k 1000 (count_round (sv_state sv))) (\<lambda>(go, s).
       let sv = sv\<lparr>sv_state := s\<rparr> in
       if \<not> go then Inr (sv, False)
       else map_res (\<lambda>sv. (sv, True)) (observe_entries w sv 0 (sv_index sv)))"

fun service_rounds :: "world \<Rightarrow> nat \<Rightarrow> nat \<Rightarrow> service \<Rightarrow> service res" where
  "service_rounds w k 0 sv = Inl Out_Of_Fuel"
| "service_rounds w k (Suc n) sv =
     bind_res (service_round w k sv) (\<lambda>(sv, go). if go then service_rounds w k n sv else Inr sv)"

definition EXIT_SUCCESS :: int where "EXIT_SUCCESS = 0"
definition EXIT_FAILURE :: int where "EXIT_FAILURE = 1"

definition SIGINT :: nat where "SIGINT = 2"
definition SIGTERM :: nat where "SIGTERM = 15"

text \<open>The handler is installed for both signals, the second only when the first call succeeds.\<close>

definition handle_signals :: "world \<Rightarrow> bool" where
  "handle_signals w = (if \<not> w_sigaction w SIGINT \<or> \<not> w_sigaction w SIGTERM then False else True)"

text \<open>
  \<^verbatim>\<open>service\<close>: its exit status, what it printed and released at the end, and the final state.
  \<open>fuel\<close> bounds the directory levels, \<open>k\<close> the turns of one wait, \<open>n\<close> the rounds.
\<close>

definition service :: "world \<Rightarrow> nat \<Rightarrow> nat \<Rightarrow> nat \<Rightarrow> file_stack \<Rightarrow>
    (int \<times> (nat \<times> bytes) list \<times> released list \<times> service) res" where
  "service w fuel k n stack =
     (let finish = (\<lambda>status sv.
            map_res (\<lambda>(lines, freed). (status, lines, freed, sv)) (service_deinit sv 0 (sv_index sv))) in
      bind_res (service_init w fuel (stack_top stack + 1) (service_start stack)) (\<lambda>sv.
        if sv_index sv = 0 then finish EXIT_FAILURE sv
        else if \<not> handle_signals w then finish EXIT_FAILURE sv
        else bind_res (service_rounds w k n sv) (\<lambda>sv. finish EXIT_FAILURE sv)))"

section \<open>Waiting\<close>

definition clock_ms :: "world \<Rightarrow> nat \<Rightarrow> u64" where
  "clock_ms w t = (let (sec, usec) = w_time w t in sec * 1000 + usec div 1000)"

lemma get_timestamp_eq: "get_timestamp w s = (clock_ms w (clock s), tick s)"
  by (simp add: get_timestamp_def clock_ms_def split: prod.splits)

lemma spin_loop_enough_fuel:
  "\<not> clock_ms w (clock s + 2 * k) - start < ms \<Longrightarrow> k < fuel \<Longrightarrow>
   \<exists>b s'. spin_loop w fuel start ms s = Inr (b, s') \<and> cur_path s' = cur_path s \<and>
     reports s' = reports s \<and> clock s < clock s'"
proof (induction k arbitrary: s fuel)
  case 0
  then show ?case
    by (cases fuel) (auto simp: get_timestamp_eq tick_def)
next
  case (Suc k)
  obtain m where m: "fuel = Suc m" "k < m"
    using Suc.prems(2) by (cases fuel) auto
  let ?s = "tick (tick s)"
  have "\<exists>b s'. spin_loop w m start ms ?s = Inr (b, s') \<and> cur_path s' = cur_path ?s \<and>
     reports s' = reports ?s \<and> clock ?s < clock s'"
    by (rule Suc.IH) (use Suc.prems(1) m in \<open>simp_all add: tick_def\<close>)
  then show ?case
    using m by (auto simp: get_timestamp_eq tick_def Let_def)
qed

section \<open>The invariant of the service\<close>

definition service_ok :: "service \<Rightarrow> bool" where
  "service_ok sv \<longleftrightarrow>
     length (sv_fp sv) = 64 \<and> length (sv_paths sv) = 64 \<and> stack_ok (sv_stack sv) \<and>
     sv_index sv + stack_top (sv_stack sv) \<le> 15 \<and>
     live_all (take (sv_index sv) (sv_fp sv)) \<and>
     list_all (\<lambda>p. p = Null) (drop (sv_index sv) (sv_fp sv)) \<and>
     path_ready (sv_state sv) \<and> cstr (cur_path (sv_state sv)) = [] \<and>
     length (cur_path (sv_state sv)) = MAX_PATH_SIZE"

definition names_ok :: "(bytes \<Rightarrow> nat) \<Rightarrow> nat \<Rightarrow> filename option list \<Rightarrow> bool" where
  "names_ok rank fuel fs \<longleftrightarrow>
     list_all (\<lambda>f. case f of None \<Rightarrow> False | Some f \<Rightarrow> is_cstr (name_text f) \<and> rank (name_text f) < fuel \<and> kept f) fs"

text \<open>All entries fit the path buffer.\<close>

definition service_fits :: "service \<Rightarrow> bool" where
  "service_fits sv \<longleftrightarrow> paths_fit MAX_PATH_SIZE [] (take (sv_index sv) (sv_fp sv))"

definition names_fit :: "(bytes \<Rightarrow> nat) \<Rightarrow> filename option list \<Rightarrow> bool" where
  "names_fit room fs \<longleftrightarrow>
     list_all (\<lambda>f. case f of None \<Rightarrow> False | Some f \<Rightarrow> room (name_text f) < MAX_PATH_SIZE) fs"

lemma service_start_ok: "stack_ok st \<Longrightarrow> service_ok (service_start st)"
  by (simp add: service_ok_def service_start_def state_init_def cur_path_init_def MAX_PATH_SIZE_def
      path_ready_def stack_ok_def FILE_STACK_SIZE_def list_all_iff cstr_def)

lemma service_init_step_ok:
  assumes world: "friendly w rank" and sv: "service_ok sv"
    and names: "names_ok rank fuel (contents (sv_stack sv))"
  shows "\<exists>sv' done. service_init_step w fuel sv = Inr (sv', done) \<and> service_ok sv' \<and>
    names_ok rank fuel (contents (sv_stack sv')) \<and> (done \<longleftrightarrow> stack_top (sv_stack sv) = 0) \<and>
    stack_top (sv_stack sv') = stack_top (sv_stack sv) - 1 \<and>
    sv_index sv' \<le> sv_index sv + 1 \<and>
    (roomy w room \<and> names_fit room (contents (sv_stack sv)) \<and> service_fits sv \<longrightarrow>
       names_fit room (contents (sv_stack sv')) \<and> service_fits sv')"
proof (cases "stack_top (sv_stack sv) = 0")
  case True
  then show ?thesis
    using sv names
    by (auto simp: service_init_step_def filename_stack_pop_def store_slot_def service_ok_def service_fits_def)
next
  case False
  have ok: "stack_ok (sv_stack sv)"
    using sv by (simp add: service_ok_def)
  obtain st' where pop: "filename_stack_pop (sv_stack sv) = Inr (last (contents (sv_stack sv)), st')"
    and st': "stack_ok st'" "contents st' = butlast (contents (sv_stack sv))"
      "stack_top st' = stack_top (sv_stack sv) - 1"
    using pop_contents [OF ok] False by auto
  have "contents (sv_stack sv) \<noteq> []"
    using ok False by (auto simp: contents_def stack_ok_def)
  then have "case last (contents (sv_stack sv)) of None \<Rightarrow> False
      | Some f \<Rightarrow> is_cstr (name_text f) \<and> rank (name_text f) < fuel \<and> kept f"
    using names last_in_set [of "contents (sv_stack sv)"] unfolding names_ok_def list_all_iff by blast
  then obtain f where f: "last (contents (sv_stack sv)) = Some f" "kept f"
    and p: "is_cstr (name_text f)" "rank (name_text f) < fuel"
    by (auto split: option.splits)
  have room: "room (name_text f) < MAX_PATH_SIZE" if "names_fit room (contents (sv_stack sv))"
    using that \<open>contents (sv_stack sv) \<noteq> []\<close> last_in_set [of "contents (sv_stack sv)"] f(1)
    unfolding names_fit_def list_all_iff by fastforce
  obtain t s' where create: "fs_target_create w fuel (name_text f) Argument (sv_state sv) = Inr (t, s')"
    and t: "t = Null \<or> live t" and fits: "roomy w room \<Longrightarrow> t \<noteq> Null \<Longrightarrow> within (room (name_text f)) t"
    using create_within [OF world p, of Argument "sv_state sv" room] by blast
  have view: "cur_path s' = cur_path (sv_state sv)"
    using create_view [OF create] by (simp add: same_view_def)
  let ?i = "sv_index sv" and ?fp = "(sv_fp sv)[sv_index sv := t]"
  have i: "?i < 64" "?i < length (sv_fp sv)" "?i < length (sv_paths sv)"
    using sv by (simp_all add: service_ok_def)
  let ?sv = "sv\<lparr>sv_stack := st', sv_paths := (sv_paths sv)[?i := Some f], sv_fp := ?fp, sv_state := s',
      sv_index := (if t = Null then ?i else ?i + 1)\<rparr>"
  have run: "service_init_step w fuel sv = Inr (?sv, False)"
    using pop f create_named_kept [OF f(2)] create i by (simp add: service_init_step_def store_slot_def Let_def)
  have "take (?i + 1) ?fp = take ?i (sv_fp sv) @ [t]"
    using i by (simp add: take_Suc_conv_app_nth)
  then have take: "take (?i + 1) ?fp = take ?i (sv_fp sv) @ [t]" .
  moreover have "drop ?i ?fp = t # drop (?i + 1) (sv_fp sv)"
    using i by (simp add: drop_update_swap Cons_nth_drop_Suc [symmetric])
  moreover have "drop ?i (sv_fp sv) = sv_fp sv ! ?i # drop (?i + 1) (sv_fp sv)"
    using i by (simp add: Cons_nth_drop_Suc)
  ultimately have "live_all (take (sv_index ?sv) ?fp)" "list_all (\<lambda>p. p = Null) (drop (sv_index ?sv) ?fp)"
    using sv t i by (auto simp: service_ok_def)
  then have "service_ok ?sv"
    using sv st' view False by (auto simp: service_ok_def path_ready_def)
  moreover have "service_fits ?sv" if "roomy w room" "names_fit room (contents (sv_stack sv))" "service_fits sv"
  proof (cases "t = Null")
    case False
    then have "path_fits MAX_PATH_SIZE [] t"
      using fits [OF that(1)] room [OF that(2)] by (simp add: within_def reach_def)
    then show ?thesis
      using that(3) take False by (simp add: service_fits_def paths_fit_all)
  qed (use that(3) in \<open>simp add: service_fits_def\<close>)
  moreover have "names_fit room (contents st')" if "names_fit room (contents (sv_stack sv))"
    using that st'(2) by (auto simp: names_fit_def list_all_iff dest: in_set_butlastD)
  moreover have "names_ok rank fuel (contents st')"
    using names st'(2) by (auto simp: names_ok_def list_all_iff dest: in_set_butlastD)
  ultimately show ?thesis
    using run st' False by auto
qed

lemma service_init_ok:
  assumes world: "friendly w rank"
  shows "service_ok sv \<Longrightarrow> names_ok rank fuel (contents (sv_stack sv)) \<Longrightarrow>
    stack_top (sv_stack sv) < k \<Longrightarrow>
    \<exists>sv'. service_init w fuel k sv = Inr sv' \<and> service_ok sv' \<and> stack_top (sv_stack sv') = 0 \<and>
      (roomy w room \<and> names_fit room (contents (sv_stack sv)) \<and> service_fits sv \<longrightarrow> service_fits sv')"
proof (induction k arbitrary: sv)
  case (Suc k)
  obtain sv1 d where step: "service_init_step w fuel sv = Inr (sv1, d)" "service_ok sv1"
    "names_ok rank fuel (contents (sv_stack sv1))" "d \<longleftrightarrow> stack_top (sv_stack sv) = 0"
    "stack_top (sv_stack sv1) = stack_top (sv_stack sv) - 1"
    "roomy w room \<and> names_fit room (contents (sv_stack sv)) \<and> service_fits sv \<longrightarrow>
       names_fit room (contents (sv_stack sv1)) \<and> service_fits sv1"
    using service_init_step_ok [OF world Suc.prems(1,2), of room] by blast
  show ?case
  proof (cases d)
    case False
    then have "stack_top (sv_stack sv1) < k"
      using step(4,5) Suc.prems(3) by simp
    then show ?thesis
      using Suc.IH [OF step(2,3)] step(1,6) False by auto
  qed (use step in auto)
qed simp


section \<open>Rounds\<close>

text \<open>Within \<open>2 * k + 1\<close> system calls the clock moves by a second.\<close>

definition advancing :: "world \<Rightarrow> nat \<Rightarrow> bool" where
  "advancing w k \<longleftrightarrow> (\<forall>t. \<not> clock_ms w (t + 1 + 2 * k) - clock_ms w t < 1000)"

lemma spin_ok:
  assumes "advancing w k" and "k < n"
  shows "\<exists>b s'. spin w n 1000 s = Inr (b, s') \<and> cur_path s' = cur_path s \<and> reports s' = reports s \<and>
    clock s < clock s'"
proof -
  have "\<not> clock_ms w (clock (tick s) + 2 * k) - clock_ms w (clock s) < 1000"
    using assms(1) by (simp add: advancing_def tick_def)
  then show ?thesis
    using spin_loop_enough_fuel [of w "tick s" k "clock_ms w (clock s)" 1000 n] assms(2)
    by (fastforce simp: spin_def get_timestamp_eq tick_def)
qed

lemma grown_fits:
  "grown p q \<Longrightarrow> path_fits n path q \<longleftrightarrow> path_fits n path p"
  "grown_all ps qs \<Longrightarrow> paths_fit n path qs \<longleftrightarrow> paths_fit n path ps"
proof (induction p q and ps qs arbitrary: path and path rule: grown_grown_all.induct)
  case (1 info evs kids info' evs' kids')
  then show ?case
    by (cases kids; cases kids') auto
qed auto

lemma live_all_nth: "live_all ps \<longleftrightarrow> (\<forall>i < length ps. live (ps ! i))"
  by (induction ps) (auto simp: nth_Cons split: nat.splits)

lemma paths_fit_nth: "paths_fit n path ps \<longleftrightarrow> (\<forall>i < length ps. path_fits n path (ps ! i))"
  by (induction ps) (auto simp: nth_Cons split: nat.splits)

lemma live_all_update: "live_all ps \<Longrightarrow> live q \<Longrightarrow> live_all (ps[i := q])"
  by (induction ps arbitrary: i) (auto split: nat.splits)

lemma paths_fit_update: "paths_fit n path ps \<Longrightarrow> path_fits n path q \<Longrightarrow> paths_fit n path (ps[i := q])"
  by (induction ps arbitrary: i) (auto split: nat.splits)

lemma observe_entries_ok:
  "service_ok sv \<Longrightarrow> service_fits sv \<Longrightarrow> i + k = sv_index sv \<Longrightarrow>
   \<exists>sv'. observe_entries w sv i k = Inr sv' \<and> service_ok sv' \<and> service_fits sv' \<and>
     sv_index sv' = sv_index sv \<and> sv_stack sv' = sv_stack sv \<and>
     clock (sv_state sv) \<le> clock (sv_state sv')"
proof (induction k arbitrary: i sv)
  case (Suc k)
  let ?t = "sv_fp sv ! i" and ?s = "sv_state sv"
  have i: "i < sv_index sv" "i < length (sv_fp sv)" "sv_index sv \<le> length (sv_fp sv)"
    using Suc.prems by (auto simp: service_ok_def)
  have t: "live ?t" "path_fits MAX_PATH_SIZE [] ?t"
    using Suc.prems i by (auto simp: service_ok_def service_fits_def live_all_nth paths_fit_nth)
  have "good_visit ?t ?s (fs_target_observe w ?t ?s)"
    using observe_good(1) [OF t(1)] t(2) Suc.prems(1) by (simp add: service_ok_def)
  then obtain q s' where q: "fs_target_observe w ?t ?s = Inr (q, s', True)" "live q" "grown ?t q"
    and v: "visited (node_count ?t) ?s s'"
    by (auto simp: good_visit_def)
  define sv1 where "sv1 = sv\<lparr>sv_fp := (sv_fp sv)[i := q], sv_state := s'\<rparr>"
  have fits: "path_fits MAX_PATH_SIZE [] q"
    using grown_fits(1) [OF q(3)] t(2) by simp
  have take: "take (sv_index sv) (sv_fp sv1) = (take (sv_index sv) (sv_fp sv))[i := q]"
    by (simp add: sv1_def take_update_swap)
  have drop: "drop (sv_index sv) (sv_fp sv1) = drop (sv_index sv) (sv_fp sv)"
    using i by (simp add: sv1_def)
  have "service_ok sv1"
    using Suc.prems(1) v take drop q(2)
    by (simp add: service_ok_def visited_def sv1_def live_all_update)
  moreover have "service_fits sv1"
    using Suc.prems(2) fits take by (simp add: service_fits_def sv1_def paths_fit_update)
  moreover have "i + 1 + k = sv_index sv1"
    using Suc.prems(3) by (simp add: sv1_def)
  ultimately obtain sv' where "observe_entries w sv1 (i + 1) k = Inr sv'" "service_ok sv'"
    "service_fits sv'" "sv_index sv' = sv_index sv1" "sv_stack sv' = sv_stack sv1"
    "clock (sv_state sv1) \<le> clock (sv_state sv')"
    using Suc.IH by blast
  moreover have "?t \<noteq> Null"
    using t(1) by auto
  ultimately show ?case
    using q(1) i v by (auto simp: load_slot_def store_slot_def sv1_def visited_def)
qed simp

lemma service_round_ok:
  assumes "service_ok sv" and "service_fits sv" and "advancing w k" and "k < n"
  shows "\<exists>sv' go. service_round w n sv = Inr (sv', go) \<and> service_ok sv' \<and> service_fits sv' \<and>
    sv_index sv' = sv_index sv \<and> clock (sv_state sv) < clock (sv_state sv')"
proof -
  obtain b s' where spin: "spin w n 1000 (count_round (sv_state sv)) = Inr (b, s')"
    and s': "cur_path s' = cur_path (sv_state sv)" "clock (sv_state sv) < clock s'"
    using spin_ok [OF assms(3,4), of "count_round (sv_state sv)"] by (auto simp: count_round_def)
  let ?sv = "sv\<lparr>sv_state := s'\<rparr>"
  have ok: "service_ok ?sv" "service_fits ?sv"
    using assms(1,2) s' by (simp_all add: service_ok_def service_fits_def path_ready_def)
  obtain sv2 where "observe_entries w ?sv 0 (sv_index ?sv) = Inr sv2" "service_ok sv2"
    "service_fits sv2" "sv_index sv2 = sv_index sv"
    "clock s' \<le> clock (sv_state sv2)"
    using observe_entries_ok [OF ok, of 0 "sv_index ?sv" w] by auto
  then show ?thesis
    using spin ok s' by (cases b) (auto simp: service_round_def Let_def)
qed

text \<open>Rounds continue until one is ended by the signal; \<open>n\<close> rounds do not run out before.\<close>

lemma service_rounds_ok:
  assumes "advancing w k" and "k < n"
  shows "service_ok sv \<Longrightarrow> service_fits sv \<Longrightarrow>
    service_rounds w n m sv = Inl Out_Of_Fuel \<or>
    (\<exists>sv'. service_rounds w n m sv = Inr sv' \<and> service_ok sv' \<and> service_fits sv' \<and>
       sv_index sv' = sv_index sv)"
proof (induction m arbitrary: sv)
  case (Suc m)
  obtain sv1 go where "service_round w n sv = Inr (sv1, go)" "service_ok sv1" "service_fits sv1"
    "sv_index sv1 = sv_index sv"
    using service_round_ok [OF Suc.prems assms] by blast
  then show ?case
    using Suc.IH [of sv1] by (cases go) auto
qed simp

text \<open>
  A signal that has arrived ends the next wait, provided two readings of the clock in a row
  are less than a second apart: only then does the loop look at \<^verbatim>\<open>terminate\<close>.
\<close>

definition terminating :: "world \<Rightarrow> nat \<Rightarrow> bool" where
  "terminating w T \<longleftrightarrow>
     (\<forall>t \<ge> T. w_terminate w t \<and> clock_ms w (t + 1) - clock_ms w t < 1000)"

lemma service_round_terminated:
  assumes "terminating w T" and "T \<le> clock (sv_state sv)" and "service_round w (Suc n) sv = Inr (sv', go)"
  shows "\<not> go"
proof -
  let ?c = "clock (sv_state sv)"
  have "w_terminate w (?c + 2)" "clock_ms w (?c + 1) - clock_ms w ?c < 1000"
    using assms(1,2) by (simp_all add: terminating_def)
  then obtain s' where "spin w (Suc n) 1000 (count_round (sv_state sv)) = Inr (False, s')"
    by (simp add: spin_def get_timestamp_eq tick_def count_round_def)
  then show ?thesis
    using assms(3) by (auto simp: service_round_def bind_res_Inr_iff Let_def)
qed

lemma service_rounds_end:
  assumes "advancing w k" and "k < n" and ends: "terminating w T"
  shows "service_ok sv \<Longrightarrow> service_fits sv \<Longrightarrow> 0 < m \<Longrightarrow> T < clock (sv_state sv) + m \<Longrightarrow>
    \<exists>sv'. service_rounds w n m sv = Inr sv' \<and> service_ok sv' \<and> service_fits sv' \<and>
       sv_index sv' = sv_index sv"
proof (induction m arbitrary: sv)
  case (Suc m)
  obtain sv1 go where round: "service_round w n sv = Inr (sv1, go)" "service_ok sv1" "service_fits sv1"
    "sv_index sv1 = sv_index sv" "clock (sv_state sv) < clock (sv_state sv1)"
    using service_round_ok [OF Suc.prems(1,2) assms(1,2)] by blast
  show ?case
  proof (cases go)
    case True
    then have "\<not> T \<le> clock (sv_state sv)"
      using service_round_terminated [OF ends] round(1) assms(2) by (cases n) auto
    then show ?thesis
      using Suc.IH [OF round(2,3)] round True Suc.prems(4) by auto
  qed (use round in simp)
qed simp

section \<open>The end\<close>

lemma service_deinit_ok:
  assumes ok: "service_ok sv"
  shows "i + k = sv_index sv \<Longrightarrow> \<exists>freed. service_deinit sv i k = Inr ([], freed) \<and>
    length (filter is_node freed) = nodes_count (drop i (take (sv_index sv) (sv_fp sv)))"
proof (induction k arbitrary: i)
  case 0
  then show ?case by simp
next
  case (Suc k)
  let ?ps = "take (sv_index sv) (sv_fp sv)"
  have i: "i < sv_index sv" "i < length (sv_fp sv)" "i < length ?ps" "sv_index sv < length (sv_fp sv)"
    "sv_index sv < length (sv_paths sv)"
    using Suc.prems ok by (auto simp: service_ok_def)
  then have t: "live (sv_fp sv ! i)"
    using ok by (auto simp: service_ok_def live_all_nth)
  then obtain t where ptr: "sv_fp sv ! i = Ptr t"
    by (cases "sv_fp sv ! i") auto
  then obtain fr where fr: "fs_target_dealloc t = Inr fr"
    "length (filter is_node fr) = node_count (Ptr t)"
    using dealloc_counts(1) [of t] t by auto
  have null: "sv_fp sv ! sv_index sv = Null"
    using ok i(4) Cons_nth_drop_Suc [OF i(4)] by (auto simp: service_ok_def) (metis list.pred_inject(2))
  obtain freed where "service_deinit sv (i + 1) k = Inr ([], freed)"
    "length (filter is_node freed) = nodes_count (drop (i + 1) ?ps)"
    using Suc.IH [of "i + 1"] Suc.prems by auto
  moreover have "drop i ?ps = Ptr t # drop (i + 1) ?ps"
    using i ptr Cons_nth_drop_Suc [OF i(3)] by simp
  ultimately show ?case
    using i ptr null fr by (simp add: load_slot_def)
qed

text \<open>From the snapshots to the release.\<close>

lemma service_ends:
  assumes "friendly w rank" and "roomy w room"
    and "stack_ok st" and "names_ok rank fuel (contents st)" and "names_fit room (contents st)"
    and "advancing w k" and "k < n" and "terminating w T" and "T < m"
  shows "\<exists>freed sv. service w fuel n m st = Inr (EXIT_FAILURE, [], freed, sv) \<and> service_ok sv \<and>
    length (filter is_node freed) = nodes_count (take (sv_index sv) (sv_fp sv))"
proof -
  have start: "service_ok (service_start st)" "service_fits (service_start st)" "sv_stack (service_start st) = st"
    using service_start_ok [OF assms(3)] by (simp_all add: service_start_def service_fits_def)
  obtain sv where init: "service_init w fuel (stack_top st + 1) (service_start st) = Inr sv"
    and sv: "service_ok sv" "service_fits sv"
    using service_init_ok [OF assms(1) start(1), of fuel "stack_top st + 1" room] assms(2,4,5) start by auto
  obtain sv' where rounds: "service_rounds w n m sv = Inr sv'" and sv': "service_ok sv'"
    using service_rounds_end [OF assms(6-8) sv, of m] assms(9) by auto
  have finish: "\<exists>freed. service_deinit u 0 (sv_index u) = Inr ([], freed) \<and>
      length (filter is_node freed) = nodes_count (take (sv_index u) (sv_fp u))" if "service_ok u" for u
    using service_deinit_ok [OF that, of 0 "sv_index u"] by simp
  show ?thesis
    using init rounds finish [OF sv(1)] finish [OF sv'] sv(1) sv'
    by (auto simp: service_def Let_def simp del: service_init.simps service_deinit.simps)
qed

end
