(* ===== verification/Watch_Properties.thy ===== *)
theory Watch_Properties
  imports Service
begin

text \<open>
  The properties of the watching side of the daemon: current path, events, snapshots, rounds
  of observation and the service, each with an application to the small system below.
\<close>

section \<open>Sample systems of the witnesses\<close>

definition sample_heap :: allocator where
  "sample_heap = \<lparr>grants = (\<lambda>_. True), junk = (\<lambda>_. 0), zero_frees = True\<rparr>"

definition dir_stat :: stat where
  "dir_stat = zero_stat\<lparr>st_dev := 1, st_ino := 2, st_mode := 0x41ED\<rparr>"

definition reg_stat :: stat where
  "reg_stat = zero_stat\<lparr>st_dev := 1, st_ino := 3, st_mode := 0x81A4, st_size := 10\<rparr>"

text \<open>The directory \<open>d\<close> with the file \<open>d/f\<close>, and one second per system call.\<close>

definition sample_lstat :: "bytes \<Rightarrow> lstat_result" where
  "sample_lstat p = (if p = [100] then Stat dir_stat else if p = [100, 47, 102] then Stat reg_stat else ENOENT)"

definition sample_world :: world where
  "sample_world = \<lparr>w_lstat = (\<lambda>t. sample_lstat),
     w_readdir = (\<lambda>t p. Some (if p = [100] then [[46], [46, 46], [102]] else [])),
     w_time = (\<lambda>t. (of_nat t, 0)), w_alloc = (\<lambda>t. sample_heap), w_terminate = (\<lambda>t. 100 \<le> t),
     w_sigaction = (\<lambda>_. True)\<rparr>"

definition sample_rank :: "bytes \<Rightarrow> nat" where
  "sample_rank p = (if snd (basename p) = [100] then 1 else 0)"

lemma sample_friendly: "friendly sample_world sample_rank"
  by (auto simp: friendly_def sample_world_def sample_heap_def sample_rank_def join_path_def
      basename_def strip_slashes_def is_cstr_def)

lemma sample_advancing: "advancing sample_world 0"
  by (simp add: advancing_def clock_ms_def sample_world_def algebra_simps)

definition sample_events :: "path_ref \<Rightarrow> stat \<Rightarrow> event seq" where
  "sample_events ref st = \<lparr>s_items = [\<lparr>e_mask = 2, e_path = ref, e_at = 0, e_st = st\<rparr>], s_cap = 2016,
     s_elt_size = 168, s_settled = False\<rparr>"

definition sample_file :: "fs_target cptr" where
  "sample_file = Ptr (Target \<lparr>f_uid = fuid_create reg_stat, f_type = normal, f_name = [102], f_ok = True\<rparr>
     (sample_events Freed_Path reg_stat) No_Kids)"

definition sample_dir :: "fs_target cptr" where
  "sample_dir = Ptr (Target \<lparr>f_uid = fuid_create dir_stat, f_type = directory, f_name = [100], f_ok = True\<rparr>
     (sample_events (Argument [100]) dir_stat) (Kids [sample_file] 96))"

lemma sample_history: "history_ok (sample_events ref st)"
  by (simp add: history_ok_def sample_events_def seq_small_def seq_wf_def sizeof_event_def)

lemma sample_live: "live sample_dir"
  by (simp add: sample_dir_def sample_file_def sample_history)

lemma state_init_ready: "path_ready state_init" "cstr (cur_path state_init) = []"
  by (simp_all add: state_init_def path_ready_def cur_path_init_def MAX_PATH_SIZE_def cstr_def)

lemma sample_fits: "path_fits (length (cur_path state_init)) (cstr (cur_path state_init)) sample_dir"
  unfolding state_init_ready(2)
  by (simp add: sample_dir_def sample_file_def state_init_def cur_path_init_def MAX_PATH_SIZE_def enter_def)

section \<open>The path of the target being observed\<close>

text \<open>
  C21: entering names one below the other and leaving them in reverse order restores the current
  path, for every path and names the buffer has room for, and nothing is written outside the
  buffer on the way.
\<close>

theorem enter_leave_restores:
  assumes "0 \<in> set buf" and "\<forall>n \<in> set names. is_cstr n"
    and "length (foldl enter (cstr buf) names) < length buf"
  shows "\<exists>buf1 buf2. each_res (\<lambda>n. set_current_wd (Some n)) names buf = Inr buf1 \<and>
    cstr buf1 = foldl enter (cstr buf) names \<and>
    each_res (\<lambda>n. unset_current_wd (Some n)) (rev names) buf1 = Inr buf2 \<and>
    cstr buf2 = cstr buf \<and> length buf2 = length buf"
  using wd.down_and_up [OF assms] by blast

theorem enter_leave_restores_witness:
  "\<exists>buf1. each_res (\<lambda>n. set_current_wd (Some n)) [[98], [99]] [97, 0, 0, 0, 0, 0] = Inr buf1 \<and>
    cstr buf1 = [97, 47, 98, 47, 99]"
  using enter_leave_restores [of "[97, 0, 0, 0, 0, 0]" "[[98], [99]]"]
  by (auto simp: cstr_def enter_def is_cstr_def)

text \<open>
  C31: a path that does not fit the buffer with its terminator is written past its end:
  \<^verbatim>\<open>set_current_wd\<close> has no check against \<^verbatim>\<open>MAX_PATH_SIZE\<close>.
\<close>

theorem enter_overflows:
  assumes "0 \<in> set buf" and "is_cstr name" and "length buf \<le> length (enter (cstr buf) name)"
  shows "set_current_wd (Some name) buf = Inl Out_Of_Bounds"
proof -
  obtain rest where "buf = cstr buf @ 0 # rest"
    using cstr_split [OF assms(1)] by blast
  then show ?thesis
    using set_current_wd_overflow [of "cstr buf" name rest] assms(2,3) is_cstr_cstr by metis
qed

theorem enter_overflows_witness: "set_current_wd (Some [98, 99]) [97, 0, 0, 0] = Inl Out_Of_Bounds"
  using enter_overflows [of "[97, 0, 0, 0]" "[98, 99]"] by (simp add: cstr_def enter_def)

text \<open>
  \<open>attach\<close> never writes outside the block it allocates and builds the directory and the
  name joined by one slash, the name alone below the directory \<^verbatim>\<open>.\<close>.
\<close>

theorem attach_joins:
  assumes "is_cstr dirname" and "is_cstr name" and "grants al (of_nat (length dirname + length name + 2))"
  shows "\<exists>buf. attach al dirname name = Inr (Ptr buf) \<and> cstr buf =
    (if dirname = [46] then name
     else if dirname = [] \<or> last dirname = SLASH then dirname @ name
     else dirname @ SLASH # name)"
  using attach_cases [OF assms(1,2), of al] assms(3) by (auto simp: join_path_def)

theorem attach_joins_witness: "\<exists>buf. attach sample_heap [97, 98] [99] = Inr (Ptr buf) \<and> cstr buf = [97, 98, 47, 99]"
  using attach_joins [of "[97, 98]" "[99]" sample_heap] by (simp add: sample_heap_def)

section \<open>Events\<close>

text \<open>
  The comparison of two results of \<^verbatim>\<open>lstat\<close> is a modification exactly when the device,
  inode, mode, modification time or size differ, an access exactly when only the access time
  does, and nothing exactly when all six agree.
\<close>

theorem cmp_stat_classifies:
  "cmp_stat a b =
     (if st_dev a = st_dev b \<and> st_ino a = st_ino b \<and> st_mode a = st_mode b \<and>
         st_mtime a = st_mtime b \<and> st_size a = st_size b
      then if st_atime a = st_atime b then 0 else EVENT_OPEN
      else EVENT_MODIFY)"
  by (rule cmp_stat_cases)

text \<open>
  C15: tracking a target does nothing but read the clock and the file when \<^verbatim>\<open>lstat\<close> agrees with
  the latest event. Otherwise it appends the event of the change, its mask, status and time, at
  the end of the history, whose earlier events it never touches, and prints the one line of that
  event: the current path, the label of its mask, the owner and the times of its status. Only when
  the heap may refuse memory or the history has reached a gigabyte can the event of a later change be
  lost; then the history stays as it was and the line shows its last event again.
\<close>

theorem track_appends_change:
  assumes "history_ok evs" and "path_ready s"
  shows "\<exists>evs' s'. fs_target_event_track w evs s = Inr (evs', s', True) \<and> history_ok evs' \<and>
    (let e = change_event w (e_st (last (s_items evs))) s in
     if e_mask e = 0 then evs' = evs \<and> reports s' = reports s
     else s_items evs' = s_items evs @ [e] \<and> reports s' = report_of (cstr (cur_path s)) e # reports s \<or>
       \<not> assured w evs \<and> length (s_items evs) \<noteq> 1 \<and> s_items evs' = s_items evs \<and>
         reports s' = report_of (cstr (cur_path s)) (last (s_items evs)) # reports s)"
proof -
  obtain evs' s' where run: "fs_target_event_track w evs s = Inr (evs', s', True)" "tracked w evs s evs' s'"
    and line: "e_mask (change_event w (e_st (last (s_items evs))) s) \<noteq> 0 \<Longrightarrow>
      reports s' = report_of (cstr (cur_path s)) (last (s_items evs')) # reports s"
    using fs_target_event_track_ok [OF assms] by metis
  show ?thesis
  proof (cases "e_mask (change_event w (e_st (last (s_items evs))) s) = 0")
    case True
    then show ?thesis
      using run by (auto simp: tracked_def Let_def)
  next
    case False
    then have "history_ok evs'" "s_items evs' = s_items evs @ [change_event w (e_st (last (s_items evs))) s] \<or>
        s_items evs' = s_items evs \<and> length (s_items evs) \<noteq> 1 \<and> \<not> assured w evs"
      using run(2) by (simp_all add: tracked_def Let_def)
    then show ?thesis
      using run(1) line [OF False] False unfolding Let_def by fastforce
  qed
qed

text \<open>A file that is gone: the second event of its history, and the line of its deletion.\<close>

theorem track_appends_change_witness:
  "\<exists>evs' s'. fs_target_event_track sample_world (sample_events Cur_Path reg_stat) state_init = Inr (evs', s', True) \<and>
     map e_mask (s_items evs') = [2, 16] \<and> map r_label (reports s') = [''DELETE'']"
proof -
  have "e_mask (change_event sample_world reg_stat state_init) = 16"
    by (simp add: change_event_def Let_def sample_world_def sample_lstat_def change_mask_def state_init_ready(2))
  moreover have "reports state_init = []"
    by (simp add: state_init_def)
  ultimately show ?thesis
    using track_appends_change [OF sample_history [of Cur_Path reg_stat] state_init_ready(1),
        where w = sample_world]
    by (auto simp: Let_def sample_events_def report_of_def event_label_def)
qed

text \<open>
  A target whose file is gone is reported again on every call, whatever was recorded
  before: the latest event is compared only when \<^verbatim>\<open>lstat\<close> succeeds.
\<close>

theorem deletion_repeats:
  assumes "history_ok evs" and "path_ready s"
    and "w_lstat w (clock s + 1) (cstr (cur_path s)) = ENOENT"
  shows "\<exists>evs' s'. fs_target_event_track w evs s = Inr (evs', s', True) \<and>
    length (reports s') = length (reports s) + 1 \<and>
    (length (s_items evs') = length (s_items evs) + 1 \<longrightarrow> e_mask (last (s_items evs')) = EVENT_DELETE)"
proof -
  obtain evs' s' where run: "fs_target_event_track w evs s = Inr (evs', s', True)" "tracked w evs s evs' s'"
    using fs_target_event_track_ok [OF assms(1,2)] by blast
  have "e_mask (change_event w (e_st (last (s_items evs))) s) = EVENT_DELETE"
    using assms(3) by (simp add: change_event_def Let_def change_mask_def)
  then show ?thesis
    using run by (auto simp: tracked_def Let_def)
qed

theorem deletion_repeats_witness:
  "\<exists>evs' s'. fs_target_event_track sample_world
       (sample_events Cur_Path zero_stat\<lparr>s_items := [\<lparr>e_mask = 16, e_path = Cur_Path, e_at = 0, e_st = zero_stat\<rparr>]\<rparr>)
       state_init = Inr (evs', s', True) \<and> length (reports s') = 1"
proof -
  let ?evs = "sample_events Cur_Path zero_stat\<lparr>s_items := [\<lparr>e_mask = 16, e_path = Cur_Path, e_at = 0, e_st = zero_stat\<rparr>]\<rparr>"
  have "history_ok ?evs"
    by (simp add: history_ok_def sample_events_def seq_small_def seq_wf_def sizeof_event_def)
  moreover have "w_lstat sample_world (clock state_init + 1) (cstr (cur_path state_init)) = ENOENT"
    by (simp add: sample_world_def sample_lstat_def state_init_ready(2))
  moreover have "reports state_init = []"
    by (simp add: state_init_def)
  ultimately show ?thesis
    using deletion_repeats [of ?evs state_init sample_world] state_init_ready(1) by auto
qed

text \<open>
  The identifier of a file determines its device and inode as long as both are below
  \<open>2 ^ 32\<close>; the type of a target is decided by the file type bits of the mode alone.
\<close>

theorem fuid_injective:
  assumes "unat (st_ino a) < 2 ^ 32" and "unat (st_dev a) < 2 ^ 32"
    and "unat (st_ino b) < 2 ^ 32" and "unat (st_dev b) < 2 ^ 32"
    and "fuid_create a = fuid_create b"
  shows "st_ino a = st_ino b \<and> st_dev a = st_dev b"
proof -
  have low: "n < 32" if "unat w < 2 ^ 32" and "bit w n" for w :: u64 and n
  proof -
    have "take_bit 32 w = w"
      using that(1) by (simp add: word_unat_eq_iff unsigned_take_bit_eq take_bit_nat_eq_self)
    then show ?thesis
      using that(2) by (metis bit_take_bit_iff)
  qed
  have split: "bit (fuid_create s) n \<longleftrightarrow> (if n < 32 then bit (st_dev s) n else n < 64 \<and> bit (st_ino s) (n - 32))"
    if "unat (st_ino s) < 2 ^ 32" "unat (st_dev s) < 2 ^ 32" for s n
    using low [OF that(2), of n] by (auto simp: fuid_create_def bit_simps)
  have "bit (st_dev a) n \<longleftrightarrow> bit (st_dev b) n" for n
    using split [OF assms(1,2), of n] split [OF assms(3,4), of n] assms(5)
      low [OF assms(2), of n] low [OF assms(4), of n] by (cases "n < 32") auto
  moreover have "bit (st_ino a) n \<longleftrightarrow> bit (st_ino b) n" for n
    using split [OF assms(1,2), of "n + 32"] split [OF assms(3,4), of "n + 32"] assms(5)
      low [OF assms(1), of n] low [OF assms(3), of n] by (cases "n < 32") auto
  ultimately show ?thesis
    by (simp add: bit_eq_iff)
qed

theorem fuid_injective_witness:
  "fuid_create reg_stat \<noteq> fuid_create dir_stat"
  using fuid_injective [of reg_stat dir_stat] by (auto simp: reg_stat_def dir_stat_def zero_stat_def)


section \<open>Snapshots\<close>

text \<open>
  C10: on a system that grants memory, opens every directory and has no infinite path, taking
  a snapshot ends (with one unit of fuel per directory level) without a fault, and what it
  returns is NULL or a live tree: every child pointer live, every history started.
\<close>

theorem create_returns_live:
  assumes "friendly w rank" and "is_cstr path" and "rank path < fuel"
  shows "\<exists>p s'. fs_target_create w fuel path ref s = Inr (p, s') \<and> (p = Null \<or> live p) \<and>
    cur_path s' = cur_path s"
  using create_ok [OF assms, of ref s] create_view [of w fuel path ref s]
  by (auto simp: same_view_def) 

theorem create_returns_live_witness:
  "\<exists>p s'. fs_target_create sample_world 2 [100] Argument state_init = Inr (p, s') \<and> (p = Null \<or> live p)"
proof -
  have "sample_rank [100] < 2" "is_cstr [100 :: u8]"
    by (simp_all add: sample_rank_def)
  then show ?thesis
    using create_returns_live [OF sample_friendly] by metis
qed

text \<open>
  C29: when a directory cannot be opened, \<^verbatim>\<open>handle_children\<close> releases the target and
  \<^verbatim>\<open>fs_target_create\<close> still returns its pointer, so that the next observation of it, like its
  deletion, is a use after free.
\<close>

theorem unreadable_directory_dangles:
  assumes "\<forall>t n. grants (w_alloc w t) n" and "\<forall>t p. w_lstat w t p = Stat st"
    and "filetype_of (st_mode st) = directory" and "\<forall>t p. w_readdir w t p = None"
  shows "\<exists>s'. fs_target_create w (Suc n) path ref s = Inr (Dangling, s') \<and>
    fs_target_observe w Dangling s' = Inl Use_After_Free"
proof -
  obtain b q where bq: "basename path = (b, q)"
    by (cases "basename path")
  have mem: "grants (heap w s) k" for s k
    using assms(1) by (simp add: heap_def)
  let ?s = "count_stat (tick s)"
  obtain evs s1 where init: "fs_target_event_init w q (ref q) ?s = Inr (Some evs, s1)"
    using event_init_ok [of w ?s q "ref q"] assms(1,2) by blast
  obtain cap where kids: "fs_target_children_init (heap w s1) = Inr (Kids [] cap, True)"
    using seq_create_kids [of "heap w s1"] mem by blast
  show ?thesis
    using init kids assms(2-4) mem
    by (simp add: create_defs bq handle_children_def directory_open_def)
qed

definition locked_world :: world where
  "locked_world = sample_world\<lparr>w_lstat := (\<lambda>t p. Stat dir_stat), w_readdir := (\<lambda>t p. None)\<rparr>"

theorem unreadable_directory_dangles_witness:
  "\<exists>s'. fs_target_create locked_world 1 [100] Argument state_init = Inr (Dangling, s')"
proof -
  have "filetype_of (st_mode dir_stat) = directory"
    by (simp add: dir_stat_def filetype_of_def S_IFMT_def Let_def)
  then show ?thesis
    using unreadable_directory_dangles [of locked_world dir_stat 0 "[100]" Argument state_init]
    by (auto simp: locked_world_def sample_world_def sample_heap_def)
qed

text \<open>
  Releasing a live tree succeeds and hands every target of the tree and every name to
  \<^verbatim>\<open>free\<close> exactly once (the event arrays are never released).
\<close>

theorem delete_releases_all:
  assumes "live p"
  shows "\<exists>freed. fs_target_delete p = Inr freed \<and>
    length (filter is_node freed) = node_count p \<and> length (filter is_name freed) = node_count p"
  using assms dealloc_counts(1) by (cases p) auto

theorem delete_releases_all_witness:
  "\<exists>freed. fs_target_delete sample_dir = Inr freed \<and> length (filter is_node freed) = 2"
  using delete_releases_all [OF sample_live] by (auto simp: sample_dir_def sample_file_def)

section \<open>Rounds of observation\<close>

text \<open>
  C8: observing a live tree whose paths fit the path buffer ends without a fault, keeps the
  tree (its shape, names, types and earlier events), adds at most one event to each target,
  prints at most one line per target, and leaves the current path as it was.
\<close>

theorem observe_preserves:
  assumes "live p" and "path_ready s" and "path_fits (length (cur_path s)) (cstr (cur_path s)) p"
  shows "\<exists>q s'. fs_target_observe w p s = Inr (q, s', True) \<and> live q \<and> grown p q \<and>
    cstr (cur_path s') = cstr (cur_path s) \<and>
    (\<exists>lines. reports s' = lines @ reports s \<and> length lines \<le> node_count p)"
  using observe_good(1) [OF assms, of w] by (auto simp: good_visit_def visited_def)

theorem observe_preserves_witness:
  "\<exists>q s'. fs_target_observe sample_world sample_dir state_init = Inr (q, s', True) \<and> live q \<and>
     grown sample_dir q \<and> cstr (cur_path s') = []"
  using observe_preserves [OF sample_live state_init_ready(1) sample_fits, where w = sample_world]
  by (auto simp: state_init_ready(2))

text \<open>
  When the status of every target is still that of its latest event, a round changes no
  target and prints nothing.
\<close>

theorem observe_quiet_unchanged:
  assumes "live p" and "path_ready s" and "path_fits (length (cur_path s)) (cstr (cur_path s)) p"
    and "\<forall>t path. w_lstat w t path = fs path" and "quiet fs (cstr (cur_path s)) p"
  shows "\<exists>s'. fs_target_observe w p s = Inr (p, s', True) \<and> reports s' = reports s \<and>
    cstr (cur_path s') = cstr (cur_path s)"
  using observe_quiet(1) [of w fs p s] assms by (auto simp: unmoved_def)

theorem observe_quiet_unchanged_witness:
  "\<exists>s'. fs_target_observe sample_world sample_dir state_init = Inr (sample_dir, s', True) \<and> reports s' = []"
proof -
  have "quiet sample_lstat (cstr (cur_path state_init)) sample_dir"
    unfolding state_init_ready(2)
    by (simp add: sample_dir_def sample_file_def sample_events_def enter_def sample_lstat_def
        change_mask_def cmp_stat_cases)
  moreover have "\<forall>t path. w_lstat sample_world t path = sample_lstat path"
    by (simp add: sample_world_def)
  ultimately show ?thesis
    using observe_quiet_unchanged [OF sample_live state_init_ready(1) sample_fits, of sample_world sample_lstat]
    by (auto simp: state_init_def)
qed

text \<open>
  C30: a regular file given by a path with a directory part is observed under its base name
  alone: unless the working directory has a file of that name, the first round reports the
  file deleted although its snapshot succeeded.
\<close>

theorem root_observed_by_base_name:
  assumes "\<forall>t n. grants (w_alloc w t) n" and "basename path = (b, path)" and "is_cstr path"
    and "length b < MAX_PATH_SIZE"
    and "\<forall>t. w_lstat w t path = Stat st" and "filetype_of (st_mode st) \<notin> {directory, unknown}"
    and "\<forall>t. w_lstat w t b = ENOENT"
  shows "\<exists>p s1 q s2 line. fs_target_create w (Suc n) path Argument state_init = Inr (p, s1) \<and>
    fs_target_observe w p s1 = Inr (q, s2, True) \<and> reports s2 = [line] \<and>
    r_label line = ''DELETE'' \<and> r_path line = b"
proof -
  let ?s = "count_stat (tick state_init)"
  define info where "info = \<lparr>f_uid = fuid_create st, f_type = filetype_of (st_mode st),
    f_name = b, f_ok = True\<rparr>"
  have mem: "grants (heap w s) k" for s k
    using assms(1) by (simp add: heap_def)
  obtain evs s1 where init: "fs_target_event_init w path (Argument path) ?s = Inr (Some evs, s1)"
    and hist: "history_ok evs" and single: "length (s_items evs) = 1"
    using event_init_ok [of w ?s path "Argument path"] assms(1,5) by fastforce
  have "same_view state_init s1"
    using event_init_view [OF init] by simp
  then have view: "cur_path s1 = cur_path state_init" "reports s1 = []"
    by (simp_all add: same_view_def) (simp add: state_init_def)
  have create: "fs_target_create w (Suc n) path Argument state_init =
      Inr (Ptr (Target info evs No_Kids), count_target s1)"
    using init mem assms(2,5,6) by (simp add: create_defs info_def)
  have b: "is_cstr b"
    using basename_cstr(1) [OF assms(3)] assms(2) by simp
  obtain buf where buf: "set_current_wd (Some b) (cur_path s1) = Inr buf" "0 \<in> set buf"
    "cstr buf = b" "length buf = length (cur_path s1)"
    by (rule enter_wd [of "cur_path s1" b])
       (use b assms(4) view state_init_ready in \<open>auto simp: enter_def path_ready_def state_init_def cur_path_init_def\<close>)
  let ?t = "(count_target s1)\<lparr>cur_path := buf\<rparr>"
  have ready: "path_ready ?t" and fields: "cur_path (count_target s1) = cur_path s1" "reports ?t = []"
    using buf view by (simp_all add: path_ready_def count_target_def)
  obtain evs' s2 where track: "fs_target_event_track w evs ?t = Inr (evs', s2, True)"
    and tr: "tracked w evs ?t evs' s2"
    using fs_target_event_track_ok [OF hist ready] by blast
  have "e_mask (change_event w (e_st (last (s_items evs))) ?t) = EVENT_DELETE"
    using assms(7) buf by (simp add: change_event_def Let_def change_mask_def)
  then obtain line where line: "reports s2 = [line]" "r_path line = b" "r_label line = ''DELETE''"
    using tr single fields(2) buf by (auto simp: tracked_def Let_def event_label_def)
  have s2: "cur_path s2 = buf"
    using tr by (simp add: tracked_def Let_def)
  obtain buf2 where buf2: "unset_current_wd (Some b) buf = Inr buf2"
    using leave_wd [of buf "[]" b] buf b by (auto simp: enter_def)
  have "fs_target_observe w (Ptr (Target info evs No_Kids)) (count_target s1) =
      Inr (Ptr (Target info evs' No_Kids), s2\<lparr>cur_path := buf2\<rparr>, True)"
    using buf(1) fields track s2 buf2 assms(6) by (simp add: info_def)
  then show ?thesis
    using create line by auto
qed

definition file_world :: world where
  "file_world = sample_world\<lparr>w_lstat := (\<lambda>t p. if p = [100, 47, 102] then Stat reg_stat else ENOENT)\<rparr>"

theorem root_observed_by_base_name_witness:
  "\<exists>p s1 q s2 line. fs_target_create file_world 1 [100, 47, 102] Argument state_init = Inr (p, s1) \<and>
    fs_target_observe file_world p s1 = Inr (q, s2, True) \<and> reports s2 = [line] \<and>
    r_label line = ''DELETE'' \<and> r_path line = [102]"
proof -
  have "basename [100, 47, 102] = ([102], [100, 47, 102])"
    by (simp add: basename_def strip_slashes_def)
  moreover have "filetype_of (st_mode reg_stat) = normal"
    by (simp add: reg_stat_def filetype_of_def S_IFMT_def Let_def)
  ultimately show ?thesis
    using root_observed_by_base_name [of file_world "[100, 47, 102]" "[102]" reg_stat 0]
    by (simp add: file_world_def sample_world_def sample_heap_def MAX_PATH_SIZE_def)
qed

section \<open>The service\<close>

text \<open>
  File names come off the stack in the order of the command line once it has been
  reversed, and never leave its 16 slots; names beyond the fifteenth are dropped.
\<close>

theorem names_in_order:
  "\<exists>st st' st''. push_names fs stack_init = Inr st \<and> stack_reverse_in_place st = Inr st' \<and>
    pop_names (min 15 (length fs)) st' = Inr (take 15 fs, st'')"
  by (rule names.first_in_first_out)
     (simp_all add: stack_ok_def stack_init_def FILE_STACK_SIZE_def contents_def)

text \<open>
  On a cooperating system the snapshot phase ends after every name was popped, without a
  fault; at most 15 of the 64 entries are used, the used ones are live trees and the others
  NULL.
\<close>

theorem service_init_fills:
  assumes "friendly w rank" and "stack_ok st" and "names_ok rank fuel (contents st)"
  shows "\<exists>sv. service_init w fuel (stack_top st + 1) (service_start st) = Inr sv \<and> service_ok sv \<and>
    sv_index sv \<le> 15 \<and> stack_top (sv_stack sv) = 0"
proof -
  have start: "service_ok (service_start st)" "sv_stack (service_start st) = st"
    using service_start_ok [OF assms(2)] by (simp_all add: service_start_def)
  obtain sv where "service_init w fuel (stack_top st + 1) (service_start st) = Inr sv"
    "service_ok sv" "stack_top (sv_stack sv) = 0"
    using service_init_ok [OF assms(1) start(1), of fuel "stack_top st + 1" "\<lambda>_. 0"] assms(3) start(2)
    by auto
  then show ?thesis
    by (auto simp: service_ok_def simp del: service_init.simps)
qed

definition sample_names :: file_stack where
  "sample_names = \<lparr>slots = None # Some (Argv [100]) # replicate 14 None, stack_top = 1\<rparr>"

lemma sample_names_ok: "stack_ok sample_names" "names_ok sample_rank 2 (contents sample_names)"
  by (simp_all add: sample_names_def stack_ok_def FILE_STACK_SIZE_def names_ok_def contents_def sample_rank_def)

theorem service_init_fills_witness:
  "\<exists>sv. service_init sample_world 2 2 (service_start sample_names) = Inr sv \<and> service_ok sv"
  using service_init_fills [OF sample_friendly sample_names_ok] by (auto simp: sample_names_def numeral_2_eq_2)


text \<open>
  The busy wait ends: once the clock moves on by a second within \<open>2 * k + 1\<close> system
  calls, \<open>k + 1\<close> turns of the loop are enough, and the wait changes neither the current path
  nor the output.
\<close>

theorem spin_terminates:
  assumes "advancing w k" and "k < n"
  shows "\<exists>go s'. spin w n 1000 s = Inr (go, s') \<and> cur_path s' = cur_path s \<and> reports s' = reports s"
  using spin_ok [OF assms, of s] by blast

theorem spin_terminates_witness: "\<exists>go s'. spin sample_world 1 1000 state_init = Inr (go, s')"
  using spin_terminates [OF sample_advancing, of 1 state_init] by auto

text \<open>
  C13: no round of the service ever faults: from a state in which the entries are live trees
  whose paths fit the buffer, every number of rounds either is still running when its bound
  is reached or has been ended by a signal in such a state again.
\<close>

theorem service_rounds_safe:
  assumes "advancing w k" and "k < n" and "service_ok sv" and "service_fits sv"
  shows "service_rounds w n m sv = Inl Out_Of_Fuel \<or>
    (\<exists>sv'. service_rounds w n m sv = Inr sv' \<and> service_ok sv' \<and> service_fits sv' \<and>
       sv_index sv' = sv_index sv)"
  by (rule service_rounds_ok [OF assms])

definition sample_service :: service where
  "sample_service = (service_start stack_init)\<lparr>sv_fp := sample_dir # replicate 63 Null, sv_index := 1\<rparr>"

lemma sample_service_ok: "service_ok sample_service" "service_fits sample_service"
proof -
  have "stack_ok stack_init" "stack_top stack_init = 0"
    by (simp_all add: stack_init_def stack_ok_def FILE_STACK_SIZE_def)
  then show "service_ok sample_service"
    using service_start_ok [of stack_init]
    by (simp add: service_ok_def sample_service_def service_start_def sample_live list_all_iff)
  show "service_fits sample_service"
    by (simp add: service_fits_def sample_service_def sample_dir_def sample_file_def enter_def MAX_PATH_SIZE_def)
qed

theorem service_rounds_safe_witness:
  "service_rounds sample_world 1 2 sample_service = Inl Out_Of_Fuel \<or>
   (\<exists>sv'. service_rounds sample_world 1 2 sample_service = Inr sv' \<and> service_ok sv')"
  using service_rounds_safe [OF sample_advancing _ sample_service_ok, of 1 2] by auto

text \<open>
  C7: on a cooperating system the service runs to its end: it takes its snapshots, observes
  them round after round without a fault, stops within \<open>T\<close> rounds once a signal has arrived by
  the \<open>T\<close>-th system call, and releases every target exactly once, printing none of them. It
  exits with failure even then, since no path of the code returns success.
\<close>

theorem service_runs_to_its_end:
  assumes "friendly w rank" and "roomy w room"
    and "stack_ok st" and "names_ok rank fuel (contents st)" and "names_fit room (contents st)"
    and "advancing w k" and "k < n" and "terminating w T" and "T < m"
  shows "\<exists>freed sv. service w fuel n m st = Inr (EXIT_FAILURE, [], freed, sv) \<and> service_ok sv \<and>
    length (filter is_node freed) = nodes_count (take (sv_index sv) (sv_fp sv))"
  by (rule service_ends [OF assms])

definition tick_world :: world where
  "tick_world = sample_world\<lparr>w_time := (\<lambda>t. (of_nat (t div 2), if even t then 0 else 500000))\<rparr>"

definition sample_room :: "bytes \<Rightarrow> nat" where
  "sample_room p = (if snd (basename p) = [100] then 3 else length (fst (basename p)))"

lemma tick_clock: "clock_ms tick_world t = of_nat (500 * t)"
proof (cases "even t")
  case True
  then show ?thesis
    by (auto simp: clock_ms_def tick_world_def elim!: evenE)
next
  case False
  then obtain u where "t = 2 * u + 1"
    by (auto elim: oddE)
  then show ?thesis
    by (simp add: clock_ms_def tick_world_def)
qed

lemma tick_world_runs:
  "friendly tick_world sample_rank" "roomy tick_world sample_room" "advancing tick_world 1"
  "terminating tick_world 100"
proof -
  show "friendly tick_world sample_rank"
    using sample_friendly by (simp add: friendly_def tick_world_def)
  show "roomy tick_world sample_room"
    unfolding roomy_def
    by (auto simp: sample_room_def tick_world_def sample_world_def join_path_def basename_def
        strip_slashes_def)
  have diff: "clock_ms tick_world (t + 3) - clock_ms tick_world t = 1500"
    "clock_ms tick_world (t + 1) - clock_ms tick_world t = 500" for t
    by (simp_all add: tick_clock algebra_simps)
  have less: "\<not> (1500 :: u64) < 1000" "(500 :: u64) < 1000"
    by (simp_all add: word_less_nat_alt)
  show "advancing tick_world 1"
    unfolding advancing_def
  proof
    fix t :: nat
    have "t + 1 + 2 * 1 = t + 3"
      by simp
    then show "\<not> clock_ms tick_world (t + 1 + 2 * 1) - clock_ms tick_world t < 1000"
      by (metis diff(1) less(1))
  qed
  have "w_terminate tick_world t" if "100 \<le> t" for t
    using that by (simp add: tick_world_def sample_world_def)
  then show "terminating tick_world 100"
    unfolding terminating_def diff(2) using less(2) by blast
qed

theorem service_runs_to_its_end_witness:
  "\<exists>freed sv. service tick_world 2 2 101 sample_names = Inr (EXIT_FAILURE, [], freed, sv) \<and> service_ok sv"
proof -
  have "names_fit sample_room (contents sample_names)"
    by (simp add: sample_names_def names_fit_def contents_def sample_room_def MAX_PATH_SIZE_def
        basename_def strip_slashes_def)
  then show ?thesis
    using service_runs_to_its_end [OF tick_world_runs(1,2) sample_names_ok _ tick_world_runs(3) _ tick_world_runs(4),
        of 2 101] by (auto simp del: One_nat_def)
qed

text \<open>
  At the end every target of every entry is released exactly once, but nothing is
  printed: the loop shows the entry after the last one, which is NULL, instead of the one it
  releases.
\<close>

theorem service_deinit_releases:
  assumes "service_ok sv"
  shows "\<exists>freed. service_deinit sv 0 (sv_index sv) = Inr ([], freed) \<and>
    length (filter is_node freed) = nodes_count (take (sv_index sv) (sv_fp sv))"
  using service_deinit_ok [OF assms, of 0 "sv_index sv"] by simp

theorem service_deinit_releases_witness:
  "\<exists>freed. service_deinit sample_service 0 1 = Inr ([], freed) \<and> length (filter is_node freed) = 2"
proof -
  have "sv_index sample_service = 1" "nodes_count (take 1 (sv_fp sample_service)) = 2"
    by (simp_all add: sample_service_def sample_dir_def sample_file_def)
  then show ?thesis
    using service_deinit_releases [OF sample_service_ok(1)] by (simp del: service_deinit.simps)
qed

end
