(* ===== verification/Mirror.thy ===== *)
theory Mirror
  imports Tree Routine
begin

text \<open>
  What a snapshot is a snapshot of: a file system that does not change is a tree of entries, and
  \<open>fs_target_create\<close> builds the tree of targets that mirrors it, entry by entry. Observing that
  tree on the same file system finds nothing to report.
\<close>

section \<open>File systems at rest\<close>

text \<open>An entry has a status; a directory also the named entries below it, in stream order.\<close>

datatype entry = Leaf stat | Folder stat "(bytes \<times> entry) list"

definition proper_name :: "bytes \<Rightarrow> bool" where
  "proper_name n \<longleftrightarrow> is_cstr n \<and> n \<noteq> [] \<and> SLASH \<notin> set n"

definition visible :: "bytes list \<Rightarrow> bytes list" where
  "visible ds = filter (\<lambda>d. d \<noteq> [46] \<and> d \<noteq> [46, 46]) ds"

text \<open>What the system answers about a path, at every moment: the entry \<open>e\<close> is there.\<close>

fun present :: "world \<Rightarrow> bytes \<Rightarrow> entry \<Rightarrow> bool" and present_all :: "world \<Rightarrow> bytes \<Rightarrow> (bytes \<times> entry) list \<Rightarrow> bool"
where
  "present w q (Leaf st) \<longleftrightarrow> (\<forall>t. w_lstat w t q = Stat st) \<and> filetype_of (st_mode st) \<noteq> directory"
| "present w q (Folder st es) \<longleftrightarrow> (\<forall>t. w_lstat w t q = Stat st) \<and> filetype_of (st_mode st) = directory \<and>
     (\<exists>ds. (\<forall>t. w_readdir w t q = Some ds) \<and> visible ds = map fst es) \<and> length es < 2 ^ 26 \<and>
     present_all w q es"
| "present_all w q [] \<longleftrightarrow> True"
| "present_all w q ((n, e) # es) \<longleftrightarrow> proper_name n \<and> present w (join_path q n) e \<and> present_all w q es"

fun height :: "entry \<Rightarrow> nat" and heights :: "(bytes \<times> entry) list \<Rightarrow> nat" where
  "height (Leaf st) = 0"
| "height (Folder st es) = heights es"
| "heights [] = 0"
| "heights ((n, e) # es) = max (Suc (height e)) (heights es)"

section \<open>The tree that mirrors an entry\<close>

definition info_of :: "bytes \<Rightarrow> stat \<Rightarrow> target_info" where
  "info_of b st = \<lparr>f_uid = fuid_create st, f_type = filetype_of (st_mode st), f_name = b, f_ok = True\<rparr>"

text \<open>A history that holds the acknowledgement of the status, and nothing else.\<close>

definition acknowledged :: "path_ref \<Rightarrow> stat \<Rightarrow> event seq \<Rightarrow> bool" where
  "acknowledged ref st evs \<longleftrightarrow> map (\<lambda>e. (e_mask e, e_path e, e_st e)) (s_items evs) = [(EVENT_ACK, ref, st)]"

fun mirrors :: "path_ref \<Rightarrow> bytes \<Rightarrow> entry \<Rightarrow> fs_target cptr \<Rightarrow> bool"
  and mirrors_all :: "(bytes \<times> entry) list \<Rightarrow> fs_target cptr list \<Rightarrow> bool" where
  "mirrors ref b (Leaf st) p \<longleftrightarrow> (case p of
      Ptr (Target info evs kids) \<Rightarrow> info = info_of b st \<and> acknowledged ref st evs \<and> kids = No_Kids
    | _ \<Rightarrow> False)"
| "mirrors ref b (Folder st es) p \<longleftrightarrow> (case p of
      Ptr (Target info evs (Kids ps cap)) \<Rightarrow> info = info_of b st \<and> acknowledged ref st evs \<and> mirrors_all es ps
    | _ \<Rightarrow> False)"
| "mirrors_all [] ps \<longleftrightarrow> ps = []"
| "mirrors_all ((n, e) # es) ps \<longleftrightarrow> (case ps of
      [] \<Rightarrow> False
    | p # ps \<Rightarrow> mirrors Freed_Path n e p \<and> mirrors_all es ps)"

text \<open>A mirror is never NULL.\<close>

lemma mirrors_not_Null: "mirrors ref b e p \<Longrightarrow> p \<noteq> Null"
  by (cases e) auto

section \<open>Paths\<close>

lemma strip_slashes_id: "s \<noteq> [] \<Longrightarrow> last s \<noteq> SLASH \<Longrightarrow> strip_slashes s = s"
  by (cases s rule: rev_cases) (simp_all add: strip_slashes_def)

lemma basename_after:
  assumes "proper_name n" and "pre = [] \<or> last pre = SLASH"
  shows "basename (pre @ n) = (n, pre @ n)"
proof -
  have n: "n \<noteq> []" "\<And>c. c \<in> set n \<Longrightarrow> c \<noteq> SLASH"
    using assms(1) by (auto simp: proper_name_def)
  then have "last (pre @ n) \<noteq> SLASH"
    by simp
  then have strip: "strip_slashes (pre @ n) = pre @ n"
    using n by (intro strip_slashes_id) auto
  have "takeWhile (\<lambda>c. c \<noteq> SLASH) (rev n @ rev pre) = rev n @ takeWhile (\<lambda>c. c \<noteq> SLASH) (rev pre)"
    by (rule takeWhile_append2) (use n in simp)
  also have "\<dots> = rev n"
    using assms(2) by (cases pre rule: rev_cases) auto
  finally have "takeWhile (\<lambda>c. c \<noteq> SLASH) (rev n @ rev pre) = rev n" .
  then show ?thesis
    using n strip by (simp add: basename_def)
qed

lemma basename_join: "proper_name n \<Longrightarrow> basename (join_path q n) = (n, join_path q n)"
  using basename_after [of n "q @ [SLASH]"] basename_after [of n q] basename_after [of n "[]"]
  by (cases "q = []") (auto simp: join_path_def)

section \<open>Directory streams\<close>

lemma visible_simps [simp]:
  "visible [] = []"
  "visible (d # ds) = (if d = [46] \<or> d = [46, 46] then visible ds else d # visible ds)"
  by (simp_all add: visible_def)

lemma next_entry_visible:
  "case visible dir of
     [] \<Rightarrow> \<exists>s'. directory_next_entry dir s = (None, [], s')
   | n # ns \<Rightarrow> \<exists>dir' s'. directory_next_entry dir s = (Some n, dir', s') \<and> visible dir' = ns"
  by (induction dir s rule: directory_next_entry.induct) (auto simp: Let_def split: list.splits if_splits)

lemma children_push_room:
  assumes ok: "kids_ok ps cap" and mem: "\<And>n. grants al n" and p: "live p" and room: "length ps < 2 ^ 26"
  obtains cap' where "fs_target_children_push al (Kids ps cap) p = Inr (Kids (ps @ [p]) cap', True)"
    and "kids_ok (ps @ [p]) cap'"
proof -
  have small: "seq_small (kids_seq ps cap)" and live: "live_all ps"
    using ok by (simp_all add: kids_ok_def)
  have "(length (s_items (kids_seq ps cap)) + 1) * unat (s_elt_size (kids_seq ps cap)) < 2 ^ 30"
    using room by (simp add: kids_seq_def sizeof_pointer_def)
  then obtain s' where push: "seq_push al (kids_seq ps cap) p = Inr (s', True)" "seq_small s'"
    "s_items s' = ps @ [p]" "s_elt_size s' = sizeof_pointer" "\<not> s_settled s'"
    using seq_push_room [OF small mem] by (auto simp: kids_seq_def)
  then have "s' = kids_seq (ps @ [p]) (s_cap s')"
    by (simp add: kids_seq_def)
  then have "kids_ok (ps @ [p]) (s_cap s')"
    using push(2) live p by (simp add: kids_ok_def)
  moreover have "p \<noteq> Null"
    using p by auto
  ultimately show thesis
    using that push by (simp add: fs_target_children_push_def)
qed

text \<open>The loop of \<open>handle_children\<close> pushes one mirror per entry, in the order of the stream.\<close>

lemma handle_entries_mirror:
  assumes mem: "\<And>t n. grants (w_alloc w t) n" and path: "is_cstr path"
  shows "visible dir = map fst es \<Longrightarrow> \<forall>(n, e) \<in> set es. is_cstr n \<and>
       (\<forall>s. \<exists>p s'. create (join_path path n) s = Inr (p, s') \<and> live p \<and> mirrors Freed_Path n e p) \<Longrightarrow>
    kids_ok ps cap \<Longrightarrow> length ps + length es < 2 ^ 26 \<Longrightarrow>
    \<exists>qs cap' s'. handle_entries create w path dir (Kids ps cap) s = Inr (Kids (ps @ qs) cap', s') \<and>
      kids_ok (ps @ qs) cap' \<and> mirrors_all es qs"
proof (induction es arbitrary: dir ps cap s)
  case Nil
  then obtain s' where "directory_next_entry dir s = (None, [], s')"
    using next_entry_visible [of dir s] by auto
  then show ?case
    using Nil.prems by (intro exI [of _ "[]"]) (simp add: handle_entries.simps [of _ _ _ dir])
next
  case (Cons ne es)
  obtain n e where ne: "ne = (n, e)"
    by (cases ne)
  obtain dir' s1 where nxt: "directory_next_entry dir s = (Some n, dir', s1)" "visible dir' = map fst es"
    using next_entry_visible [of dir s] Cons.prems(1) ne by auto
  have n: "is_cstr n"
    using Cons.prems(2) ne by simp
  obtain buf where buf: "attach (heap w s1) path n = Inr (Ptr buf)" "cstr buf = join_path path n"
    using attach_cases [OF path n, of "heap w s1"] mem by (auto simp: heap_def)
  have "\<exists>p s'. create (join_path path n) s1 = Inr (p, s') \<and> live p \<and> mirrors Freed_Path n e p"
    using Cons.prems(2) ne by simp
  then obtain p s2 where child: "create (join_path path n) s1 = Inr (p, s2)" "live p" "mirrors Freed_Path n e p"
    by blast
  have room: "length ps < 2 ^ 26"
    using Cons.prems(4) by simp
  obtain cap1 where push: "fs_target_children_push (heap w s2) (Kids ps cap) p = Inr (Kids (ps @ [p]) cap1, True)"
    and ok1: "kids_ok (ps @ [p]) cap1"
    using children_push_room [OF Cons.prems(3) _ child(2) room, of "heap w s2"] mem by (auto simp: heap_def)
  have es: "\<forall>(n, e) \<in> set es. is_cstr n \<and>
       (\<forall>s. \<exists>p s'. create (join_path path n) s = Inr (p, s') \<and> live p \<and> mirrors Freed_Path n e p)"
    using Cons.prems(2) by simp
  have len: "length (ps @ [p]) + length es < 2 ^ 26"
    using Cons.prems(4) by simp
  obtain qs cap' s' where rest: "handle_entries create w path dir' (Kids (ps @ [p]) cap1) s2 =
      Inr (Kids ((ps @ [p]) @ qs) cap', s')" "kids_ok ((ps @ [p]) @ qs) cap'" "mirrors_all es qs"
    using Cons.IH [OF nxt(2) es ok1 len, of s2] by blast
  have "handle_entries create w path dir (Kids ps cap) s = Inr (Kids (ps @ p # qs) cap', s')"
    using nxt(1) buf child(1) push rest(1) by (simp add: handle_entries.simps [of _ _ _ dir])
  then show ?case
    using rest(2,3) child(3) ne by (intro exI [of _ "p # qs"]) auto
qed

section \<open>Taking the snapshot\<close>

lemma present_all_iff:
  "present_all w q es \<longleftrightarrow> (\<forall>(n, e) \<in> set es. proper_name n \<and> present w (join_path q n) e)"
  by (induction es) auto

lemma heights_le: "(n, e) \<in> set es \<Longrightarrow> height e < heights es"
  by (induction es) auto

lemma present_lstat: "present w q e \<Longrightarrow> \<exists>st. \<forall>t. w_lstat w t q = Stat st"
  by (cases e) auto

lemma create_mirror:
  assumes mem: "\<And>t n. grants (w_alloc w t) n"
  shows "present w q e \<Longrightarrow> is_cstr q \<Longrightarrow> basename q = (b, q) \<Longrightarrow> height e < fuel \<Longrightarrow>
    \<exists>p s'. fs_target_create w fuel q ref s = Inr (p, s') \<and> live p \<and> mirrors (ref q) b e p"
proof (induction fuel arbitrary: q e b ref s)
  case (Suc fuel)
  let ?s = "count_stat (tick s)"
  obtain st where lstat: "\<And>t. w_lstat w t q = Stat st"
    using present_lstat [OF Suc.prems(1)] by blast
  obtain evs s1 now where init: "fs_target_event_init w q (ref q) ?s = Inr (Some evs, s1)"
    and hist: "history_ok evs"
    and items: "s_items evs = [\<lparr>e_mask = EVENT_ACK, e_path = ref q, e_at = now, e_st = st\<rparr>]"
    using event_init_ok [of w ?s q "ref q", OF mem] lstat by auto
  have ack: "acknowledged (ref q) st evs"
    by (simp add: acknowledged_def items)
  have b: "is_cstr b"
    using basename_cstr(1) [OF Suc.prems(2)] Suc.prems(3) by simp
  have run: "fs_target_create w (Suc fuel) q ref s =
      map_res (\<lambda>(target, s). (target, count_target s))
        (if filetype_of (st_mode st) = directory
         then handle_children (\<lambda>path s. fs_target_create w fuel path (\<lambda>_. Freed_Path) s) w q (info_of b st) evs s1
         else Inr (Ptr (Target (info_of b st) evs No_Kids), s1))"
    using init by (simp add: create_defs heap_def mem Suc.prems(3) lstat info_of_def)
  show ?case
  proof (cases e)
    case (Leaf st')
    then have "st' = st" "filetype_of (st_mode st) \<noteq> directory"
      using Suc.prems(1) lstat by simp_all
    then show ?thesis
      using run hist ack b Leaf by (simp add: info_of_def del: fs_target_create.simps)
  next
    case (Folder st' es)
    then have st: "st' = st" and dir: "filetype_of (st_mode st) = directory" and few: "length es < 2 ^ 26"
      and below: "present_all w q es"
      using Suc.prems(1) lstat by simp_all
    obtain ds where ds: "\<And>t. w_readdir w t q = Some ds" "visible ds = map fst es"
      using Suc.prems(1) Folder by auto
    obtain cap where kids: "fs_target_children_init (heap w s1) = Inr (Kids [] cap, True)" "kids_ok [] cap"
      using seq_create_kids [of "heap w s1"] mem by (auto simp: heap_def)
    have child: "is_cstr n \<and> (\<forall>s. \<exists>p s'. fs_target_create w fuel (join_path q n) (\<lambda>_. Freed_Path) s = Inr (p, s') \<and>
        live p \<and> mirrors Freed_Path n e p)" if ne: "(n, e) \<in> set es" for n e
    proof -
      have n: "proper_name n" "present w (join_path q n) e"
        using below ne by (auto simp: present_all_iff)
      have "is_cstr (join_path q n)"
        using n(1) Suc.prems(2) by (simp add: join_path_def proper_name_def)
      moreover have "height e < fuel"
        using heights_le [OF ne] Suc.prems(4) Folder by simp
      ultimately have "\<forall>s. \<exists>p s'. fs_target_create w fuel (join_path q n) (\<lambda>_. Freed_Path) s = Inr (p, s') \<and>
          live p \<and> mirrors Freed_Path n e p"
        using Suc.IH [OF n(2) _ basename_join [OF n(1)]] by blast
      then show ?thesis
        using n(1) unfolding proper_name_def by blast
    qed
    then have "\<forall>(n, e) \<in> set es. is_cstr n \<and> (\<forall>s. \<exists>p s'.
        fs_target_create w fuel (join_path q n) (\<lambda>_. Freed_Path) s = Inr (p, s') \<and>
        live p \<and> mirrors Freed_Path n e p)"
      by blast
    from handle_entries_mirror [where create = "\<lambda>path s. fs_target_create w fuel path (\<lambda>_. Freed_Path) s",
        OF mem Suc.prems(2) ds(2) this kids(2), of "count_opendir (tick s1)"] few
    obtain qs cap' s2 where entries: "handle_entries (\<lambda>path s. fs_target_create w fuel path (\<lambda>_. Freed_Path) s)
        w q ds (Kids [] cap) (count_opendir (tick s1)) = Inr (Kids qs cap', s2)"
      and ok: "kids_ok qs cap'" and mirror: "mirrors_all es qs"
      by auto
    show ?thesis
      using run dir kids(1) ds(1) hist b entries ok ack mirror Folder st
      by (simp add: handle_children_def directory_open_def kids_ok_def info_of_def del: fs_target_create.simps)
  qed
qed simp

section \<open>Observing a mirror\<close>

text \<open>The longest path below an entry named \<open>b\<close>.\<close>

fun span :: "bytes \<Rightarrow> entry \<Rightarrow> nat" and spans :: "(bytes \<times> entry) list \<Rightarrow> nat" where
  "span b (Leaf st) = length b"
| "span b (Folder st es) = length b + spans es"
| "spans [] = 0"
| "spans ((n, e) # es) = max (1 + span n e) (spans es)"

lemma mirrors_Folder:
  assumes "mirrors ref b (Folder st es) p"
  obtains evs ps cap where "p = Ptr (Target (info_of b st) evs (Kids ps cap))" and "acknowledged ref st evs"
    and "mirrors_all es ps"
  using assms by (auto split: cptr.splits fs_target.splits kids.splits)

lemma mirrors_Leaf:
  assumes "mirrors ref b (Leaf st) p"
  obtains evs where "p = Ptr (Target (info_of b st) evs No_Kids)" and "acknowledged ref st evs"
  using assms by (auto split: cptr.splits fs_target.splits)

lemma mirrors_all_Cons:
  assumes "mirrors_all ((n, e) # es) ps"
  obtains p ps' where "ps = p # ps'" and "mirrors Freed_Path n e p" and "mirrors_all es ps'"
  using assms by (auto split: list.splits)

lemma info_of_simps [simp]: "f_name (info_of b st) = b" "f_type (info_of b st) = filetype_of (st_mode st)"
  by (simp_all add: info_of_def)

lemma mirrors_fit:
  "mirrors ref b e p \<Longrightarrow> reach path (span b e) < k \<Longrightarrow> path_fits k path p"
  "mirrors_all es ps \<Longrightarrow> length path + spans es < k \<Longrightarrow> paths_fit k path ps"
proof (induction b e and es arbitrary: ref p path and ps path rule: span_spans.induct)
  case (1 b st)
  from "1.prems"(1) obtain evs where "p = Ptr (Target (info_of b st) evs No_Kids)"
    by (rule mirrors_Leaf)
  then show ?case
    using "1.prems"(2) by (simp add: length_enter)
next
  case (2 b st es)
  from "2.prems"(1) obtain evs ps cap where p: "p = Ptr (Target (info_of b st) evs (Kids ps cap))"
    and ps: "mirrors_all es ps"
    by (rule mirrors_Folder)
  have "length (enter path b) + spans es < k"
    using "2.prems"(2) by (simp add: length_enter reach_def split: if_splits)
  then show ?case
    using "2.IH" [OF ps] p by simp
next
  case (4 n e es)
  from "4.prems"(1) obtain p ps' where ps: "ps = p # ps'" "mirrors Freed_Path n e p" "mirrors_all es ps'"
    by (rule mirrors_all_Cons)
  have "reach path (span n e) \<le> length path + (1 + span n e)"
    by (simp add: reach_def)
  then have "reach path (span n e) < k" "length path + spans es < k"
    using "4.prems"(2) by simp_all
  then show ?case
    using "4.IH"(1) [OF ps(2)] "4.IH"(2) [OF ps(3)] ps(1) by simp
qed simp

text \<open>
  Below a root given by a plain name the path under which a target is observed is the one under
  which it was created.
\<close>

lemma join_enter: "q \<noteq> [] \<Longrightarrow> last q \<noteq> SLASH \<Longrightarrow> q \<noteq> [46] \<Longrightarrow> join_path q n = enter q n"
  by (simp add: join_path_def enter_def)

lemma enter_plain:
  assumes "q \<noteq> []" and "proper_name n"
  shows "enter q n \<noteq> []" and "last (enter q n) \<noteq> SLASH" and "enter q n \<noteq> [46]"
proof -
  have "n \<noteq> []" "SLASH \<notin> set n"
    using assms(2) by (simp_all add: proper_name_def)
  moreover from this have "last n \<noteq> SLASH"
    using last_in_set by metis
  ultimately show "enter q n \<noteq> []" "last (enter q n) \<noteq> SLASH"
    using assms(1) by (simp_all add: enter_def)
  have "2 \<le> length (enter q n)"
    using assms by (cases q; cases n) (simp_all add: enter_def proper_name_def)
  then show "enter q n \<noteq> [46]"
    by auto
qed

lemma change_mask_same: "change_mask st (Stat st) = 0"
  by (simp add: change_mask_def cmp_stat_cases)

lemma acknowledged_last: "acknowledged ref st evs \<Longrightarrow> e_st (last (s_items evs)) = st"
  by (auto simp: acknowledged_def)

lemma mirrors_quiet:
  assumes fs: "\<And>t q. w_lstat w t q = fs q"
  shows "mirrors ref b e p \<Longrightarrow> present w (enter path b) e \<Longrightarrow> enter path b \<noteq> [] \<Longrightarrow>
      last (enter path b) \<noteq> SLASH \<Longrightarrow> enter path b \<noteq> [46] \<Longrightarrow> quiet fs path p"
    and "mirrors_all es ps \<Longrightarrow> present_all w path es \<Longrightarrow> path \<noteq> [] \<Longrightarrow> last path \<noteq> SLASH \<Longrightarrow> path \<noteq> [46] \<Longrightarrow>
      quiet_all fs path ps"
proof (induction b e and es arbitrary: ref p path and ps path rule: span_spans.induct)
  case (1 b st)
  from "1.prems"(1) obtain evs where p: "p = Ptr (Target (info_of b st) evs No_Kids)"
    and ack: "acknowledged ref st evs"
    by (rule mirrors_Leaf)
  then show ?case
    using "1.prems"(2) fs by (simp add: acknowledged_last [OF ack] change_mask_same)
next
  case (2 b st es)
  from "2.prems"(1) obtain evs ps cap where p: "p = Ptr (Target (info_of b st) evs (Kids ps cap))"
    and ack: "acknowledged ref st evs" and ps: "mirrors_all es ps"
    by (rule mirrors_Folder)
  have "quiet_all fs (enter path b) ps"
    using "2.IH" [OF ps] "2.prems" by simp
  then show ?case
    using p "2.prems"(2) fs by (simp add: acknowledged_last [OF ack] change_mask_same)
next
  case (4 n e es)
  from "4.prems"(1) obtain p ps' where ps: "ps = p # ps'" "mirrors Freed_Path n e p" "mirrors_all es ps'"
    by (rule mirrors_all_Cons)
  have n: "proper_name n" "present w (enter path n) e"
    using "4.prems" join_enter by auto
  then show ?case
    using "4.IH"(1) [OF ps(2)] "4.IH"(2) [OF ps(3)] ps(1) "4.prems" enter_plain [OF "4.prems"(3) n(1)] by simp
qed simp

end
