(* ===== verification/Report.thy ===== *)
theory Report
  imports Mirror
begin

text \<open>
  What a round prints, without the walk that prints it: \<open>changes\<close> lists, children before their
  directory, the path and the label of every target whose status differs from that of its
  latest event. A round prints exactly that list.
\<close>

section \<open>The changes a round has to find\<close>

definition change_at :: "(bytes \<Rightarrow> lstat_result) \<Rightarrow> bytes \<Rightarrow> filetype \<Rightarrow> stat \<Rightarrow> (bytes \<times> string) list" where
  "change_at fs path ft st =
     (if ft = unknown \<or> change_mask st (fs path) = 0 then []
      else [(path, event_label (change_mask st (fs path)))])"

function (sequential) changes :: "(bytes \<Rightarrow> lstat_result) \<Rightarrow> bytes \<Rightarrow> fs_target cptr \<Rightarrow> (bytes \<times> string) list"
  and changes_all :: "(bytes \<Rightarrow> lstat_result) \<Rightarrow> bytes \<Rightarrow> fs_target cptr list \<Rightarrow> (bytes \<times> string) list" where
  "changes fs path (Ptr (Target info evs kids)) =
     (case kids of Kids ps cap \<Rightarrow> changes_all fs (enter path (f_name info)) ps | _ \<Rightarrow> []) @
     change_at fs (enter path (f_name info)) (f_type info) (e_st (last (s_items evs)))"
| "changes fs path _ = []"
| "changes_all fs path [] = []"
| "changes_all fs path (p # ps) = changes fs path p @ changes_all fs path ps"
  by pat_completeness auto
termination
  by (relation "measure (case_sum (\<lambda>(fs, path, p). size_cptr size p)
        (\<lambda>(fs, path, ps). size_list (size_cptr size) ps))") auto

text \<open>No history of the tree is so long that an event could be refused.\<close>

function (sequential) assured_tree :: "world \<Rightarrow> fs_target cptr \<Rightarrow> bool"
  and assured_trees :: "world \<Rightarrow> fs_target cptr list \<Rightarrow> bool" where
  "assured_tree w (Ptr (Target info evs kids)) \<longleftrightarrow>
     assured w evs \<and> (case kids of Kids ps cap \<Rightarrow> assured_trees w ps | _ \<Rightarrow> True)"
| "assured_tree w _ \<longleftrightarrow> True"
| "assured_trees w [] \<longleftrightarrow> True"
| "assured_trees w (p # ps) \<longleftrightarrow> assured_tree w p \<and> assured_trees w ps"
  by pat_completeness auto
termination
  by (relation "measure (case_sum (\<lambda>(w, p). size_cptr size p) (\<lambda>(w, ps). size_list (size_cptr size) ps))") auto

definition printed :: "report list \<Rightarrow> (bytes \<times> string) list" where
  "printed rs = map (\<lambda>r. (r_path r, r_label r)) (rev rs)"

lemma printed_Cons: "printed (r # rs) = printed rs @ [(r_path r, r_label r)]"
  by (simp add: printed_def)

section \<open>A round prints the changes\<close>

definition printed_visit ::
  "(bytes \<times> string) list \<Rightarrow> state \<Rightarrow> state \<Rightarrow> bool" where
  "printed_visit out s s' \<longleftrightarrow> cstr (cur_path s') = cstr (cur_path s) \<and>
     length (cur_path s') = length (cur_path s) \<and> path_ready s' \<and> printed (reports s') = printed (reports s) @ out"

lemma printed_visit_trans:
  "printed_visit xs s t \<Longrightarrow> printed_visit ys t u \<Longrightarrow> printed_visit (xs @ ys) s u"
  by (simp add: printed_visit_def)

lemma visit_end_prints:
  assumes hist: "history_ok evs" and name: "is_cstr (f_name info)" "is_cstr path"
    and s: "path_ready s" "cstr (cur_path s) = enter path (f_name info)"
    and fs: "\<And>t p. w_lstat w t p = fs p" and sure: "assured w evs"
  shows "\<exists>evs' s'.
    bind_res
       (if f_type info = unknown then Inr (evs, s)
        else map_res (\<lambda>(evs, s, tracked). (evs, s)) (fs_target_event_track w evs s)) (\<lambda>(evs, s).
     map_res (\<lambda>path. (Ptr (Target info evs kids), s\<lparr>cur_path := path\<rparr>, True))
       (unset_current_wd (Some (f_name info)) (cur_path s))) = Inr (Ptr (Target info evs' kids), s', True) \<and>
    cstr (cur_path s') = path \<and> length (cur_path s') = length (cur_path s) \<and> path_ready s' \<and>
    printed (reports s') = printed (reports s) @
      change_at fs (enter path (f_name info)) (f_type info) (e_st (last (s_items evs)))"
proof -
  let ?st = "e_st (last (s_items evs))" and ?at = "enter path (f_name info)"
  have "\<exists>evs1 s1. (if f_type info = unknown then Inr (evs, s)
        else map_res (\<lambda>(evs, s, tracked). (evs, s)) (fs_target_event_track w evs s)) = Inr (evs1, s1) \<and>
      cur_path s1 = cur_path s \<and>
      printed (reports s1) = printed (reports s) @ change_at fs ?at (f_type info) ?st"
  proof (cases "f_type info = unknown")
    case True
    then show ?thesis
      by (simp add: change_at_def)
  next
    case False
    obtain evs1 s1 where run: "fs_target_event_track w evs s = Inr (evs1, s1, True)" "tracked w evs s evs1 s1"
      using fs_target_event_track_ok [OF hist s(1)] by blast
    have mask: "e_mask (change_event w ?st s) = change_mask ?st (fs ?at)"
      by (simp add: change_event_def Let_def s(2) fs)
    have "printed (reports s1) = printed (reports s) @ change_at fs ?at (f_type info) ?st"
    proof (cases "change_mask ?st (fs ?at) = 0")
      case True
      then show ?thesis
        using run(2) mask by (simp add: tracked_def Let_def change_at_def)
    next
      case False
      then obtain line where "reports s1 = line # reports s" "r_path line = ?at"
        "r_label line = event_label (change_mask ?st (fs ?at))"
        using run(2) mask sure s(2) by (auto simp: tracked_def Let_def)
      then show ?thesis
        using False \<open>f_type info \<noteq> unknown\<close> by (simp add: change_at_def printed_Cons)
    qed
    then show ?thesis
      using run False by (simp add: tracked_def Let_def)
  qed
  then obtain evs1 s1 where track: "(if f_type info = unknown then Inr (evs, s)
        else map_res (\<lambda>(evs, s, tracked). (evs, s)) (fs_target_event_track w evs s)) = Inr (evs1, s1)"
    and s1: "cur_path s1 = cur_path s"
      "printed (reports s1) = printed (reports s) @ change_at fs ?at (f_type info) ?st"
    by blast
  obtain buf where "unset_current_wd (Some (f_name info)) (cur_path s1) = Inr buf"
    "0 \<in> set buf" "cstr buf = path" "length buf = length (cur_path s1)"
    by (rule leave_wd [of "cur_path s1" path "f_name info"])
       (use s1 s name in \<open>auto simp: path_ready_def\<close>)
  then show ?thesis
    using track s1 by (auto simp: path_ready_def)
qed

lemma observe_prints:
  assumes fs: "\<And>t p. w_lstat w t p = fs p"
  shows "live p \<Longrightarrow> path_ready s \<Longrightarrow> path_fits (length (cur_path s)) (cstr (cur_path s)) p \<Longrightarrow>
     assured_tree w p \<Longrightarrow>
     \<exists>q s'. fs_target_observe w p s = Inr (q, s', True) \<and> printed_visit (changes fs (cstr (cur_path s)) p) s s'"
    and "live_all ps \<Longrightarrow> path_ready s \<Longrightarrow> paths_fit (length (cur_path s)) (cstr (cur_path s)) ps \<Longrightarrow>
     assured_trees w ps \<Longrightarrow>
     \<exists>qs s'. propagate_children_recursive w ps s = Inr (qs, s') \<and>
       printed_visit (changes_all fs (cstr (cur_path s)) ps) s s'"
  using fs
proof (induction w p s and w ps s rule: fs_target_observe_propagate_children_recursive.induct)
  case (3 w info evs kids s)
  let ?path = "cstr (cur_path s)"
  let ?below = "case kids of Kids ps cap \<Rightarrow> changes_all fs (enter ?path (f_name info)) ps | _ \<Rightarrow> []"
  have hist: "history_ok evs" and name: "is_cstr (f_name info)" and sure: "assured w evs"
    using "3.prems"(1,4) by simp_all
  obtain buf where buf: "set_current_wd (Some (f_name info)) (cur_path s) = Inr buf"
    "0 \<in> set buf" "cstr buf = enter ?path (f_name info)" "length buf = length (cur_path s)"
    by (rule enter_wd [of "cur_path s" "f_name info"])
       (use "3.prems" name in \<open>auto simp: path_ready_def\<close>)
  let ?s = "s\<lparr>cur_path := buf\<rparr>"
  have ready: "path_ready ?s"
    using buf by (simp add: path_ready_def)
  have "\<exists>kids1 s1. (if f_type info = directory then
          case kids of
            No_Kids \<Rightarrow> Inl Hardened_Check
          | Dangling_Kids \<Rightarrow> Inl Use_After_Free
          | Kids ps cap \<Rightarrow>
              map_res (\<lambda>(ps, s). (Kids ps cap, s)) (propagate_children_recursive w ps ?s)
        else Inr (kids, ?s)) = Inr (kids1, s1) \<and> printed_visit ?below ?s s1"
  proof (cases "f_type info = directory")
    case True
    then obtain ps cap where kids: "kids = Kids ps cap" "live_all ps"
      using "3.prems"(1) by (auto split: kids.splits)
    have "\<exists>qs s'. propagate_children_recursive w ps ?s = Inr (qs, s') \<and>
       printed_visit (changes_all fs (cstr (cur_path ?s)) ps) ?s s'"
      by (rule "3.IH" [OF buf(1) True kids(1)]) (use kids ready "3.prems" buf in simp_all)
    then show ?thesis
      using True kids(1) buf(3) by auto
  next
    case False
    then have "kids = No_Kids"
      using "3.prems"(1) by simp
    then show ?thesis
      using False ready by (simp add: printed_visit_def)
  qed
  then obtain kids1 s1 where walk: "(if f_type info = directory then
          case kids of
            No_Kids \<Rightarrow> Inl Hardened_Check
          | Dangling_Kids \<Rightarrow> Inl Use_After_Free
          | Kids ps cap \<Rightarrow>
              map_res (\<lambda>(ps, s). (Kids ps cap, s)) (propagate_children_recursive w ps ?s)
        else Inr (kids, ?s)) = Inr (kids1, s1)" and s1: "printed_visit ?below ?s s1"
    by blast
  have at: "path_ready s1" "cstr (cur_path s1) = enter ?path (f_name info)"
    using s1 buf(3) by (simp_all add: printed_visit_def)
  from visit_end_prints [where kids = kids1, OF hist name is_cstr_cstr at "3.prems"(5) sure]
  obtain evs' s' where fin: "bind_res
       (if f_type info = unknown then Inr (evs, s1)
        else map_res (\<lambda>(evs, s, tracked). (evs, s)) (fs_target_event_track w evs s1)) (\<lambda>(evs, s).
     map_res (\<lambda>path. (Ptr (Target info evs kids1), s\<lparr>cur_path := path\<rparr>, True))
       (unset_current_wd (Some (f_name info)) (cur_path s))) = Inr (Ptr (Target info evs' kids1), s', True)"
    and s': "cstr (cur_path s') = ?path" "length (cur_path s') = length (cur_path s1)" "path_ready s'"
      "printed (reports s') = printed (reports s1) @
        change_at fs (enter ?path (f_name info)) (f_type info) (e_st (last (s_items evs)))"
    by blast
  have "printed_visit (changes fs ?path (Ptr (Target info evs kids))) s s'"
    using s1 s' buf by (simp add: printed_visit_def)
  then show ?case
    using buf(1) walk fin by (simp del: changes.simps)
next
  case (5 w child ps s)
  obtain q s1 where q: "fs_target_observe w child s = Inr (q, s1, True)"
    and s1: "printed_visit (changes fs (cstr (cur_path s)) child) s s1"
    using "5.IH"(1) "5.prems" by auto
  have at: "path_ready s1" "cstr (cur_path s1) = cstr (cur_path s)" "length (cur_path s1) = length (cur_path s)"
    using s1 by (simp_all add: printed_visit_def)
  have "\<exists>qs s'. propagate_children_recursive w ps s1 = Inr (qs, s') \<and>
      printed_visit (changes_all fs (cstr (cur_path s1)) ps) s1 s'"
    by (rule "5.IH"(2) [OF q refl refl]) (use "5.prems" at in simp_all)
  then obtain qs s2 where "propagate_children_recursive w ps s1 = Inr (qs, s2)"
    "printed_visit (changes_all fs (cstr (cur_path s)) ps) s1 s2"
    using at(2) by auto
  then show ?case
    using q printed_visit_trans [OF s1] by auto
qed (auto simp: printed_visit_def)

section \<open>The changes of a file system since its snapshot\<close>

text \<open>The entries of a snapshot whose status is no longer what it was; \<open>path\<close> leads to the entry.\<close>

fun diffs :: "(bytes \<Rightarrow> lstat_result) \<Rightarrow> bytes \<Rightarrow> entry \<Rightarrow> (bytes \<times> string) list"
  and diffs_all :: "(bytes \<Rightarrow> lstat_result) \<Rightarrow> bytes \<Rightarrow> (bytes \<times> entry) list \<Rightarrow> (bytes \<times> string) list" where
  "diffs fs path (Leaf st) = change_at fs path (filetype_of (st_mode st)) st"
| "diffs fs path (Folder st es) = diffs_all fs path es @ change_at fs path (filetype_of (st_mode st)) st"
| "diffs_all fs path [] = []"
| "diffs_all fs path ((n, e) # es) = diffs fs (enter path n) e @ diffs_all fs path es"

lemma mirrors_changes:
  "mirrors ref b e p \<Longrightarrow> changes fs path p = diffs fs (enter path b) e"
  "mirrors_all es ps \<Longrightarrow> changes_all fs path ps = diffs_all fs path es"
proof (induction b e and es arbitrary: ref p path and ps path rule: span_spans.induct)
  case (1 b st)
  from "1.prems" obtain evs where p: "p = Ptr (Target (info_of b st) evs No_Kids)" and ack: "acknowledged ref st evs"
    by (rule mirrors_Leaf)
  then show ?case
    by (simp add: acknowledged_last [OF ack])
next
  case (2 b st es)
  from "2.prems" obtain evs ps cap where p: "p = Ptr (Target (info_of b st) evs (Kids ps cap))"
    and ack: "acknowledged ref st evs" and ps: "mirrors_all es ps"
    by (rule mirrors_Folder)
  then show ?case
    using "2.IH" [OF ps] by (simp add: acknowledged_last [OF ack])
next
  case (4 n e es)
  from "4.prems" obtain p ps' where ps: "ps = p # ps'" "mirrors Freed_Path n e p" "mirrors_all es ps'"
    by (rule mirrors_all_Cons)
  then show ?case
    using "4.IH"(1) [OF ps(2)] "4.IH"(2) [OF ps(3)] by simp
qed simp

lemma acknowledged_assured:
  assumes "acknowledged ref st evs" and "\<And>t n. grants (w_alloc w t) n"
  shows "assured w evs"
proof -
  have "length (s_items evs) = 1"
    using assms(1) by (auto simp: acknowledged_def)
  then show ?thesis
    using assms(2) by (simp add: assured_def sizeof_event_def)
qed

lemma mirrors_assured:
  assumes mem: "\<And>t n. grants (w_alloc w t) n"
  shows "mirrors ref b e p \<Longrightarrow> assured_tree w p"
    and "mirrors_all es ps \<Longrightarrow> assured_trees w ps"
proof (induction b e and es arbitrary: ref p and ps rule: span_spans.induct)
  case (1 b st)
  from "1.prems" obtain evs where p: "p = Ptr (Target (info_of b st) evs No_Kids)" and ack: "acknowledged ref st evs"
    by (rule mirrors_Leaf)
  then show ?case
    using acknowledged_assured [OF ack mem] by simp
next
  case (2 b st es)
  from "2.prems" obtain evs ps cap where p: "p = Ptr (Target (info_of b st) evs (Kids ps cap))"
    and ack: "acknowledged ref st evs" and ps: "mirrors_all es ps"
    by (rule mirrors_Folder)
  then show ?case
    using acknowledged_assured [OF ack mem] "2.IH" [OF ps] by simp
next
  case (4 n e es)
  from "4.prems" obtain p ps' where ps: "ps = p # ps'" "mirrors Freed_Path n e p" "mirrors_all es ps'"
    by (rule mirrors_all_Cons)
  then show ?case
    using "4.IH"(1) [OF ps(2)] "4.IH"(2) [OF ps(3)] by simp
qed simp

end
