(* ===== verification/Mirror_Properties.thy ===== *)
theory Mirror_Properties
  imports Report Watch_Properties
begin

text \<open>Properties of snapshots, and of the rounds that compare a file system with them.\<close>

text \<open>The directory \<open>d\<close> with the file \<open>f\<close>, as \<open>sample_world\<close> shows it.\<close>

definition sample_entry :: entry where
  "sample_entry = Folder dir_stat [([102], Leaf reg_stat)]"

lemma sample_present: "present sample_world [100] sample_entry"
proof -
  have "visible [[46], [46, 46], [102]] = map fst [([102 :: u8], Leaf reg_stat)]"
    by simp
  then show ?thesis
    by (auto simp: sample_entry_def sample_world_def sample_lstat_def filetype_of_def Let_def S_IFMT_def
        dir_stat_def reg_stat_def zero_stat_def proper_name_def is_cstr_def join_path_def
        intro!: exI [of _ "[[46], [46, 46], [102]]"])
qed

text \<open>
  C11: when memory is granted, the snapshot of a path that holds an entry of a file system at rest
  is the tree of targets that mirrors the entry: the same shape, the visible names in the order
  of the directory streams, the type and identifier of each status, one acknowledgement with
  that status per target, and in the children an event path that has been released.
\<close>

theorem create_mirrors_entry:
  assumes "\<forall>t n. grants (w_alloc w t) n" and "present w q e" and "is_cstr q" and "basename q = (b, q)"
    and "height e < fuel"
  shows "\<exists>p s'. fs_target_create w fuel q ref s = Inr (p, s') \<and> p \<noteq> Null \<and> mirrors (ref q) b e p"
  using create_mirror [of w q e b fuel ref s] assms mirrors_not_Null by blast

theorem create_mirrors_entry_witness:
  "\<exists>p s'. fs_target_create sample_world 2 [100] Argument state_init = Inr (p, s') \<and>
    mirrors (Argument [100]) [100] sample_entry p"
proof -
  have "basename [100] = ([100 :: u8], [100])" "height sample_entry < 2"
    by (simp_all add: basename_def strip_slashes_def sample_entry_def)
  then show ?thesis
    using create_mirrors_entry [OF _ sample_present, of "[100]" 2 Argument state_init]
    by (auto simp: sample_world_def sample_heap_def is_cstr_def)
qed

text \<open>
  A file system at rest is never reported: when the root is given by a plain name and the
  paths fit the path buffer, every observation of its snapshot, from any state between rounds,
  ends, leaves the tree as it was and prints nothing.
\<close>

theorem file_system_at_rest_silent:
  assumes "\<forall>t n. grants (w_alloc w t) n" and "\<forall>t path. w_lstat w t path = fs path"
    and "proper_name q" and "q \<noteq> [46]" and "present w q e" and "span q e < MAX_PATH_SIZE" and "height e < fuel"
  shows "\<exists>p s1. fs_target_create w fuel q ref s = Inr (p, s1) \<and> p \<noteq> Null \<and>
    (\<forall>s2. path_ready s2 \<and> length (cur_path s2) = MAX_PATH_SIZE \<and> cstr (cur_path s2) = [] \<longrightarrow>
      (\<exists>s3. fs_target_observe w p s2 = Inr (p, s3, True) \<and> reports s3 = reports s2 \<and>
        cstr (cur_path s3) = []))"
proof -
  have base: "basename q = (q, q)" "is_cstr q" "q \<noteq> []" "SLASH \<notin> set q"
    using basename_after [OF assms(3), of "[]"] assms(3) by (simp_all add: proper_name_def)
  then have slash: "last q \<noteq> SLASH"
    using last_in_set by metis
  have mem: "\<And>t n. grants (w_alloc w t) n" and lstat: "\<And>t path. w_lstat w t path = fs path"
    using assms(1,2) by simp_all
  obtain p s1 where create: "fs_target_create w fuel q ref s = Inr (p, s1)" and p: "live p" "mirrors (ref q) q e p"
    using create_mirror [OF mem assms(5) base(2,1) assms(7)] by blast
  have enter: "enter [] q = q"
    by (simp add: enter_def)
  have quiet: "quiet fs [] p"
    by (rule mirrors_quiet(1) [where fs = fs, OF lstat p(2)]) (use enter assms(4,5) base slash in simp_all)
  have fits: "path_fits MAX_PATH_SIZE [] p"
    by (rule mirrors_fit(1) [OF p(2)]) (use assms(6) in \<open>simp add: reach_def\<close>)
  have "\<exists>s3. fs_target_observe w p s2 = Inr (p, s3, True) \<and> reports s3 = reports s2 \<and> cstr (cur_path s3) = []"
    if "path_ready s2" "length (cur_path s2) = MAX_PATH_SIZE" "cstr (cur_path s2) = []" for s2
    using observe_quiet(1) [where fs = fs, OF lstat p(1) that(1)] that quiet fits by (auto simp: unmoved_def)
  then show ?thesis
    using create mirrors_not_Null [OF p(2)] by blast
qed

theorem file_system_at_rest_silent_witness:
  "\<exists>p s1 s3. fs_target_create sample_world 2 [100] Argument state_init = Inr (p, s1) \<and>
    fs_target_observe sample_world p state_init = Inr (p, s3, True) \<and> reports s3 = []"
proof -
  have "\<forall>t path. w_lstat sample_world t path = sample_lstat path" "\<forall>t n. grants (w_alloc sample_world t) n"
    by (simp_all add: sample_world_def sample_heap_def)
  moreover have "span [100] sample_entry < MAX_PATH_SIZE" "height sample_entry < 2" "proper_name [100]" "[100 :: u8] \<noteq> [46]"
    by (simp_all add: sample_entry_def MAX_PATH_SIZE_def proper_name_def is_cstr_def)
  moreover have "length (cur_path state_init) = MAX_PATH_SIZE" "reports state_init = []"
    by (simp_all add: state_init_def cur_path_init_def)
  ultimately show ?thesis
    using file_system_at_rest_silent [OF _ _ _ _ sample_present, of sample_lstat 2 Argument state_init] state_init_ready
    by fastforce
qed

text \<open>
  A round over a live tree, with the file system standing still for the round, prints exactly
  the changes: the path and the label of each target whose status is not that of its latest
  event, children before their directory, in the order of the tree, nothing else and nothing
  twice.
\<close>

theorem round_prints_changes:
  assumes "live p" and "path_ready s" and "path_fits (length (cur_path s)) (cstr (cur_path s)) p"
    and "assured_tree w p" and "\<forall>t path. w_lstat w t path = fs path"
  shows "\<exists>q s'. fs_target_observe w p s = Inr (q, s', True) \<and>
    printed (reports s') = printed (reports s) @ changes fs (cstr (cur_path s)) p \<and>
    cstr (cur_path s') = cstr (cur_path s)"
  using observe_prints(1) [of w fs p s] assms by (auto simp: printed_visit_def)

text \<open>The sample tree after its file has grown.\<close>

definition grown_world :: world where
  "grown_world = sample_world\<lparr>w_lstat := (\<lambda>t q. if q = [100, 47, 102] then Stat (reg_stat\<lparr>st_size := 11\<rparr>) else sample_lstat q)\<rparr>"

lemma sample_assured: "assured_tree grown_world sample_dir"
  by (simp add: sample_dir_def sample_file_def sample_events_def assured_def grown_world_def sample_world_def
      sample_heap_def sizeof_event_def)

definition grown_lstat :: "bytes \<Rightarrow> lstat_result" where
  "grown_lstat q = (if q = [100, 47, 102] then Stat (reg_stat\<lparr>st_size := 11\<rparr>) else sample_lstat q)"

lemma grown_lstat_eq: "\<forall>t path. w_lstat grown_world t path = grown_lstat path"
  by (simp add: grown_world_def grown_lstat_def)

lemma grown_change:
  "change_at grown_lstat [100, 47, 102] normal reg_stat = [([100, 47, 102], ''MODIFY'')]"
  "change_at grown_lstat [100] directory dir_stat = []"
  by code_simp+

theorem round_prints_changes_witness:
  "\<exists>q s'. fs_target_observe grown_world sample_dir state_init = Inr (q, s', True) \<and>
    printed (reports s') = [([100, 47, 102], ''MODIFY'')]"
proof -
  have "changes grown_lstat [] sample_dir = [([100, 47, 102], ''MODIFY'')]"
    using grown_change by (simp add: sample_dir_def sample_file_def sample_events_def enter_def)
  moreover have "printed (reports state_init) = []"
    by (simp add: state_init_def printed_def)
  ultimately show ?thesis
    using round_prints_changes [OF sample_live state_init_ready(1) sample_fits sample_assured grown_lstat_eq]
      state_init_ready(2) by auto
qed

text \<open>
  C6: the daemon finds what changed: after a snapshot of the entry \<open>e\<close>, a round on whatever the
  file system has become prints exactly the entries of \<open>e\<close> whose status is no longer the one of
  the snapshot, with the path below the base name and the label of the difference. Entries that
  were not there at the snapshot are never looked for.
\<close>

theorem round_reports_differences:
  assumes "\<forall>t n. grants (w_alloc w t) n" and "present w q e" and "is_cstr q" and "basename q = (b, q)"
    and "height e < fuel" and "span b e < MAX_PATH_SIZE"
    and "\<forall>t n. grants (w_alloc w' t) n" and "\<forall>t path. w_lstat w' t path = fs path"
  shows "\<exists>p s1. fs_target_create w fuel q ref s = Inr (p, s1) \<and> p \<noteq> Null \<and>
    (\<forall>s2. path_ready s2 \<and> length (cur_path s2) = MAX_PATH_SIZE \<and> cstr (cur_path s2) = [] \<longrightarrow>
      (\<exists>p' s3. fs_target_observe w' p s2 = Inr (p', s3, True) \<and>
        printed (reports s3) = printed (reports s2) @ diffs fs b e))"
proof -
  have mem: "\<And>t n. grants (w_alloc w t) n" "\<And>t n. grants (w_alloc w' t) n"
    and lstat: "\<And>t path. w_lstat w' t path = fs path"
    using assms(1,7,8) by simp_all
  obtain p s1 where create: "fs_target_create w fuel q ref s = Inr (p, s1)" and p: "live p" "mirrors (ref q) b e p"
    using create_mirror [OF mem(1) assms(2-5)] by blast
  have fits: "path_fits MAX_PATH_SIZE [] p"
    by (rule mirrors_fit(1) [OF p(2)]) (use assms(6) in \<open>simp add: reach_def\<close>)
  have "changes fs [] p = diffs fs b e"
    using mirrors_changes(1) [OF p(2), of fs "[]"] by (simp add: enter_def)
  then have "\<exists>p' s3. fs_target_observe w' p s2 = Inr (p', s3, True) \<and>
      printed (reports s3) = printed (reports s2) @ diffs fs b e"
    if "path_ready s2" "length (cur_path s2) = MAX_PATH_SIZE" "cstr (cur_path s2) = []" for s2
    using observe_prints(1) [where fs = fs, OF lstat p(1) that(1)] that fits mirrors_assured(1) [OF mem(2) p(2)]
    by (auto simp: printed_visit_def)
  then show ?thesis
    using create mirrors_not_Null [OF p(2)] by blast
qed

theorem round_reports_differences_witness:
  "\<exists>p s1 p' s3. fs_target_create sample_world 2 [100] Argument state_init = Inr (p, s1) \<and>
    fs_target_observe grown_world p state_init = Inr (p', s3, True) \<and>
    printed (reports s3) = [([100, 47, 102], ''MODIFY'')]"
proof -
  have "\<forall>t n. grants (w_alloc sample_world t) n" "\<forall>t n. grants (w_alloc grown_world t) n"
    by (simp_all add: grown_world_def sample_world_def sample_heap_def)
  moreover have "basename [100] = ([100 :: u8], [100])" "height sample_entry < 2" "is_cstr [100]"
    "span [100] sample_entry < MAX_PATH_SIZE"
    by (simp_all add: basename_def strip_slashes_def sample_entry_def MAX_PATH_SIZE_def is_cstr_def)
  moreover have "diffs grown_lstat [100] sample_entry = [([100, 47, 102], ''MODIFY'')]"
    by code_simp
  moreover have "printed (reports state_init) = []" "length (cur_path state_init) = MAX_PATH_SIZE"
    by (simp_all add: state_init_def printed_def cur_path_init_def)
  ultimately show ?thesis
    using round_reports_differences [OF _ sample_present, of "[100]" 2 grown_world grown_lstat Argument state_init]
      grown_lstat_eq state_init_ready by fastforce
qed

end
