(* ===== verification/Monitor.thy ===== *)
theory Monitor
  imports Report Service
begin

text \<open>
  The daemon without its memory. A monitor is the tree of what is watched (type, name, latest
  status) and a journal: the system calls made so far, the counters, the lines printed. A round
  looks at every entry once, children before their directory, and writes a line for each status
  that has moved. The rounds of the service refine it, on every system: nothing is assumed to
  stand still.
\<close>

section \<open>The monitor\<close>

datatype watch = Watch filetype bytes stat "watch list"

record journal =
  j_clock :: nat
  j_perf :: perf
  j_lines :: "report list"

text \<open>One look at the status under a path: two system calls, and a line when it has moved.\<close>

definition watch_look :: "world \<Rightarrow> bytes \<Rightarrow> stat \<Rightarrow> journal \<Rightarrow> stat \<times> journal" where
  "watch_look w path st j =
     (let r = w_lstat w (j_clock j + 1) path;
          line = \<lparr>r_path = path, r_label = event_label (change_mask st r),
            r_uid = fuid_create (change_stat r), r_at = clock_ms w (j_clock j),
            r_mtime = st_mtime (change_stat r)\<rparr>;
          perf = (j_perf j)\<lparr>n_stat := n_stat (j_perf j) + 1\<rparr>;
          j = j\<lparr>j_clock := j_clock j + 2, j_perf := perf\<rparr> in
      if change_mask st r = 0 then (st, j)
      else (change_stat r, j\<lparr>j_perf := perf\<lparr>n_events := n_events perf + 1\<rparr>, j_lines := line # j_lines j\<rparr>))"

fun watch_round :: "world \<Rightarrow> bytes \<Rightarrow> watch \<Rightarrow> journal \<Rightarrow> watch \<times> journal"
  and watch_all :: "world \<Rightarrow> bytes \<Rightarrow> watch list \<Rightarrow> journal \<Rightarrow> watch list \<times> journal" where
  "watch_round w path (Watch ft n st ws) j =
     (let (ws, j) = watch_all w (enter path n) ws j in
      if ft = unknown then (Watch ft n st ws, j)
      else let (st, j) = watch_look w (enter path n) st j in (Watch ft n st ws, j))"
| "watch_all w path [] j = ([], j)"
| "watch_all w path (x # xs) j =
     (let (x, j) = watch_round w path x j; (xs, j) = watch_all w path xs j in (x # xs, j))"

text \<open>The wait of a round as a function of the clock: whether it ran to its end, and when it ended.\<close>

definition wait_until :: "world \<Rightarrow> nat \<Rightarrow> nat \<Rightarrow> (bool \<times> nat) res" where
  "wait_until w k t = map_res (\<lambda>(go, s). (go, clock s)) (spin w k 1000 (state_init\<lparr>clock := t\<rparr>))"

definition monitor_round :: "world \<Rightarrow> nat \<Rightarrow> watch list \<times> journal \<Rightarrow> ((watch list \<times> journal) \<times> bool) res" where
  "monitor_round w k m =
     (let (ws, j) = m; perf = j_perf j in
      map_res (\<lambda>(go, t).
          let j = j\<lparr>j_clock := t, j_perf := perf\<lparr>n_rounds := n_rounds perf + 1\<rparr>\<rparr> in
          if go then (watch_all w [] ws j, True) else ((ws, j), False))
        (wait_until w k (j_clock j)))"

fun monitor :: "world \<Rightarrow> nat \<Rightarrow> nat \<Rightarrow> watch list \<times> journal \<Rightarrow> (watch list \<times> journal) res" where
  "monitor w k 0 m = Inl Out_Of_Fuel"
| "monitor w k (Suc n) m =
     bind_res (monitor_round w k m) (\<lambda>(m, go). if go then monitor w k n m else Inr m)"

section \<open>What a service monitors\<close>

definition journal_of :: "state \<Rightarrow> journal" where
  "journal_of s = \<lparr>j_clock = clock s, j_perf = perf s, j_lines = reports s\<rparr>"

function (sequential) watch_of :: "fs_target cptr \<Rightarrow> watch" and watches_of :: "fs_target cptr list \<Rightarrow> watch list" where
  "watch_of (Ptr (Target info evs kids)) =
     Watch (f_type info) (f_name info) (e_st (last (s_items evs)))
       (case kids of Kids ps cap \<Rightarrow> watches_of ps | _ \<Rightarrow> [])"
| "watch_of _ = Watch unknown [] zero_stat []"
| "watches_of [] = []"
| "watches_of (p # ps) = watch_of p # watches_of ps"
  by pat_completeness auto
termination
  by (relation "measure (case_sum (size_cptr size) (size_list (size_cptr size)))") auto

definition monitor_of :: "service \<Rightarrow> watch list \<times> journal" where
  "monitor_of sv = (watches_of (take (sv_index sv) (sv_fp sv)), journal_of (sv_state sv))"

text \<open>Every history of the tree has room for \<open>k\<close> more events below a gigabyte.\<close>

function (sequential) spare :: "nat \<Rightarrow> fs_target cptr \<Rightarrow> bool" and spare_all :: "nat \<Rightarrow> fs_target cptr list \<Rightarrow> bool" where
  "spare k (Ptr (Target info evs kids)) \<longleftrightarrow> (length (s_items evs) + k) * unat sizeof_event < 2 ^ 30 \<and>
     (case kids of Kids ps cap \<Rightarrow> spare_all k ps | _ \<Rightarrow> True)"
| "spare k _ \<longleftrightarrow> True"
| "spare_all k [] \<longleftrightarrow> True"
| "spare_all k (p # ps) \<longleftrightarrow> spare k p \<and> spare_all k ps"
  by pat_completeness auto
termination
  by (relation "measure (case_sum (\<lambda>(k, p). size_cptr size p) (\<lambda>(k, ps). size_list (size_cptr size) ps))") auto

lemma spare_grown:
  "grown p q \<Longrightarrow> spare (Suc k) p \<Longrightarrow> spare k q"
  "grown_all ps qs \<Longrightarrow> spare_all (Suc k) ps \<Longrightarrow> spare_all k qs"
proof (induction p q and ps qs rule: grown_grown_all.induct)
  case (1 info evs kids info' evs' kids')
  then have "(length (s_items evs') + k) * unat sizeof_event \<le> (length (s_items evs) + Suc k) * unat sizeof_event"
    by (intro mult_le_mono1) simp
  then have "(length (s_items evs') + k) * unat sizeof_event < 2 ^ 30"
    by (rule le_less_trans) (use "1.prems"(2) in simp)
  then show ?case
    using 1 by (cases kids; cases kids') auto
qed auto

lemma spare_mono:
  "spare k p \<Longrightarrow> i \<le> k \<Longrightarrow> spare i p"
  "spare_all k ps \<Longrightarrow> i \<le> k \<Longrightarrow> spare_all i ps"
proof (induction k p and k ps rule: spare_spare_all.induct)
  case (1 k info evs kids)
  have "(length (s_items evs) + i) * unat sizeof_event \<le> (length (s_items evs) + k) * unat sizeof_event"
    using "1.prems"(2) by (intro mult_le_mono1) simp
  then have "(length (s_items evs) + i) * unat sizeof_event < 2 ^ 30"
    by (rule le_less_trans) (use "1.prems"(1) in simp)
  then show ?case
    using 1 by (cases kids) auto
qed auto

lemma spare_all_nth: "spare_all k ps \<longleftrightarrow> (\<forall>i < length ps. spare k (ps ! i))"
  by (induction ps) (auto simp: nth_Cons split: nat.splits)

lemma watches_of_map: "watches_of ps = map watch_of ps"
  by (induction ps) simp_all

section \<open>One look\<close>

lemma journal_simps [simp]:
  "j_clock (journal_of s) = clock s" "j_perf (journal_of s) = perf s" "j_lines (journal_of s) = reports s"
  "journal_of (s\<lparr>cur_path := p\<rparr>) = journal_of s"
  by (simp_all add: journal_of_def)

lemma track_look:
  assumes hist: "history_ok evs" and ready: "path_ready s" and sure: "assured w evs"
  shows "\<exists>evs' s'. fs_target_event_track w evs s = Inr (evs', s', True) \<and> cur_path s' = cur_path s \<and>
    watch_look w (cstr (cur_path s)) (e_st (last (s_items evs))) (journal_of s) =
      (e_st (last (s_items evs')), journal_of s')"
proof -
  let ?prev = "e_st (last (s_items evs))" and ?e = "change_event w (e_st (last (s_items evs))) s"
  let ?s = "count_stat (s\<lparr>clock := clock s + 2\<rparr>)"
  have mask: "e_mask ?e = change_mask ?prev (w_lstat w (clock s + 1) (cstr (cur_path s)))"
    and event: "e_path ?e = Cur_Path" "e_at ?e = clock_ms w (clock s)"
      "e_st ?e = change_stat (w_lstat w (clock s + 1) (cstr (cur_path s)))"
    by (simp_all add: change_event_def Let_def get_timestamp_eq)
  note detect = target_event_detect_spec [OF ready, of w evs "last (s_items evs)"]
  show ?thesis
  proof (cases "e_mask ?e = 0")
    case True
    then have "fs_target_event_track w evs s = Inr (evs, ?s, True)"
      using detect mask by (simp add: fs_target_event_track_def fs_target_latest_event_eq [OF hist])
    then show ?thesis
      using True mask by (simp add: watch_look_def Let_def count_stat_def journal_of_def)
  next
    case False
    obtain evs' ok where push: "seq_push (w_alloc w (clock s + 2)) evs ?e = Inr (evs', ok)"
      and h': "history_ok evs'" and items: "s_items evs' = (if ok then s_items evs @ [?e] else s_items evs)"
      and granted: "(\<And>n. grants (w_alloc w (clock s + 2)) n) \<Longrightarrow>
        (length (s_items evs) + 1) * unat sizeof_event < 2 ^ 30 \<Longrightarrow> ok"
      using history_ok_push [OF hist event(1), of "w_alloc w (clock s + 2)"] by blast
    have ok: ok
      using granted sure by (simp add: assured_def)
    let ?t = "count_event ?s"
    have "fs_target_event_track w evs s = map_res (\<lambda>s. (evs', s, True)) (print_fs_target_event ?e ?t)"
      using detect mask False push items ok
      by (simp add: fs_target_event_track_def fs_target_latest_event_eq [OF hist] fs_target_latest_event_eq [OF h'])
    moreover have "path_string ?t = Inr (cstr (cur_path s))"
      using ready path_string_eq [of ?t] by (simp add: path_ready_def count_stat_def count_event_def)
    ultimately have "fs_target_event_track w evs s = Inr (evs', ?t\<lparr>reports :=
        \<lparr>r_path = cstr (cur_path s), r_label = event_label (e_mask ?e), r_uid = fuid_create (e_st ?e),
          r_at = e_at ?e, r_mtime = st_mtime (e_st ?e)\<rparr> # reports s\<rparr>, True)"
      using event(1) by (simp add: print_fs_target_event_def count_stat_def count_event_def)
    then show ?thesis
      using False mask event items ok
      by (simp add: watch_look_def Let_def count_stat_def count_event_def journal_of_def)
  qed
qed


section \<open>A round\<close>

text \<open>A visit that left the journal \<open>j\<close>.\<close>

definition journaled :: "journal \<Rightarrow> state \<Rightarrow> state \<Rightarrow> bool" where
  "journaled j s s' \<longleftrightarrow> cstr (cur_path s') = cstr (cur_path s) \<and>
     length (cur_path s') = length (cur_path s) \<and> path_ready s' \<and> journal_of s' = j"

lemma visit_end_journal:
  assumes hist: "history_ok evs" and name: "is_cstr (f_name info)" "is_cstr path"
    and s: "path_ready s" "cstr (cur_path s) = enter path (f_name info)" and sure: "assured w evs"
    and look: "(if f_type info = unknown then (e_st (last (s_items evs)), journal_of s)
      else watch_look w (enter path (f_name info)) (e_st (last (s_items evs))) (journal_of s)) = (st, j)"
  shows "\<exists>evs' s'.
    bind_res
       (if f_type info = unknown then Inr (evs, s)
        else map_res (\<lambda>(evs, s, tracked). (evs, s)) (fs_target_event_track w evs s)) (\<lambda>(evs, s).
     map_res (\<lambda>path. (Ptr (Target info evs kids), s\<lparr>cur_path := path\<rparr>, True))
       (unset_current_wd (Some (f_name info)) (cur_path s))) = Inr (Ptr (Target info evs' kids), s', True) \<and>
    cstr (cur_path s') = path \<and> length (cur_path s') = length (cur_path s) \<and> path_ready s' \<and>
    journal_of s' = j \<and> e_st (last (s_items evs')) = st"
proof -
  have "\<exists>evs1 s1. (if f_type info = unknown then Inr (evs, s)
        else map_res (\<lambda>(evs, s, tracked). (evs, s)) (fs_target_event_track w evs s)) = Inr (evs1, s1) \<and>
      cur_path s1 = cur_path s \<and> journal_of s1 = j \<and> e_st (last (s_items evs1)) = st"
  proof (cases "f_type info = unknown")
    case True
    then show ?thesis
      using look by simp
  next
    case False
    then show ?thesis
      using track_look [OF hist s(1) sure] look s(2) by auto
  qed
  then obtain evs1 s1 where track: "(if f_type info = unknown then Inr (evs, s)
        else map_res (\<lambda>(evs, s, tracked). (evs, s)) (fs_target_event_track w evs s)) = Inr (evs1, s1)"
    and s1: "cur_path s1 = cur_path s" "journal_of s1 = j" "e_st (last (s_items evs1)) = st"
    by blast
  obtain buf where "unset_current_wd (Some (f_name info)) (cur_path s1) = Inr buf"
    "0 \<in> set buf" "cstr buf = path" "length buf = length (cur_path s1)"
    by (rule leave_wd [of "cur_path s1" path "f_name info"])
       (use s1 s name in \<open>auto simp: path_ready_def\<close>)
  then show ?thesis
    using track s1 by (auto simp: path_ready_def)
qed

lemma observe_journal:
  assumes mem: "\<And>t n. grants (w_alloc w t) n"
  shows "live p \<Longrightarrow> path_ready s \<Longrightarrow> path_fits (length (cur_path s)) (cstr (cur_path s)) p \<Longrightarrow> spare 1 p \<Longrightarrow>
     \<exists>q s' j. fs_target_observe w p s = Inr (q, s', True) \<and>
       watch_round w (cstr (cur_path s)) (watch_of p) (journal_of s) = (watch_of q, j) \<and> journaled j s s'"
    and "live_all ps \<Longrightarrow> path_ready s \<Longrightarrow> paths_fit (length (cur_path s)) (cstr (cur_path s)) ps \<Longrightarrow>
     spare_all 1 ps \<Longrightarrow>
     \<exists>qs s' j. propagate_children_recursive w ps s = Inr (qs, s') \<and>
       watch_all w (cstr (cur_path s)) (watches_of ps) (journal_of s) = (watches_of qs, j) \<and> journaled j s s'"
  using mem
proof (induction w p s and w ps s rule: fs_target_observe_propagate_children_recursive.induct)
  case (3 w info evs kids s)
  let ?path = "cstr (cur_path s)" and ?at = "enter (cstr (cur_path s)) (f_name info)"
  let ?ws = "case kids of Kids ps cap \<Rightarrow> watches_of ps | _ \<Rightarrow> []"
  have hist: "history_ok evs" and name: "is_cstr (f_name info)"
    using "3.prems"(1) by simp_all
  have sure: "assured w evs"
    using "3.prems"(4,5) by (simp add: assured_def)
  obtain buf where buf: "set_current_wd (Some (f_name info)) (cur_path s) = Inr buf"
    "0 \<in> set buf" "cstr buf = ?at" "length buf = length (cur_path s)"
    by (rule enter_wd [of "cur_path s" "f_name info"])
       (use "3.prems" name in \<open>auto simp: path_ready_def\<close>)
  let ?s = "s\<lparr>cur_path := buf\<rparr>"
  have ready: "path_ready ?s"
    using buf by (simp add: path_ready_def)
  have "\<exists>kids1 s1 j. (if f_type info = directory then
          case kids of
            No_Kids \<Rightarrow> Inl Hardened_Check
          | Dangling_Kids \<Rightarrow> Inl Use_After_Free
          | Kids ps cap \<Rightarrow>
              map_res (\<lambda>(ps, s). (Kids ps cap, s)) (propagate_children_recursive w ps ?s)
        else Inr (kids, ?s)) = Inr (kids1, s1) \<and>
      watch_all w ?at ?ws (journal_of s) = ((case kids1 of Kids ps cap \<Rightarrow> watches_of ps | _ \<Rightarrow> []), j) \<and>
      journaled j ?s s1"
  proof (cases "f_type info = directory")
    case True
    then obtain ps cap where kids: "kids = Kids ps cap" "live_all ps"
      using "3.prems"(1) by (auto split: kids.splits)
    have "\<exists>qs s' j. propagate_children_recursive w ps ?s = Inr (qs, s') \<and>
       watch_all w (cstr (cur_path ?s)) (watches_of ps) (journal_of ?s) = (watches_of qs, j) \<and> journaled j ?s s'"
      by (rule "3.IH" [OF buf(1) True kids(1)]) (use kids ready "3.prems" buf in simp_all)
    then show ?thesis
      using True kids(1) buf(3) by auto
  next
    case False
    then have "kids = No_Kids"
      using "3.prems"(1) by simp
    then show ?thesis
      using False ready by (simp add: journaled_def)
  qed
  then obtain kids1 s1 j1 where walk: "(if f_type info = directory then
          case kids of
            No_Kids \<Rightarrow> Inl Hardened_Check
          | Dangling_Kids \<Rightarrow> Inl Use_After_Free
          | Kids ps cap \<Rightarrow>
              map_res (\<lambda>(ps, s). (Kids ps cap, s)) (propagate_children_recursive w ps ?s)
        else Inr (kids, ?s)) = Inr (kids1, s1)"
    and below: "watch_all w ?at ?ws (journal_of s) = ((case kids1 of Kids ps cap \<Rightarrow> watches_of ps | _ \<Rightarrow> []), j1)"
    and s1: "journaled j1 ?s s1"
    by blast
  have at: "path_ready s1" "cstr (cur_path s1) = ?at" "journal_of s1 = j1"
    using s1 buf(3) by (simp_all add: journaled_def)
  obtain st j where look: "(if f_type info = unknown then (e_st (last (s_items evs)), journal_of s1)
      else watch_look w ?at (e_st (last (s_items evs))) (journal_of s1)) = (st, j)"
    by (cases "if f_type info = unknown then (e_st (last (s_items evs)), journal_of s1)
      else watch_look w ?at (e_st (last (s_items evs))) (journal_of s1)") blast
  from visit_end_journal [where kids = kids1, OF hist name is_cstr_cstr at(1,2) sure look]
  obtain evs' s' where fin: "bind_res
       (if f_type info = unknown then Inr (evs, s1)
        else map_res (\<lambda>(evs, s, tracked). (evs, s)) (fs_target_event_track w evs s1)) (\<lambda>(evs, s).
     map_res (\<lambda>path. (Ptr (Target info evs kids1), s\<lparr>cur_path := path\<rparr>, True))
       (unset_current_wd (Some (f_name info)) (cur_path s))) = Inr (Ptr (Target info evs' kids1), s', True)"
    and s': "cstr (cur_path s') = ?path" "length (cur_path s') = length (cur_path s1)" "path_ready s'"
      "journal_of s' = j" "e_st (last (s_items evs')) = st"
    by blast
  have "watch_round w ?path (watch_of (Ptr (Target info evs kids))) (journal_of s) =
      (watch_of (Ptr (Target info evs' kids1)), j)"
    using below look s'(5) at(3) by (cases "f_type info = unknown") simp_all
  moreover have "journaled j s s'"
    using s1 s' buf by (simp add: journaled_def)
  ultimately show ?case
    using buf(1) walk fin by (simp del: watch_of.simps watch_round.simps)
next
  case (5 w child ps s)
  obtain q s1 j1 where q: "fs_target_observe w child s = Inr (q, s1, True)"
    and j1: "watch_round w (cstr (cur_path s)) (watch_of child) (journal_of s) = (watch_of q, j1)"
    and s1: "journaled j1 s s1"
    using "5.IH"(1) "5.prems" by auto
  have at: "path_ready s1" "cstr (cur_path s1) = cstr (cur_path s)" "length (cur_path s1) = length (cur_path s)"
    "journal_of s1 = j1"
    using s1 by (simp_all add: journaled_def)
  have "\<exists>qs s' j. propagate_children_recursive w ps s1 = Inr (qs, s') \<and>
      watch_all w (cstr (cur_path s1)) (watches_of ps) (journal_of s1) = (watches_of qs, j) \<and> journaled j s1 s'"
    by (rule "5.IH"(2) [OF q refl refl]) (use "5.prems" at in simp_all)
  then obtain qs s2 j2 where "propagate_children_recursive w ps s1 = Inr (qs, s2)"
    "watch_all w (cstr (cur_path s)) (watches_of ps) j1 = (watches_of qs, j2)" "journaled j2 s1 s2"
    using at(2,4) by auto
  then show ?case
    using q j1 at by (auto simp: journaled_def)
qed (auto simp: journaled_def)


section \<open>The service\<close>

lemma spin_loop_clock:
  "clock u = clock s \<Longrightarrow> spin_loop w k start ms s =
     map_res (\<lambda>(go, u'). (go, s\<lparr>clock := clock u'\<rparr>)) (spin_loop w k start ms u)"
proof (induction k arbitrary: s u)
  case (Suc k)
  have "clock (tick (tick u)) = clock (tick (tick s))"
    using Suc.prems by (simp add: tick_def)
  from Suc.IH [OF this] show ?case
    using Suc.prems by (cases "spin_loop w k start ms (tick (tick u))") (auto simp: get_timestamp_eq tick_def Let_def)
qed simp

lemma spin_wait_until:
  "spin w k 1000 s = map_res (\<lambda>(go, t). (go, s\<lparr>clock := t\<rparr>)) (wait_until w k (clock s))"
proof -
  have "spin_loop w k start 1000 (tick s) =
      map_res (\<lambda>(go, u). (go, (tick s)\<lparr>clock := clock u\<rparr>)) (spin_loop w k start 1000 (tick (state_init\<lparr>clock := clock s\<rparr>)))"
    for start by (rule spin_loop_clock) (simp add: tick_def)
  then show ?thesis
    by (cases "spin_loop w k (clock_ms w (clock s)) 1000 (tick (state_init\<lparr>clock := clock s\<rparr>))")
       (auto simp: wait_until_def spin_def get_timestamp_eq tick_def)
qed

lemma take_update: "i < n \<Longrightarrow> take n (xs[i := y]) = (take n xs)[i := y]"
  by (simp add: take_update_swap)

text \<open>What the rounds need of the service: the invariant, and room in every history.\<close>

definition service_spare :: "nat \<Rightarrow> service \<Rightarrow> bool" where
  "service_spare k sv \<longleftrightarrow> spare_all k (take (sv_index sv) (sv_fp sv))"

lemma observe_entries_monitor:
  assumes mem: "\<And>t n. grants (w_alloc w t) n"
  shows "service_ok sv \<Longrightarrow> service_fits sv \<Longrightarrow> i + k = sv_index sv \<Longrightarrow>
     spare_all (Suc m) (drop i (take (sv_index sv) (sv_fp sv))) \<Longrightarrow>
     spare_all m (take i (sv_fp sv)) \<Longrightarrow>
   \<exists>sv' ws j. observe_entries w sv i k = Inr sv' \<and> service_ok sv' \<and> service_fits sv' \<and>
     sv_index sv' = sv_index sv \<and> service_spare m sv' \<and>
     watch_all w [] (watches_of (drop i (take (sv_index sv) (sv_fp sv)))) (journal_of (sv_state sv)) = (ws, j) \<and>
     monitor_of sv' = (watches_of (take i (sv_fp sv)) @ ws, j)"
proof (induction k arbitrary: i sv)
  case 0
  then show ?case
    by (simp add: service_spare_def monitor_of_def)
next
  case (Suc k)
  let ?t = "sv_fp sv ! i" and ?s = "sv_state sv" and ?n = "sv_index sv"
  have i: "i < ?n" "i < length (sv_fp sv)" "?n \<le> length (sv_fp sv)" "i < length (take ?n (sv_fp sv))"
    using Suc.prems(1,3) by (auto simp: service_ok_def)
  have rest: "drop i (take ?n (sv_fp sv)) = ?t # drop (i + 1) (take ?n (sv_fp sv))"
    using i(1) Cons_nth_drop_Suc [OF i(4)] by simp
  have t: "live ?t" "path_fits MAX_PATH_SIZE [] ?t" "spare (Suc m) ?t"
    using Suc.prems i rest by (auto simp: service_ok_def service_fits_def live_all_nth paths_fit_nth)
  have s: "path_ready ?s" "cstr (cur_path ?s) = []" "length (cur_path ?s) = MAX_PATH_SIZE"
    using Suc.prems(1) by (simp_all add: service_ok_def)
  have "good_visit ?t ?s (fs_target_observe w ?t ?s)"
    by (rule observe_good(1)) (use t s in simp_all)
  then obtain q s1 where q: "fs_target_observe w ?t ?s = Inr (q, s1, True)" "live q" "grown ?t q"
    by (auto simp: good_visit_def)
  have "spare 1 ?t"
    using spare_mono(1) [OF t(3)] by simp
  then obtain j1 where j1: "watch_round w [] (watch_of ?t) (journal_of ?s) = (watch_of q, j1)" "journaled j1 ?s s1"
    using observe_journal(1) [OF mem t(1) s(1)] t(2) s q(1) by auto
  define sv1 where "sv1 = sv\<lparr>sv_fp := (sv_fp sv)[i := q], sv_state := s1\<rparr>"
  have n1: "sv_index sv1 = ?n"
    by (simp add: sv1_def)
  have take: "take ?n (sv_fp sv1) = (take ?n (sv_fp sv))[i := q]" "take (i + 1) (sv_fp sv1) = take i (sv_fp sv) @ [q]"
    using i by (simp_all add: sv1_def take_update_swap take_Suc_conv_app_nth list_update_append)
  have drop: "drop ?n (sv_fp sv1) = drop ?n (sv_fp sv)"
    "drop (i + 1) (take ?n (sv_fp sv1)) = drop (i + 1) (take ?n (sv_fp sv))"
    using i take(1) by (simp_all add: sv1_def)
  have ok: "service_ok sv1"
    using Suc.prems(1) j1(2) take drop q(2)
    by (simp add: service_ok_def journaled_def sv1_def live_all_update)
  have fits: "service_fits sv1"
    using Suc.prems(2) grown_fits(1) [OF q(3)] t(2) take(1) n1 by (simp add: service_fits_def paths_fit_update)
  have "spare m q"
    using spare_grown(1) [OF q(3) t(3)] .
  then have behind: "spare_all m (take (i + 1) (sv_fp sv1))"
    using Suc.prems(5) unfolding take(2) by (auto simp: spare_all_nth nth_append)
  have todo: "spare_all (Suc m) (drop (i + 1) (take (sv_index sv1) (sv_fp sv1)))"
    using Suc.prems(4) rest drop(2) n1 by simp
  have "i + 1 + k = sv_index sv1"
    using Suc.prems(3) n1 by simp
  from Suc.IH [OF ok fits this todo behind] obtain sv' ws j where
    "observe_entries w sv1 (i + 1) k = Inr sv'" "service_ok sv'" "service_fits sv'" "sv_index sv' = ?n"
    "service_spare m sv'"
    "watch_all w [] (watches_of (drop (i + 1) (take ?n (sv_fp sv)))) j1 = (ws, j)"
    "monitor_of sv' = (watches_of (take i (sv_fp sv)) @ watch_of q # ws, j)"
    using n1 drop(2) take(2) j1(2) by (auto simp: sv1_def journaled_def watches_of_map)
  moreover have "?t \<noteq> Null"
    using t(1) by auto
  ultimately show ?case
    using q(1) i rest j1(1) by (auto simp: load_slot_def store_slot_def sv1_def)
qed

lemma service_round_monitor:
  assumes mem: "\<And>t n. grants (w_alloc w t) n"
    and sv: "service_ok sv" "service_fits sv" "service_spare (Suc m) sv"
  shows "map_res (\<lambda>(sv, go). (monitor_of sv, go)) (service_round w k sv) = monitor_round w k (monitor_of sv)"
    and "service_round w k sv = Inr (sv', go) \<Longrightarrow>
      service_ok sv' \<and> service_fits sv' \<and> service_spare m sv' \<and> sv_index sv' = sv_index sv"
proof -
  let ?s = "count_round (sv_state sv)"
  have s: "clock ?s = clock (sv_state sv)" "cur_path ?s = cur_path (sv_state sv)"
    by (simp_all add: count_round_def)
  have spare: "service_spare m sv"
    using sv(3) spare_mono(2) [of "Suc m" _ m] by (auto simp: service_spare_def)
  have step: "\<exists>sv2. observe_entries w (sv\<lparr>sv_state := ?s\<lparr>clock := t\<rparr>\<rparr>) 0 (sv_index sv) = Inr sv2 \<and> service_ok sv2 \<and>
      service_fits sv2 \<and> service_spare m sv2 \<and> sv_index sv2 = sv_index sv \<and>
      monitor_of sv2 = watch_all w [] (watches_of (take (sv_index sv) (sv_fp sv))) (journal_of (?s\<lparr>clock := t\<rparr>))" for t
  proof -
    let ?sv = "sv\<lparr>sv_state := ?s\<lparr>clock := t\<rparr>\<rparr>"
    have "service_ok ?sv" "service_fits ?sv"
      using sv s by (simp_all add: service_ok_def service_fits_def path_ready_def)
    then show ?thesis
      using observe_entries_monitor [OF mem, of ?sv 0 "sv_index sv" m] sv(3) by (auto simp: service_spare_def)
  qed
  show "map_res (\<lambda>(sv, go). (monitor_of sv, go)) (service_round w k sv) = monitor_round w k (monitor_of sv)"
  proof (cases "wait_until w k (clock (sv_state sv))")
    case (Inl e)
    then show ?thesis
      by (simp add: service_round_def spin_wait_until s monitor_round_def monitor_of_def Let_def)
  next
    case (Inr r)
    obtain go t where r: "r = (go, t)"
      by (cases r)
    have j: "journal_of (?s\<lparr>clock := t\<rparr>) = (journal_of (sv_state sv))\<lparr>j_clock := t,
        j_perf := (perf (sv_state sv))\<lparr>n_rounds := n_rounds (perf (sv_state sv)) + 1\<rparr>\<rparr>"
      by (simp add: journal_of_def count_round_def)
    show ?thesis
    proof (cases go)
      case True
      then show ?thesis
        using step [of t] Inr r j by (auto simp: service_round_def spin_wait_until s monitor_round_def monitor_of_def Let_def)
    next
      case False
      then show ?thesis
        using Inr r j by (simp add: service_round_def spin_wait_until s monitor_round_def monitor_of_def Let_def)
    qed
  qed
  show "service_ok sv' \<and> service_fits sv' \<and> service_spare m sv' \<and> sv_index sv' = sv_index sv"
    if run: "service_round w k sv = Inr (sv', go)"
  proof -
    obtain go1 t where wait: "wait_until w k (clock (sv_state sv)) = Inr (go1, t)"
      using run by (cases "wait_until w k (clock (sv_state sv))") (auto simp: service_round_def spin_wait_until s)
    show ?thesis
    proof (cases go1)
      case True
      then show ?thesis
        using step [of t] wait run by (auto simp: service_round_def spin_wait_until s)
    next
      case False
      then have "sv' = sv\<lparr>sv_state := ?s\<lparr>clock := t\<rparr>\<rparr>"
        using wait run by (simp add: service_round_def spin_wait_until s)
      then show ?thesis
        using sv(1,2) spare s by (simp add: service_ok_def service_fits_def service_spare_def path_ready_def)
    qed
  qed
qed

text \<open>Any number of rounds, with a result or without.\<close>

lemma service_rounds_monitor:
  assumes mem: "\<And>t n. grants (w_alloc w t) n"
  shows "service_ok sv \<Longrightarrow> service_fits sv \<Longrightarrow> service_spare n sv \<Longrightarrow>
    map_res monitor_of (service_rounds w k n sv) = monitor w k n (monitor_of sv)"
proof (induction n arbitrary: sv)
  case (Suc n)
  note round = service_round_monitor [OF mem Suc.prems]
  show ?case
  proof (cases "service_round w k sv")
    case (Inl e)
    then have "monitor_round w k (monitor_of sv) = Inl e"
      using round(1) [of k] by simp
    then show ?thesis
      using Inl by simp
  next
    case (Inr r)
    obtain sv1 go where r: "r = (sv1, go)"
      by (cases r)
    have "monitor_round w k (monitor_of sv) = Inr (monitor_of sv1, go)"
      using round(1) [of k] Inr r by simp
    moreover have "service_ok sv1" "service_fits sv1" "service_spare n sv1"
      using round(2) [of k sv1 go] Inr r by simp_all
    ultimately show ?thesis
      using Inr r Suc.IH by (cases go) simp_all
  qed
qed simp

end
