(* ===== verification/Monitor_Spec.thy ===== *)
theory Monitor_Spec
  imports Monitor "HOL-Library.Multiset"
begin

text \<open>
  What the monitor promises. Its counters: one status call per tracked target and round, one event
  per line. Its reports: when a file system changes once, at whatever moment, every difference is
  printed once by the rounds that follow.
\<close>

section \<open>Counters\<close>

fun tracked_count :: "watch \<Rightarrow> nat" and tracked_counts :: "watch list \<Rightarrow> nat" where
  "tracked_count (Watch ft n st ws) = (if ft = unknown then 0 else 1) + tracked_counts ws"
| "tracked_counts [] = 0"
| "tracked_counts (x # xs) = tracked_count x + tracked_counts xs"

text \<open>From \<open>j\<close> to \<open>j'\<close> with \<open>k\<close> looks: the clock, the counters and the lines.\<close>

definition looked :: "nat \<Rightarrow> journal \<Rightarrow> journal \<Rightarrow> bool" where
  "looked k j j' \<longleftrightarrow> j_clock j' = j_clock j + 2 * k \<and>
     (\<exists>new. j_lines j' = new @ j_lines j \<and> length new \<le> k \<and>
       j_perf j' = (j_perf j)\<lparr>n_stat := n_stat (j_perf j) + of_nat k,
         n_events := n_events (j_perf j) + of_nat (length new)\<rparr>)"

lemma looked_0 [simp]: "looked 0 j j' \<longleftrightarrow> j' = j"
  by (auto simp: looked_def)

lemma looked_trans:
  assumes "looked k i j" and "looked m j l"
  shows "looked (k + m) i l"
proof -
  obtain a where a: "j_clock j = j_clock i + 2 * k" "j_lines j = a @ j_lines i" "length a \<le> k"
    "j_perf j = (j_perf i)\<lparr>n_stat := n_stat (j_perf i) + of_nat k, n_events := n_events (j_perf i) + of_nat (length a)\<rparr>"
    using assms(1) by (auto simp: looked_def)
  obtain b where b: "j_clock l = j_clock j + 2 * m" "j_lines l = b @ j_lines j" "length b \<le> m"
    "j_perf l = (j_perf j)\<lparr>n_stat := n_stat (j_perf j) + of_nat m, n_events := n_events (j_perf j) + of_nat (length b)\<rparr>"
    using assms(2) by (auto simp: looked_def)
  have "j_lines l = (b @ a) @ j_lines i" "length (b @ a) \<le> k + m"
    using a b by simp_all
  then show ?thesis
    unfolding looked_def using a(1,4) b(1,4) by (intro conjI exI [of _ "b @ a"]) (auto simp: algebra_simps)
qed

lemma look_looked: "watch_look w path st j = (st', j') \<Longrightarrow> looked 1 j j'"
  by (cases "change_mask st (w_lstat w (Suc (j_clock j)) path) = 0")
     (auto simp: watch_look_def Let_def looked_def intro: exI [of _ "[]"] exI [of _ "[x]" for x])

lemma round_looked:
  "watch_round w path x j = (x', j') \<Longrightarrow> looked (tracked_count x) j j' \<and> tracked_count x' = tracked_count x"
  "watch_all w path xs j = (xs', j') \<Longrightarrow> looked (tracked_counts xs) j j' \<and> tracked_counts xs' = tracked_counts xs"
proof (induction w path x j and w path xs j arbitrary: x' j' and xs' j' rule: watch_round_watch_all.induct)
  case (1 w path ft n st ws j)
  obtain ws1 j1 where below: "watch_all w (enter path n) ws j = (ws1, j1)"
    by (cases "watch_all w (enter path n) ws j")
  note ih = "1.IH" [OF below]
  show ?case
  proof (cases "ft = unknown")
    case True
    then show ?thesis
      using "1.prems" below ih by auto
  next
    case False
    obtain st1 j2 where look: "watch_look w (enter path n) st j1 = (st1, j2)"
      by (cases "watch_look w (enter path n) st j1")
    then have "looked (tracked_counts ws + 1) j j2"
      using ih look_looked looked_trans by blast
    then show ?thesis
      using "1.prems" below look ih False by auto
  qed
next
  case (3 w path x xs j)
  obtain x1 j1 where first: "watch_round w path x j = (x1, j1)"
    by (cases "watch_round w path x j")
  obtain xs1 j2 where rest: "watch_all w path xs j1 = (xs1, j2)"
    by (cases "watch_all w path xs j1")
  show ?case
    using "3.prems" first rest "3.IH"(1) [OF first] "3.IH"(2) [OF first [symmetric] refl rest] looked_trans by auto
qed auto

section \<open>The wait\<close>

lemma spin_loop_bounds:
  "spin_loop w k start ms s = Inr (go, s') \<Longrightarrow>
     clock s < clock s' \<and> clock s' < clock s + 2 * k \<and> (\<not> go \<longrightarrow> w_terminate w (clock s'))"
proof (induction k arbitrary: s)
  case (Suc k)
  let ?s = "tick (tick s)"
  have "clock ?s < clock s' \<and> clock s' < clock ?s + 2 * k \<and> (\<not> go \<longrightarrow> w_terminate w (clock s'))"
    if "spin_loop w k start ms ?s = Inr (go, s')"
    using that by (rule Suc.IH)
  then show ?case
    using Suc.prems by (auto simp: get_timestamp_eq tick_def Let_def split: if_splits)
qed simp

lemma wait_until_bounds:
  "wait_until w k t = Inr (go, t') \<Longrightarrow> t < t' \<and> t' \<le> t + 2 * k \<and> (\<not> go \<longrightarrow> w_terminate w t')"
proof -
  assume "wait_until w k t = Inr (go, t')"
  then obtain s' where "spin_loop w k (clock_ms w t) 1000 (tick (state_init\<lparr>clock := t\<rparr>)) = Inr (go, s')" "t' = clock s'"
    by (auto simp: wait_until_def spin_def get_timestamp_eq map_res_Inr_iff)
  then show ?thesis
    using spin_loop_bounds by (fastforce simp: tick_def)
qed

section \<open>A file system that changes once\<close>

text \<open>
  Up to the moment \<open>T\<close> the path has the status \<open>old\<close>, from then on \<open>new\<close>. The recorded status of
  a tracked target is \<open>old\<close>, or \<open>new\<close> if that moment has come; \<open>early\<close> says that it has not.
\<close>

fun recorded :: "world \<Rightarrow> (bytes \<Rightarrow> stat) \<Rightarrow> (bytes \<Rightarrow> stat) \<Rightarrow> nat \<Rightarrow> bool \<Rightarrow> bytes \<Rightarrow> watch \<Rightarrow> bool"
  and recorded_all :: "world \<Rightarrow> (bytes \<Rightarrow> stat) \<Rightarrow> (bytes \<Rightarrow> stat) \<Rightarrow> nat \<Rightarrow> bool \<Rightarrow> bytes \<Rightarrow> watch list \<Rightarrow> bool" where
  "recorded w old new T early path (Watch ft n st ws) \<longleftrightarrow>
     (let at = enter path n in
      recorded_all w old new T early at ws \<and>
      (ft = unknown \<or> (\<forall>t. w_lstat w t at = Stat (if t < T then old at else new at)) \<and>
         (st = old at \<or> \<not> early \<and> st = new at)))"
| "recorded_all w old new T early path [] \<longleftrightarrow> True"
| "recorded_all w old new T early path (x # xs) \<longleftrightarrow>
     recorded w old new T early path x \<and> recorded_all w old new T early path xs"

text \<open>The lines that are still to be printed, in the order of a round.\<close>

fun pending :: "(bytes \<Rightarrow> stat) \<Rightarrow> bytes \<Rightarrow> watch \<Rightarrow> (bytes \<times> string) list"
  and pending_all :: "(bytes \<Rightarrow> stat) \<Rightarrow> bytes \<Rightarrow> watch list \<Rightarrow> (bytes \<times> string) list" where
  "pending new path (Watch ft n st ws) =
     pending_all new (enter path n) ws @ change_at (\<lambda>p. Stat (new p)) (enter path n) ft st"
| "pending_all new path [] = []"
| "pending_all new path (x # xs) = pending new path x @ pending_all new path xs"

lemma recorded_later:
  "recorded w old new T early path x \<Longrightarrow> (early' \<longrightarrow> early) \<Longrightarrow> recorded w old new T early' path x"
  "recorded_all w old new T early path xs \<Longrightarrow> (early' \<longrightarrow> early) \<Longrightarrow> recorded_all w old new T early' path xs"
  by (induction w old new T early path x and w old new T early path xs rule: recorded_recorded_all.induct)
     (auto simp: Let_def)

lemma same_status: "change_mask st (Stat sb) = 0 \<longleftrightarrow> sb = st"
  by (cases sb; cases st) (auto simp: change_mask_def cmp_stat_cases)

text \<open>A look prints the change of its target, if there is one, and records it.\<close>

lemma look_once:
  assumes look: "watch_look w at st j = (st', j')" and ft: "ft \<noteq> unknown"
    and fs: "\<And>t. w_lstat w t at = Stat (if t < T then old at else new at)"
    and st: "st = old at \<or> \<not> j_clock j \<le> T \<and> st = new at"
  shows "st' = old at \<or> \<not> j_clock j' \<le> T \<and> st' = new at"
    and "printed (j_lines j') @ change_at (\<lambda>p. Stat (new p)) at ft st' =
      printed (j_lines j) @ change_at (\<lambda>p. Stat (new p)) at ft st"
    and "T \<le> j_clock j + 1 \<Longrightarrow> change_at (\<lambda>p. Stat (new p)) at ft st' = []"
proof -
  have clock: "j_clock j' = j_clock j + 2"
    using look_looked [OF look] by (simp add: looked_def)
  show "st' = old at \<or> \<not> j_clock j' \<le> T \<and> st' = new at"
    using look fs [of "j_clock j + 1"] st clock
    by (auto simp: watch_look_def Let_def change_stat_def same_status split: if_splits)
  show "printed (j_lines j') @ change_at (\<lambda>p. Stat (new p)) at ft st' =
      printed (j_lines j) @ change_at (\<lambda>p. Stat (new p)) at ft st"
    using look fs [of "j_clock j + 1"] st ft
    by (auto simp: watch_look_def Let_def change_stat_def same_status change_at_def printed_Cons split: if_splits)
  show "change_at (\<lambda>p. Stat (new p)) at ft st' = []" if "T \<le> j_clock j + 1"
    using look fs [of "j_clock j + 1"] that
    by (auto simp: watch_look_def Let_def change_stat_def same_status change_at_def split: if_splits)
qed

lemma balance:
  fixes a :: "'a::ab_semigroup_add"
  assumes "a + c1 = b + c" and "b + p1 = l + p"
  shows "a + (p1 + c1) = l + (p + c)"
proof -
  have "a + (p1 + c1) = (a + c1) + p1"
    by (simp add: ac_simps)
  also have "\<dots> = (b + p1) + c"
    unfolding assms(1) by (simp add: ac_simps)
  finally show ?thesis
    unfolding assms(2) by (simp add: ac_simps)
qed

text \<open>
  The state of the reports between two visits: what is recorded, what has been printed and what
  is still pending; \<open>caught\<close> says that the moment of the change was seen.
\<close>

lemma round_once:
  "watch_round w path x j = (x', j') \<Longrightarrow> recorded w old new T (j_clock j \<le> T) path x \<Longrightarrow>
     recorded w old new T (j_clock j' \<le> T) path x' \<and>
     mset (printed (j_lines j')) + mset (pending new path x') = mset (printed (j_lines j)) + mset (pending new path x) \<and>
     (T \<le> j_clock j + 1 \<longrightarrow> pending new path x' = [])"
  "watch_all w path xs j = (xs', j') \<Longrightarrow> recorded_all w old new T (j_clock j \<le> T) path xs \<Longrightarrow>
     recorded_all w old new T (j_clock j' \<le> T) path xs' \<and>
     mset (printed (j_lines j')) + mset (pending_all new path xs') =
       mset (printed (j_lines j)) + mset (pending_all new path xs) \<and>
     (T \<le> j_clock j + 1 \<longrightarrow> pending_all new path xs' = [])"
proof (induction w path x j and w path xs j arbitrary: x' j' and xs' j' rule: watch_round_watch_all.induct)
  case (1 w path ft n st ws j)
  let ?at = "enter path n"
  obtain ws1 j1 where below: "watch_all w ?at ws j = (ws1, j1)"
    by (cases "watch_all w ?at ws j")
  have rec: "recorded_all w old new T (j_clock j \<le> T) ?at ws"
    using "1.prems"(2) by (simp add: Let_def)
  note ih = "1.IH" [OF below rec]
  have mono1: "j_clock j \<le> j_clock j1"
    using round_looked(2) [OF below] by (simp add: looked_def)
  show ?case
  proof (cases "ft = unknown")
    case True
    then show ?thesis
      using "1.prems"(1) below ih by (auto simp: Let_def change_at_def)
  next
    case False
    obtain st1 j2 where look: "watch_look w ?at st j1 = (st1, j2)"
      by (cases "watch_look w ?at st j1")
    have res: "x' = Watch ft n st1 ws1" "j' = j2"
      using "1.prems"(1) below look False by simp_all
    have fs: "\<And>t. w_lstat w t ?at = Stat (if t < T then old ?at else new ?at)"
      and st: "st = old ?at \<or> \<not> j_clock j1 \<le> T \<and> st = new ?at"
      using "1.prems"(2) False mono1 by (auto simp: Let_def)
    note once = look_once [where T = T and old = old and new = new, OF look False fs st]
    have "j_clock j1 \<le> j_clock j2"
      using look_looked [OF look] by (simp add: looked_def)
    then have "recorded_all w old new T (j_clock j2 \<le> T) ?at ws1"
      using recorded_later(2) ih by auto
    then have "recorded w old new T (j_clock j' \<le> T) path x'"
      using once(1) fs res by (simp add: Let_def)
    moreover have "mset (printed (j_lines j2)) + mset (change_at (\<lambda>p. Stat (new p)) ?at ft st1) =
        mset (printed (j_lines j1)) + mset (change_at (\<lambda>p. Stat (new p)) ?at ft st)"
      using arg_cong [OF once(2), of mset] by simp
    ultimately show ?thesis
      using ih once(3) mono1 res balance by auto
  qed
next
  case (3 w path x xs j)
  obtain x1 j1 where first: "watch_round w path x j = (x1, j1)"
    by (cases "watch_round w path x j")
  obtain xs1 j2 where rest: "watch_all w path xs j1 = (xs1, j2)"
    by (cases "watch_all w path xs j1")
  have res: "xs' = x1 # xs1" "j' = j2"
    using "3.prems"(1) first rest by simp_all
  have mono: "j_clock j \<le> j_clock j1" "j_clock j1 \<le> j_clock j2"
    using round_looked(1) [OF first] round_looked(2) [OF rest] by (simp_all add: looked_def)
  have rec: "recorded w old new T (j_clock j \<le> T) path x" "recorded_all w old new T (j_clock j1 \<le> T) path xs"
    using "3.prems"(2) recorded_later(2) mono by auto
  note ih1 = "3.IH"(1) [OF first rec(1)] and ih2 = "3.IH"(2) [OF first [symmetric] refl rest rec(2)]
  have "recorded w old new T (j_clock j2 \<le> T) path x1"
    using recorded_later(1) ih1 mono by auto
  then show ?case
    using ih1 ih2 mono res balance by auto
qed auto

section \<open>Rounds until the signal\<close>

lemma journal_set_simps [simp]:
  "j_lines (j\<lparr>j_clock := t, j_perf := p\<rparr>) = j_lines j" "j_clock (j\<lparr>j_clock := t, j_perf := p\<rparr>) = t"
  "j_perf (j\<lparr>j_clock := t, j_perf := p\<rparr>) = p"
  by simp_all

text \<open>
  The rounds print what was pending, each line once, provided the signal leaves room for a round
  after the change: the wait of a round and its looks are over within \<open>2 * k\<close> system calls and
  two per tracked target.
\<close>

lemma monitor_once:
  assumes late: "\<And>t. w_terminate w t \<Longrightarrow> T + 2 * tracked_counts ws + 2 * k < t"
  shows "monitor w k n (ws, j) = Inr (ws', j') \<Longrightarrow> recorded_all w old new T (j_clock j \<le> T) [] ws \<Longrightarrow>
     j_clock j \<le> T + 2 * tracked_counts ws \<or> pending_all new [] ws = [] \<Longrightarrow>
     mset (printed (j_lines j')) = mset (printed (j_lines j)) + mset (pending_all new [] ws) \<and>
     pending_all new [] ws' = []"
  using late
proof (induction n arbitrary: ws j)
  case (Suc n)
  let ?j = "\<lambda>t. j\<lparr>j_clock := t, j_perf := (j_perf j)\<lparr>n_rounds := n_rounds (j_perf j) + 1\<rparr>\<rparr>"
  obtain go t where wait: "wait_until w k (j_clock j) = Inr (go, t)"
    using Suc.prems(1) by (cases "wait_until w k (j_clock j)") (auto simp: monitor_round_def)
  note t = wait_until_bounds [OF wait]
  show ?case
  proof (cases go)
    case False
    then have "pending_all new [] ws = []"
      using Suc.prems(3,4) t by fastforce
    then show ?thesis
      using Suc.prems(1) wait False by (auto simp: monitor_round_def Let_def)
  next
    case True
    obtain ws1 j1 where all: "watch_all w [] ws (?j t) = (ws1, j1)"
      by (cases "watch_all w [] ws (?j t)")
    have rec: "recorded_all w old new T (j_clock (?j t) \<le> T) [] ws"
      using recorded_later(2) [OF Suc.prems(2)] t by simp
    note once = round_once(2) [OF all rec]
    have looks: "j_clock j1 = t + 2 * tracked_counts ws" "tracked_counts ws1 = tracked_counts ws"
      using round_looked(2) [OF all] by (simp_all add: looked_def)
    have "j_clock j1 \<le> T + 2 * tracked_counts ws1 \<or> pending_all new [] ws1 = []"
      using once looks by (cases "T \<le> t + 1") auto
    moreover have "monitor w k n (ws1, j1) = Inr (ws', j')"
      using Suc.prems(1) wait True all by (simp add: monitor_round_def Let_def)
    ultimately have "mset (printed (j_lines j')) = mset (printed (j_lines j1)) + mset (pending_all new [] ws1) \<and>
        pending_all new [] ws' = []"
      using Suc.IH [of ws1 j1] once Suc.prems(4) looks(2) by metis
    then show ?thesis
      using once by simp
  qed
qed simp

text \<open>
  The counters at the end, from any journal: each round was counted once, each look once, and each
  event has its line.
\<close>

lemma monitor_counts:
  "monitor w k n (ws, j) = Inr (ws', j') \<Longrightarrow>
     \<exists>r new. 0 < r \<and> r \<le> n \<and> j_lines j' = new @ j_lines j \<and> length new \<le> (r - 1) * tracked_counts ws \<and>
       j_perf j' = (j_perf j)\<lparr>n_rounds := n_rounds (j_perf j) + of_nat r,
         n_stat := n_stat (j_perf j) + of_nat ((r - 1) * tracked_counts ws),
         n_events := n_events (j_perf j) + of_nat (length new)\<rparr>"
proof (induction n arbitrary: ws j)
  case (Suc n)
  let ?j = "\<lambda>t. j\<lparr>j_clock := t, j_perf := (j_perf j)\<lparr>n_rounds := n_rounds (j_perf j) + 1\<rparr>\<rparr>"
  obtain go t where wait: "wait_until w k (j_clock j) = Inr (go, t)"
    using Suc.prems(1) by (cases "wait_until w k (j_clock j)") (auto simp: monitor_round_def)
  show ?case
  proof (cases go)
    case False
    then have "j' = ?j t"
      using Suc.prems(1) wait by (simp add: monitor_round_def Let_def)
    then show ?thesis
      by (intro exI [of _ 1] exI [of _ "[]"]) simp
  next
    case True
    obtain ws1 j1 where all: "watch_all w [] ws (?j t) = (ws1, j1)"
      by (cases "watch_all w [] ws (?j t)")
    obtain a where a: "j_lines j1 = a @ j_lines j" "length a \<le> tracked_counts ws"
      "j_perf j1 = (j_perf (?j t))\<lparr>n_stat := n_stat (j_perf j) + of_nat (tracked_counts ws),
         n_events := n_events (j_perf j) + of_nat (length a)\<rparr>"
      and same: "tracked_counts ws1 = tracked_counts ws"
      using round_looked(2) [OF all] by (auto simp: looked_def)
    have "monitor w k n (ws1, j1) = Inr (ws', j')"
      using Suc.prems(1) wait True all by (simp add: monitor_round_def Let_def)
    from Suc.IH [OF this] obtain r b where b: "0 < r" "r \<le> n" "j_lines j' = b @ j_lines j1"
      "length b \<le> (r - 1) * tracked_counts ws"
      "j_perf j' = (j_perf j1)\<lparr>n_rounds := n_rounds (j_perf j1) + of_nat r,
         n_stat := n_stat (j_perf j1) + of_nat ((r - 1) * tracked_counts ws),
         n_events := n_events (j_perf j1) + of_nat (length b)\<rparr>"
      using same by metis
    obtain q where q: "r = Suc q"
      using b(1) gr0_implies_Suc by blast
    have "j_lines j' = (b @ a) @ j_lines j" "length (b @ a) \<le> (Suc r - 1) * tracked_counts ws"
      using a b q by simp_all
    moreover have "j_perf j' = (j_perf j)\<lparr>n_rounds := n_rounds (j_perf j) + of_nat (Suc r),
         n_stat := n_stat (j_perf j) + of_nat ((Suc r - 1) * tracked_counts ws),
         n_events := n_events (j_perf j) + of_nat (length (b @ a))\<rparr>"
      using a(3) b(5) q by (simp add: algebra_simps)
    ultimately show ?thesis
      using b(2) by (intro exI [of _ "Suc r"] exI [of _ "b @ a"]) simp
  qed
qed simp

section \<open>No line without a change\<close>

text \<open>The statuses that are compared with, and the paths they are compared at.\<close>

fun statuses :: "bytes \<Rightarrow> watch \<Rightarrow> (bytes \<times> stat) list" and statuses_all :: "bytes \<Rightarrow> watch list \<Rightarrow> (bytes \<times> stat) list" where
  "statuses path (Watch ft n st ws) =
     statuses_all (enter path n) ws @ (if ft = unknown then [] else [(enter path n, st)])"
| "statuses_all path [] = []"
| "statuses_all path (x # xs) = statuses path x @ statuses_all path xs"

text \<open>A status that was known at the start, or that \<^verbatim>\<open>lstat\<close> has answered since, before \<open>c\<close>.\<close>

definition known :: "world \<Rightarrow> (bytes \<times> stat) set \<Rightarrow> nat \<Rightarrow> nat \<Rightarrow> bytes \<times> stat \<Rightarrow> bool" where
  "known w start c0 c = (\<lambda>(path, st). (path, st) \<in> start \<or>
     (\<exists>t. c0 \<le> t \<and> t < c \<and> st = change_stat (w_lstat w t path)))"

text \<open>A line for an answer of \<^verbatim>\<open>lstat\<close> that differs from a known status of the path.\<close>

definition justified :: "world \<Rightarrow> (bytes \<times> stat) set \<Rightarrow> nat \<Rightarrow> nat \<Rightarrow> report \<Rightarrow> bool" where
  "justified w start c0 c line \<longleftrightarrow> (\<exists>t st. c0 \<le> t \<and> t < c \<and> known w start c0 t (r_path line, st) \<and>
     (let r = w_lstat w t (r_path line) in change_mask st r \<noteq> 0 \<and>
        r_label line = event_label (change_mask st r) \<and> r_uid line = fuid_create (change_stat r) \<and>
        r_mtime line = st_mtime (change_stat r)))"

lemma known_later: "known w start c0 c x \<Longrightarrow> c \<le> c' \<Longrightarrow> known w start c0 c' x"
  by (cases x) (force simp: known_def)

lemma justified_later: "justified w start c0 c line \<Longrightarrow> c \<le> c' \<Longrightarrow> justified w start c0 c' line"
  unfolding justified_def by (meson less_le_trans)

text \<open>From \<open>j\<close> to \<open>j'\<close> only justified lines were written.\<close>

definition honest :: "world \<Rightarrow> (bytes \<times> stat) set \<Rightarrow> nat \<Rightarrow> journal \<Rightarrow> journal \<Rightarrow> bool" where
  "honest w start c0 j j' \<longleftrightarrow> j_clock j \<le> j_clock j' \<and>
     (\<exists>new. j_lines j' = new @ j_lines j \<and> (\<forall>line \<in> set new. justified w start c0 (j_clock j') line))"

lemma honest_quiet: "j_clock j \<le> j_clock j' \<Longrightarrow> j_lines j' = j_lines j \<Longrightarrow> honest w start c0 j j'"
  by (simp add: honest_def)

lemma honest_trans:
  assumes "honest w start c0 i j" and "honest w start c0 j l"
  shows "honest w start c0 i l"
proof -
  obtain a b where "j_lines j = a @ j_lines i" "\<forall>line \<in> set a. justified w start c0 (j_clock j) line"
    "j_lines l = b @ j_lines j" "\<forall>line \<in> set b. justified w start c0 (j_clock l) line"
    and c: "j_clock i \<le> j_clock j" "j_clock j \<le> j_clock l"
    using assms by (auto simp: honest_def)
  then have "j_lines l = (b @ a) @ j_lines i \<and> (\<forall>line \<in> set (b @ a). justified w start c0 (j_clock l) line)"
    using justified_later by auto
  then show ?thesis
    using c unfolding honest_def by (meson le_trans)
qed

lemma look_honest:
  assumes look: "watch_look w at st j = (st', j')" and c: "c0 \<le> j_clock j" and st: "known w start c0 (j_clock j) (at, st)"
  shows "honest w start c0 j j'" and "known w start c0 (j_clock j') (at, st')"
proof -
  let ?r = "w_lstat w (j_clock j + 1) at"
  have clock: "j_clock j' = j_clock j + 2"
    using look_looked [OF look] by (simp add: looked_def)
  have before: "known w start c0 (j_clock j + 1) (at, st)"
    using known_later [OF st] by simp
  show "known w start c0 (j_clock j') (at, st')"
  proof (cases "change_mask st ?r = 0")
    case True
    then have "st' = st"
      using look by (simp add: watch_look_def Let_def)
    then show ?thesis
      using known_later [OF st] clock by simp
  next
    case False
    then have "st' = change_stat ?r"
      using look by (simp add: watch_look_def Let_def)
    then show ?thesis
      unfolding known_def using c clock by (auto intro!: exI [of _ "j_clock j + 1"])
  qed
  show "honest w start c0 j j'"
  proof (cases "change_mask st ?r = 0")
    case True
    then show ?thesis
      using look by (intro honest_quiet) (auto simp: watch_look_def Let_def)
  next
    case False
    then obtain line where line: "j_lines j' = line # j_lines j" "r_path line = at"
      "r_label line = event_label (change_mask st ?r)" "r_uid line = fuid_create (change_stat ?r)"
      "r_mtime line = st_mtime (change_stat ?r)"
      using look by (auto simp: watch_look_def Let_def)
    have "justified w start c0 (j_clock j') line"
      unfolding justified_def Let_def line(2-5)
      by (intro exI [of _ "j_clock j + 1"] exI [of _ st]) (use c clock before False in simp)
    then show ?thesis
      unfolding honest_def using line(1) clock by (intro conjI exI [of _ "[line]"]) simp_all
  qed
qed

lemma round_honest:
  "watch_round w path x j = (x', j') \<Longrightarrow> c0 \<le> j_clock j \<Longrightarrow>
     \<forall>s \<in> set (statuses path x). known w start c0 (j_clock j) s \<Longrightarrow>
     honest w start c0 j j' \<and> (\<forall>s \<in> set (statuses path x'). known w start c0 (j_clock j') s)"
  "watch_all w path xs j = (xs', j') \<Longrightarrow> c0 \<le> j_clock j \<Longrightarrow>
     \<forall>s \<in> set (statuses_all path xs). known w start c0 (j_clock j) s \<Longrightarrow>
     honest w start c0 j j' \<and> (\<forall>s \<in> set (statuses_all path xs'). known w start c0 (j_clock j') s)"
proof (induction w path x j and w path xs j arbitrary: x' j' and xs' j' rule: watch_round_watch_all.induct)
  case (1 w path ft n st ws j)
  let ?at = "enter path n"
  obtain ws1 j1 where below: "watch_all w ?at ws j = (ws1, j1)"
    by (cases "watch_all w ?at ws j")
  have ih: "honest w start c0 j j1" "\<forall>s \<in> set (statuses_all ?at ws1). known w start c0 (j_clock j1) s"
    using "1.IH" [OF below "1.prems"(2)] "1.prems"(3) by simp_all
  show ?case
  proof (cases "ft = unknown")
    case True
    then show ?thesis
      using "1.prems"(1) below ih by auto
  next
    case False
    obtain st1 j2 where look: "watch_look w ?at st j1 = (st1, j2)"
      by (cases "watch_look w ?at st j1")
    have mono: "j_clock j \<le> j_clock j1"
      using ih(1) by (simp add: honest_def)
    then have "known w start c0 (j_clock j1) (?at, st)"
      using "1.prems"(3) False known_later by auto
    then have step: "honest w start c0 j1 j2" "known w start c0 (j_clock j2) (?at, st1)"
      using look_honest [OF look] "1.prems"(2) mono by simp_all
    have "j_clock j1 \<le> j_clock j2"
      using step(1) by (simp add: honest_def)
    then have "\<forall>s \<in> set (statuses_all ?at ws1). known w start c0 (j_clock j2) s"
      using ih(2) known_later by blast
    then show ?thesis
      using "1.prems"(1) below look False step honest_trans [OF ih(1) step(1)] by auto
  qed
next
  case (3 w path x xs j)
  obtain x1 j1 where first: "watch_round w path x j = (x1, j1)"
    by (cases "watch_round w path x j")
  obtain xs1 j2 where rest: "watch_all w path xs j1 = (xs1, j2)"
    by (cases "watch_all w path xs j1")
  have ih1: "honest w start c0 j j1" "\<forall>s \<in> set (statuses path x1). known w start c0 (j_clock j1) s"
    using "3.IH"(1) [OF first "3.prems"(2)] "3.prems"(3) by simp_all
  have mono: "j_clock j \<le> j_clock j1"
    using ih1(1) by (simp add: honest_def)
  then have "\<forall>s \<in> set (statuses_all path xs). known w start c0 (j_clock j1) s"
    using "3.prems"(3) known_later [OF _ mono] by auto
  then have ih2: "honest w start c0 j1 j2" "\<forall>s \<in> set (statuses_all path xs1). known w start c0 (j_clock j2) s"
    using "3.IH"(2) [OF first [symmetric] refl rest] "3.prems"(2) mono by simp_all
  have "j_clock j1 \<le> j_clock j2"
    using ih2(1) by (simp add: honest_def)
  then have "\<forall>s \<in> set (statuses path x1). known w start c0 (j_clock j2) s"
    using ih1(2) known_later by blast
  then show ?case
    using "3.prems"(1) first rest ih2(2) honest_trans [OF ih1(1) ih2(1)] by auto
qed (simp add: honest_quiet)

lemma monitor_honest:
  "monitor w k n (ws, j) = Inr (ws', j') \<Longrightarrow> c0 \<le> j_clock j \<Longrightarrow>
     \<forall>s \<in> set (statuses_all [] ws). known w start c0 (j_clock j) s \<Longrightarrow> honest w start c0 j j'"
proof (induction n arbitrary: ws j)
  case (Suc n)
  let ?j = "\<lambda>t. j\<lparr>j_clock := t, j_perf := (j_perf j)\<lparr>n_rounds := n_rounds (j_perf j) + 1\<rparr>\<rparr>"
  obtain go t where wait: "wait_until w k (j_clock j) = Inr (go, t)"
    using Suc.prems(1) by (cases "wait_until w k (j_clock j)") (auto simp: monitor_round_def)
  have t: "j_clock j \<le> t"
    using wait_until_bounds [OF wait] by simp
  have waited: "honest w start c0 j (?j t)"
    by (rule honest_quiet) (use t in simp_all)
  show ?case
  proof (cases go)
    case False
    then show ?thesis
      using Suc.prems(1) wait waited by (auto simp: monitor_round_def Let_def)
  next
    case True
    obtain ws1 j1 where all: "watch_all w [] ws (?j t) = (ws1, j1)"
      by (cases "watch_all w [] ws (?j t)")
    have "\<forall>s \<in> set (statuses_all [] ws). known w start c0 (j_clock (?j t)) s"
      using Suc.prems(3) known_later [OF _ t] by simp
    then have round: "honest w start c0 (?j t) j1" "\<forall>s \<in> set (statuses_all [] ws1). known w start c0 (j_clock j1) s"
      using round_honest(2) [OF all] Suc.prems(2) t by simp_all
    have "monitor w k n (ws1, j1) = Inr (ws', j')"
      using Suc.prems(1) wait True all by (simp add: monitor_round_def Let_def)
    moreover have "c0 \<le> j_clock j1"
      using round(1) Suc.prems(2) t by (simp add: honest_def)
    ultimately have "honest w start c0 j1 j'"
      using Suc.IH round(2) by blast
    then show ?thesis
      using honest_trans [OF waited honest_trans [OF round(1)]] by blast
  qed
qed simp

end
