(* ===== verification/Accounts.thy ===== *)
theory Accounts
  imports Monitor_Spec
begin

text \<open>
  The books of a whole run: the counters of \<^verbatim>\<open>perf.c\<close> after the snapshots and the rounds. On a
  system that grants memory and opens directories every target has the event of its
  acknowledgement, every further event its line, and every directory stream that was opened has
  been closed.
\<close>

section \<open>Taking a snapshot\<close>

text \<open>Events and targets have moved together, and so have opened and closed streams.\<close>

definition balanced :: "state \<Rightarrow> state \<Rightarrow> bool" where
  "balanced s s' \<longleftrightarrow>
     n_events (perf s') - n_target (perf s') = n_events (perf s) - n_target (perf s) \<and>
     n_opendir (perf s') - n_closedir (perf s') = n_opendir (perf s) - n_closedir (perf s) \<and>
     n_rounds (perf s') = n_rounds (perf s)"

lemma balanced_refl: "balanced s s"
  by (simp add: balanced_def)

lemma balanced_trans: "balanced s t \<Longrightarrow> balanced t u \<Longrightarrow> balanced s u"
  by (simp add: balanced_def)

lemma perf_steps [simp]:
  "perf (tick s) = perf s"
  "perf (count_stat s) = (perf s)\<lparr>n_stat := n_stat (perf s) + 1\<rparr>"
  "perf (count_opendir s) = (perf s)\<lparr>n_opendir := n_opendir (perf s) + 1\<rparr>"
  "perf (count_closedir s) = (perf s)\<lparr>n_closedir := n_closedir (perf s) + 1\<rparr>"
  "perf (count_readdir s) = (perf s)\<lparr>n_readdir := n_readdir (perf s) + 1\<rparr>"
  "perf (count_event s) = (perf s)\<lparr>n_events := n_events (perf s) + 1\<rparr>"
  "perf (count_target s) = (perf s)\<lparr>n_target := n_target (perf s) + 1\<rparr>"
  by (simp_all add: tick_def count_stat_def count_opendir_def count_closedir_def count_readdir_def
      count_event_def count_target_def)

lemma next_entry_balanced: "directory_next_entry dir s = (e, dir', s') \<Longrightarrow> balanced s s'"
  by (induction dir s rule: directory_next_entry.induct) (auto simp: Let_def balanced_def split: if_splits)

lemma event_init_counts:
  assumes mem: "\<And>t n. grants (w_alloc w t) n" and run: "fs_target_event_init w path ref s = Inr (r, s')"
  shows "perf s' = (perf s)\<lparr>n_stat := n_stat (perf s) + 1,
      n_events := n_events (perf s) + (if r = None then 0 else 1)\<rparr>"
    and "r = Some evs \<Longrightarrow> length (s_items evs) = 1"
proof -
  have "perf s' = (perf s)\<lparr>n_stat := n_stat (perf s) + 1,
      n_events := n_events (perf s) + (if r = None then 0 else 1)\<rparr> \<and> (r = Some evs \<longrightarrow> length (s_items evs) = 1)"
  proof (cases "w_lstat w (clock s) path")
    case (Stat st)
    then obtain evs1 where r: "r = Some evs1" "length (s_items evs1) = 1"
      using event_init_ok [of w s path ref, OF mem] run by auto
    have "perf s' = (perf s)\<lparr>n_stat := n_stat (perf s) + 1, n_events := n_events (perf s) + 1\<rparr>"
      using run r(1) Stat
      by (auto simp: fs_target_event_init_def stat_call_def fs_target_event_push_def lstat_def get_timestamp_eq Let_def
          bind_res_Inr_iff map_res_Inr_iff split: if_splits)
    then show ?thesis
      using r by auto
  qed (use run in \<open>auto simp: fs_target_event_init_def stat_call_def lstat_def Let_def\<close>)
  then show "perf s' = (perf s)\<lparr>n_stat := n_stat (perf s) + 1,
      n_events := n_events (perf s) + (if r = None then 0 else 1)\<rparr>"
    and "r = Some evs \<Longrightarrow> length (s_items evs) = 1"
    by blast+
qed

lemma spare_all_iff: "spare_all k ps \<longleftrightarrow> (\<forall>p \<in> set ps. spare k p)"
  by (induction ps) auto

lemma handle_children_accounts:
  assumes create: "\<And>path s p s'. create path s = Inr (p, s') \<Longrightarrow> balanced s s' \<and> (p \<noteq> Null \<longrightarrow> spare k p)"
    and opens: "\<And>t. w_readdir w t path \<noteq> None"
    and evs: "(length (s_items evs) + k) * unat sizeof_event < 2 ^ 30"
    and run: "handle_children create w path info evs s = Inr (p, s')"
  shows "balanced s s' \<and> spare k p"
proof -
  obtain kids ok where init: "fs_target_children_init (heap w s) = Inr (kids, ok)"
    using run by (auto simp: handle_children_def bind_res_Inr_iff)
  have none: "kids_all (spare k) kids"
    using init by (auto simp: fs_target_children_init_def map_res_Inr_iff seq_create_def Let_def split: if_splits)
  show ?thesis
  proof (cases ok)
    case False
    then have "p = Ptr (Target info evs kids)" "s' = s"
      using run init by (simp_all add: handle_children_def)
    then show ?thesis
      using none evs by (cases kids) (auto simp: balanced_refl spare_all_iff)
  next
    case True
    obtain dir where dir: "w_readdir w (clock s) path = Some dir"
      using opens by blast
    obtain kids1 s1 where entries: "handle_entries create w path dir kids (count_opendir (tick s)) = Inr (kids1, s1)"
      and res: "p = Ptr (Target info evs kids1)" "s' = count_closedir (tick s1)"
      using run init True dir by (auto simp: handle_children_def directory_open_def map_res_Inr_iff)
    have "balanced (count_opendir (tick s)) s1 \<and> kids_all (spare k) kids1"
      by (rule handle_entries_keeps [where R = balanced and Q = "spare k" and create = create, OF _ _ _ _ entries none])
         (rule balanced_refl, erule (1) balanced_trans, erule next_entry_balanced, erule create)
    then show ?thesis
      using evs res by (cases kids1) (auto simp: balanced_def spare_all_iff algebra_simps)
  qed
qed

lemma create_accounts:
  assumes mem: "\<And>t n. grants (w_alloc w t) n" and opens: "\<And>t q. w_readdir w t (snd (basename q)) \<noteq> None"
    and k: "(1 + k) * unat sizeof_event < 2 ^ 30"
  shows "fs_target_create w n path ref s = Inr (p, s') \<Longrightarrow> balanced s s' \<and> (p \<noteq> Null \<longrightarrow> spare k p)"
proof (induction n arbitrary: path ref s p s')
  case (Suc n)
  obtain b q where bq: "basename path = (b, q)"
    by (cases "basename path")
  let ?create = "\<lambda>path s. fs_target_create w n path (\<lambda>_. Freed_Path) s"
  let ?s = "count_stat (tick s)"
  define st where "st = (case w_lstat w (clock s) path of Stat st \<Rightarrow> st | _ \<Rightarrow> zero_stat)"
  define info where "info = \<lparr>f_uid = fuid_create st, f_type = filetype_of (st_mode st),
    f_name = b, f_ok = True\<rparr>"
  have "bind_res (fs_target_event_init w q (ref q) ?s) (\<lambda>(evs, s). case evs of
      None \<Rightarrow> Inr (Null, s)
    | Some evs \<Rightarrow>
        map_res (\<lambda>(target, s). (target, count_target s))
          (if f_type info = directory then handle_children ?create w q info evs s
           else Inr (Ptr (Target info evs No_Kids), s))) = Inr (p, s')"
    using Suc.prems unfolding info_def st_def by (simp add: create_defs heap_def mem bq)
  then obtain r s1 where init: "fs_target_event_init w q (ref q) ?s = Inr (r, s1)"
    and rest: "(case r of
      None \<Rightarrow> Inr (Null, s1)
    | Some evs \<Rightarrow>
        map_res (\<lambda>(target, s). (target, count_target s))
          (if f_type info = directory then handle_children ?create w q info evs s1
           else Inr (Ptr (Target info evs No_Kids), s1))) = Inr (p, s')"
    by (auto simp: bind_res_Inr_iff)
  note counts = event_init_counts [OF mem init]
  show ?case
  proof (cases r)
    case None
    then show ?thesis
      using rest counts(1) by (auto simp: balanced_def)
  next
    case (Some evs)
    have evs: "(length (s_items evs) + k) * unat sizeof_event < 2 ^ 30"
      using counts(2) [OF Some] k by simp
    obtain t s2 where t: "p = t" "s' = count_target s2"
      and body: "(if f_type info = directory then handle_children ?create w q info evs s1
        else Inr (Ptr (Target info evs No_Kids), s1)) = Inr (t, s2)"
      using rest Some by (auto simp: map_res_Inr_iff)
    have "balanced s1 s2 \<and> spare k t"
    proof (cases "f_type info = directory")
      case True
      have "w_readdir w t q \<noteq> None" for t
        using opens [of t path] bq by simp
      moreover have "handle_children ?create w q info evs s1 = Inr (t, s2)"
        using body True by simp
      ultimately show ?thesis
        by (intro handle_children_accounts [where create = ?create and w = w and path = q, OF _ _ evs]) (erule Suc.IH)
    next
      case False
      then show ?thesis
        using body evs by (auto simp: balanced_refl)
    qed
    then show ?thesis
      using counts(1) Some t by (simp add: balanced_def diff_diff_eq [symmetric])
  qed
qed simp

section \<open>The service\<close>

lemma friendly_opens:
  assumes "friendly w rank"
  shows "grants (w_alloc w t) i" and "w_readdir w t (snd (basename q)) \<noteq> None"
  using assms unfolding friendly_def by (blast, metis option.distinct(1))

lemma service_init_accounts:
  assumes world: "friendly w rank" and k: "(1 + k) * unat sizeof_event < 2 ^ 30"
  shows "service_init w fuel i sv = Inr sv' \<Longrightarrow> service_spare k sv \<Longrightarrow>
    balanced (sv_state sv) (sv_state sv') \<and> same_view (sv_state sv) (sv_state sv') \<and> service_spare k sv'"
proof (induction i arbitrary: sv)
  case (Suc i)
  obtain sv1 go where step: "service_init_step w fuel sv = Inr (sv1, go)"
    and rest: "if go then sv' = sv1 else service_init w fuel i sv1 = Inr sv'"
    using Suc.prems(1) by (auto simp: bind_res_Inr_iff split: if_splits)
  obtain path stack where pop: "filename_stack_pop (sv_stack sv) = Inr (path, stack)"
    using step by (auto simp: service_init_step_def bind_res_Inr_iff)
  have "balanced (sv_state sv) (sv_state sv1) \<and> same_view (sv_state sv) (sv_state sv1) \<and> service_spare k sv1"
  proof (cases path)
    case None
    then have "sv_state sv1 = sv_state sv" "sv_fp sv1 = sv_fp sv" "sv_index sv1 = sv_index sv"
      using step pop by (auto simp: service_init_step_def bind_res_Inr_iff Let_def)
    then show ?thesis
      using Suc.prems(2) by (simp add: balanced_refl same_view_refl service_spare_def)
  next
    case (Some q)
    obtain t s where named: "fs_target_create_named w fuel q (sv_state sv) = Inr (t, s)"
      and at: "sv_index sv < length (sv_fp sv)" and res: "sv_fp sv1 = (sv_fp sv)[sv_index sv := t]" "sv_state sv1 = s"
        "sv_index sv1 = (if t = Null then sv_index sv else sv_index sv + 1)"
      using step pop Some
      by (auto simp: service_init_step_def bind_res_Inr_iff map_res_Inr_iff store_slot_def Let_def split: if_splits)
    note create = create_named_Inr [OF named, THEN conjunct2]
    have acc: "balanced (sv_state sv) s \<and> (t \<noteq> Null \<longrightarrow> spare k t)"
      using create_accounts [OF friendly_opens(1) [OF world] friendly_opens(2) [OF world] k create] .
    have "take (Suc (sv_index sv)) ((sv_fp sv)[sv_index sv := t]) = take (sv_index sv) (sv_fp sv) @ [t]"
      using at by (simp add: take_Suc_conv_app_nth)
    then have "service_spare k sv1"
      using Suc.prems(2) acc res by (auto simp: service_spare_def spare_all_iff)
    then show ?thesis
      using acc create_view [OF create] res by simp
  qed
  then show ?case
    using rest Suc.IH [of sv1] balanced_trans same_view_trans by (auto split: if_splits)
qed simp

text \<open>
  A run of the service is a run of the monitor on what the snapshots recorded, or no run at all:
  when nothing could be recorded, or the signal handler was refused.
\<close>

lemma service_run_monitor:
  assumes world: "friendly w rank" "roomy w room"
    and names: "stack_ok st" "names_ok rank fuel (contents st)" "names_fit room (contents st)"
    and m: "(1 + m) * unat sizeof_event < 2 ^ 30"
    and run: "service w fuel n m st = Inr (status, lines, freed, sv)"
  obtains sv0 where "service_init w fuel (stack_top st + 1) (service_start st) = Inr sv0"
    and "balanced state_init (sv_state sv0)" and "reports (sv_state sv0) = []"
    and "if sv_index sv0 = 0 \<or> \<not> handle_signals w then sv = sv0
      else monitor w n m (monitor_of sv0) = Inr (monitor_of sv)"
proof -
  have start: "service_ok (service_start st)" "service_fits (service_start st)" "sv_stack (service_start st) = st"
    "service_spare m (service_start st)" "sv_state (service_start st) = state_init"
    using service_start_ok [OF names(1)] by (simp_all add: service_start_def service_fits_def service_spare_def)
  obtain sv0 where init: "service_init w fuel (stack_top st + 1) (service_start st) = Inr sv0"
    and sv0: "service_ok sv0" "service_fits sv0"
    using service_init_ok [OF world(1) start(1), of fuel "stack_top st + 1" room] world(2) names(2,3) start by auto
  have acc: "balanced state_init (sv_state sv0)" "same_view state_init (sv_state sv0)" "service_spare m sv0"
    using service_init_accounts [OF world(1) m init start(4)] start(5) by simp_all
  have "if sv_index sv0 = 0 \<or> \<not> handle_signals w then sv = sv0 else service_rounds w n m sv0 = Inr sv"
    using run init
    by (auto simp: service_def Let_def bind_res_Inr_iff map_res_Inr_iff split: if_splits simp del: service_init.simps service_deinit.simps service_rounds.simps)
  then have "if sv_index sv0 = 0 \<or> \<not> handle_signals w then sv = sv0
      else monitor w n m (monitor_of sv0) = Inr (monitor_of sv)"
    using service_rounds_monitor [OF friendly_opens(1) [OF world(1)] sv0 acc(3), of n] by (auto split: if_splits)
  moreover have "reports (sv_state sv0) = []"
    using acc(2) by (simp add: same_view_def state_init_def)
  ultimately show thesis
    using that init acc(1) by blast
qed

lemma monitor_of_simps [simp]:
  "fst (monitor_of sv) = watches_of (take (sv_index sv) (sv_fp sv))" "snd (monitor_of sv) = journal_of (sv_state sv)"
  by (simp_all add: monitor_of_def)

lemma service_books:
  assumes "friendly w rank" and "roomy w room"
    and "stack_ok st" and "names_ok rank fuel (contents st)" and "names_fit room (contents st)"
    and "(1 + m) * unat sizeof_event < 2 ^ 30"
    and "service w fuel n m st = Inr (status, lines, freed, sv)"
  shows "n_events (perf (sv_state sv)) = n_target (perf (sv_state sv)) + of_nat (length (reports (sv_state sv)))"
    and "n_opendir (perf (sv_state sv)) = n_closedir (perf (sv_state sv))"
proof -
  obtain sv0 where bal: "balanced state_init (sv_state sv0)" and none: "reports (sv_state sv0) = []"
    and run: "if sv_index sv0 = 0 \<or> \<not> handle_signals w then sv = sv0
      else monitor w n m (monitor_of sv0) = Inr (monitor_of sv)"
    by (rule service_run_monitor [OF assms])
  have zero: "n_events (perf (sv_state sv0)) = n_target (perf (sv_state sv0))"
    "n_opendir (perf (sv_state sv0)) = n_closedir (perf (sv_state sv0))"
    using bal by (simp_all add: balanced_def state_init_def perf_init_def)
  have "n_events (perf (sv_state sv)) = n_target (perf (sv_state sv)) + of_nat (length (reports (sv_state sv))) \<and>
    n_opendir (perf (sv_state sv)) = n_closedir (perf (sv_state sv))"
  proof (cases "sv = sv0")
    case False
    then have "monitor w n m (watches_of (take (sv_index sv0) (sv_fp sv0)), journal_of (sv_state sv0)) =
        Inr (watches_of (take (sv_index sv) (sv_fp sv)), journal_of (sv_state sv))"
      using run by (simp add: monitor_of_def split: if_splits)
    from monitor_counts [OF this] show ?thesis
      using zero none by auto
  qed (use zero none in simp)
  then show "n_events (perf (sv_state sv)) = n_target (perf (sv_state sv)) + of_nat (length (reports (sv_state sv)))"
    and "n_opendir (perf (sv_state sv)) = n_closedir (perf (sv_state sv))"
    by blast+
qed

end
