(* ===== verification/Frozen.thy ===== *)
theory Frozen
  imports Mirror Service
begin

text \<open>
  A snapshot sees the file system up to the moment it is finished and no further: taking it is the
  same on any two systems that agree up to then. This carries what is known of a file system at
  rest over to one that changes later.
\<close>

section \<open>The clock of a snapshot\<close>

definition onwards :: "state \<Rightarrow> state \<Rightarrow> bool" where
  "onwards s s' \<longleftrightarrow> clock s \<le> clock s'"

lemma onwards_refl: "onwards s s"
  by (simp add: onwards_def)

lemma onwards_trans: "onwards s t \<Longrightarrow> onwards t u \<Longrightarrow> onwards s u"
  by (simp add: onwards_def)

lemma clock_steps [simp]:
  "clock (tick s) = Suc (clock s)" "clock (count_stat s) = clock s" "clock (count_opendir s) = clock s"
  "clock (count_closedir s) = clock s" "clock (count_readdir s) = clock s" "clock (count_event s) = clock s"
  "clock (count_target s) = clock s"
  by (simp_all add: tick_def count_stat_def count_opendir_def count_closedir_def count_readdir_def
      count_event_def count_target_def)

lemma next_entry_onwards: "directory_next_entry dir s = (e, dir', s') \<Longrightarrow> onwards s s'"
  by (induction dir s rule: directory_next_entry.induct) (auto simp: Let_def onwards_def split: if_splits)

lemma event_init_onwards:
  "fs_target_event_init w path ref s = Inr (r, s') \<Longrightarrow> clock s < clock s'"
  by (auto simp: fs_target_event_init_def stat_call_def fs_target_event_push_def lstat_def get_timestamp_eq Let_def
      bind_res_Inr_iff map_res_Inr_iff split: lstat_result.splits if_splits)

lemma handle_entries_onwards:
  assumes create: "\<And>path s p s'. create path s = Inr (p, s') \<Longrightarrow> onwards s s'"
    and "handle_entries create w path dir kids s = Inr (kids', s')"
  shows "onwards s s'"
  using handle_entries_keeps [of onwards create "\<lambda>_. True" w path dir kids s kids' s'] assms
    onwards_refl onwards_trans next_entry_onwards by (auto simp: kids_all_def split: kids.splits)

lemma handle_children_onwards:
  assumes create: "\<And>path s p s'. create path s = Inr (p, s') \<Longrightarrow> onwards s s'"
    and run: "handle_children create w path info evs s = Inr (p, s')"
  shows "onwards s s'"
proof -
  have "onwards t t'" if "handle_entries create w q dir kids t = Inr (kids', t')" for q dir kids t kids' t'
    using handle_entries_onwards [of create] create that by blast
  then show ?thesis
    using run
    by (fastforce simp: handle_children_def directory_open_def bind_res_Inr_iff map_res_Inr_iff onwards_def
        split: if_splits option.splits prod.splits)
qed

text \<open>One call of \<open>fs_target_create\<close> on a system that grants memory.\<close>

lemma create_unfold:
  assumes mem: "\<And>t n. grants (w_alloc w t) n"
  shows "fs_target_create w (Suc n) path ref s =
    (let q = snd (basename path);
         st = (case w_lstat w (clock s) path of Stat st \<Rightarrow> st | _ \<Rightarrow> zero_stat);
         info = info_of (fst (basename path)) st in
     bind_res (fs_target_event_init w q (ref q) (count_stat (tick s))) (\<lambda>(evs, s). case evs of
        None \<Rightarrow> Inr (Null, s)
      | Some evs \<Rightarrow>
          map_res (\<lambda>(target, s). (target, count_target s))
            (if f_type info = directory
             then handle_children (\<lambda>path s. fs_target_create w n path (\<lambda>_. Freed_Path) s) w q info evs s
             else Inr (Ptr (Target info evs No_Kids), s))))"
  by (cases "basename path") (simp add: create_defs heap_def mem info_of_def)

lemma create_onwards:
  assumes mem: "\<And>t n. grants (w_alloc w t) n"
  shows "fs_target_create w n path ref s = Inr (p, s') \<Longrightarrow> onwards s s'"
proof (induction n arbitrary: path ref s p s')
  case (Suc n)
  let ?create = "\<lambda>path s. fs_target_create w n path (\<lambda>_. Freed_Path) s"
  obtain r s1 where init: "fs_target_event_init w (snd (basename path)) (ref (snd (basename path))) (count_stat (tick s)) = Inr (r, s1)"
    using Suc.prems unfolding create_unfold [OF mem] by (auto simp: Let_def bind_res_Inr_iff)
  have first: "onwards s s1"
    using event_init_onwards [OF init] by (simp add: onwards_def)
  have step: "onwards t t'" if "handle_children ?create w q info evs t = Inr (u, t')" for q info evs t u t'
    using handle_children_onwards [of ?create] Suc.IH that by blast
  have "onwards s1 s'"
    using Suc.prems init unfolding create_unfold [OF mem]
    by (auto simp: Let_def map_res_Inr_iff onwards_def split: option.splits if_splits dest!: step)
  then show ?case
    using first onwards_trans by blast
qed simp

section \<open>Systems that agree up to a moment\<close>

definition agree :: "nat \<Rightarrow> world \<Rightarrow> world \<Rightarrow> bool" where
  "agree T w v \<longleftrightarrow> (\<forall>t < T. w_lstat v t = w_lstat w t \<and> w_readdir v t = w_readdir w t) \<and>
     w_time v = w_time w \<and> w_alloc v = w_alloc w"

lemma agree_heap: "agree T w v \<Longrightarrow> heap v s = heap w s"
  by (simp add: agree_def heap_def)

lemma event_init_agree:
  assumes "agree T w v" and "clock s < T"
  shows "fs_target_event_init v path ref s = fs_target_event_init w path ref s"
proof -
  have same: "heap v = heap w" "get_timestamp v = get_timestamp w" "stat_call v path s = stat_call w path s"
    using assms by (simp_all add: fun_eq_iff agree_def heap_def get_timestamp_def stat_call_def lstat_def)
  show ?thesis
    unfolding fs_target_event_init_def same by (rule refl)
qed

lemma handle_entries_agree:
  assumes agree: "agree T w v"
    and onw: "\<And>path s p s'. create path s = Inr (p, s') \<Longrightarrow> onwards s s'"
    and same: "\<And>path s p s'. create path s = Inr (p, s') \<Longrightarrow> clock s' \<le> T \<Longrightarrow> create' path s = Inr (p, s')"
  shows "handle_entries create w path dir kids s = Inr (kids', s') \<Longrightarrow> clock s' \<le> T \<Longrightarrow>
    handle_entries create' v path dir kids s = Inr (kids', s')"
proof (induction dir arbitrary: kids s rule: measure_induct_rule [of length])
  case (less dir)
  obtain e dir' s1 where read: "directory_next_entry dir s = (e, dir', s1)"
    by (cases "directory_next_entry dir s") auto
  show ?case
  proof (cases e)
    case None
    then show ?thesis
      using less.prems read by (simp add: handle_entries.simps [of _ _ _ dir])
  next
    case (Some d)
    obtain child_path child s2 kids2 ok where path: "attach (heap w s1) path d = Inr child_path"
      and child: "(if child_path = Null then Inr (Null, s1)
               else bind_res (deref child_path) (\<lambda>buf. create (cstr buf) s1)) = Inr (child, s2)"
      and push: "fs_target_children_push (heap w s2) kids child = Inr (kids2, ok)"
      and rest: "handle_entries create w path dir' kids2 s2 = Inr (kids', s')"
      using less.prems(1) read Some by (auto simp: handle_entries.simps [of _ _ _ dir] bind_res_Inr_iff)
    have "onwards s2 s'"
      using handle_entries_onwards [of create] onw rest by blast
    then have "clock s2 \<le> T"
      using less.prems(2) by (simp add: onwards_def)
    then have "(if child_path = Null then Inr (Null, s1)
               else bind_res (deref child_path) (\<lambda>buf. create' (cstr buf) s1)) = Inr (child, s2)"
      using child same by (auto simp: bind_res_Inr_iff split: if_splits)
    moreover have "handle_entries create' v path dir' kids2 s2 = Inr (kids', s')"
      using less.IH [OF directory_next_entry_shorter [OF read [unfolded Some]] rest less.prems(2)] .
    ultimately show ?thesis
      using read Some path push by (simp add: handle_entries.simps [of _ _ _ dir] agree_heap [OF agree])
  qed
qed

lemma handle_children_agree:
  assumes agree: "agree T w v"
    and onw: "\<And>path s p s'. create path s = Inr (p, s') \<Longrightarrow> onwards s s'"
    and same: "\<And>path s p s'. create path s = Inr (p, s') \<Longrightarrow> clock s' \<le> T \<Longrightarrow> create' path s = Inr (p, s')"
    and run: "handle_children create w path info evs s = Inr (p, s')" and T: "clock s' \<le> T"
  shows "handle_children create' v path info evs s = Inr (p, s')"
proof -
  obtain kids ok where init: "fs_target_children_init (heap w s) = Inr (kids, ok)"
    using run by (auto simp: handle_children_def bind_res_Inr_iff)
  show ?thesis
  proof (cases ok)
    case False
    then show ?thesis
      using run init by (simp add: handle_children_def agree_heap [OF agree])
  next
    case True
    let ?s = "count_opendir (tick s)"
    have dir: "directory_open v path s = directory_open w path s" if "clock s < T"
      using agree that by (simp add: directory_open_def agree_def)
    show ?thesis
    proof (cases "w_readdir w (clock s) path")
      case None
      then have "s' = ?s"
        using run init True by (auto simp: handle_children_def directory_open_def map_res_Inr_iff)
      then show ?thesis
        using run init True dir T None by (simp add: handle_children_def agree_heap [OF agree] directory_open_def)
    next
      case (Some ds)
      obtain kids1 s1 where entries: "handle_entries create w path ds kids ?s = Inr (kids1, s1)"
        and res: "p = Ptr (Target info evs kids1)" "s' = count_closedir (tick s1)"
        using run init True Some by (auto simp: handle_children_def directory_open_def map_res_Inr_iff)
      have "onwards ?s s1"
        using handle_entries_onwards [of create] onw entries by blast
      then have le: "clock ?s \<le> clock s1"
        by (simp add: onwards_def)
      have "handle_entries create' v path ds kids ?s = Inr (kids1, s1)"
        by (rule handle_entries_agree [OF agree onw same entries]) (use T res in simp_all)
      then show ?thesis
        using run init True Some res dir T le
        by (simp add: handle_children_def agree_heap [OF agree] directory_open_def)
    qed
  qed
qed

lemma create_agree:
  assumes agree: "agree T w v" and mem: "\<And>t n. grants (w_alloc w t) n"
  shows "fs_target_create w n path ref s = Inr (p, s') \<Longrightarrow> clock s' \<le> T \<Longrightarrow>
    fs_target_create v n path ref s = Inr (p, s')"
proof (induction n arbitrary: path ref s p s')
  case (Suc n)
  have mem': "\<And>t n. grants (w_alloc v t) n"
    using agree mem by (simp add: agree_def)
  let ?create = "\<lambda>w path s. fs_target_create w n path (\<lambda>_. Freed_Path) s"
  let ?s = "count_stat (tick s)" and ?q = "snd (basename path)"
  obtain r s1 where init: "fs_target_event_init w ?q (ref ?q) ?s = Inr (r, s1)"
    using Suc.prems(1) unfolding create_unfold [OF mem] by (auto simp: Let_def bind_res_Inr_iff)
  have step: "onwards t t'" if "handle_children (?create w) w q info evs t = Inr (u, t')" for q info evs t u t'
    using handle_children_onwards [of "?create w"] create_onwards [OF mem] that by blast
  have "onwards s1 s'"
    using Suc.prems(1) init unfolding create_unfold [OF mem]
    by (auto simp: Let_def map_res_Inr_iff onwards_def split: option.splits if_splits dest!: step)
  then have early: "clock ?s < T"
    using event_init_onwards [OF init] Suc.prems(2) by (simp add: onwards_def)
  have same: "handle_children (?create v) v q info evs t = Inr (u, t')"
    if "handle_children (?create w) w q info evs t = Inr (u, t')" and "clock t' \<le> T" for q info evs t u t'
    by (rule handle_children_agree [OF agree _ _ that]) (erule create_onwards [OF mem], erule (1) Suc.IH)
  have "w_lstat v (clock s) = w_lstat w (clock s)"
    using agree early by (simp add: agree_def)
  then show ?case
    using Suc.prems init event_init_agree [OF agree early, of ?q "ref ?q"]
    unfolding create_unfold [OF mem] create_unfold [OF mem']
    by (auto simp: Let_def map_res_Inr_iff split: option.splits if_splits intro!: same)
qed simp

section \<open>The snapshots of the service\<close>

text \<open>One turn of the loop of \<open>service_init\<close>, taken apart.\<close>

lemma service_init_stepE:
  assumes "service_init_step w fuel sv = Inr (sv', finished)"
  obtains stack where "filename_stack_pop (sv_stack sv) = Inr (None, stack)" and "finished"
      and "sv_state sv' = sv_state sv" and "sv_fp sv' = sv_fp sv" and "sv_index sv' = sv_index sv"
      and "sv_stack sv' = stack"
  | q stack t s where "filename_stack_pop (sv_stack sv) = Inr (Some q, stack)" and "\<not> finished"
      and "fs_target_create_named w fuel q (sv_state sv) = Inr (t, s)" and "sv_index sv < length (sv_fp sv)"
      and "sv_fp sv' = (sv_fp sv)[sv_index sv := t]" and "sv_state sv' = s" and "sv_stack sv' = stack"
      and "sv_index sv' = (if t = Null then sv_index sv else sv_index sv + 1)"
proof -
  obtain path stack where pop: "filename_stack_pop (sv_stack sv) = Inr (path, stack)"
    using assms by (auto simp: service_init_step_def bind_res_Inr_iff)
  show thesis
  proof (cases path)
    case None
    then show thesis
      using assms pop that(1) by (auto simp: service_init_step_def bind_res_Inr_iff Let_def)
  next
    case (Some q)
    obtain t s where create: "fs_target_create_named w fuel q (sv_state sv) = Inr (t, s)"
      using assms pop Some by (auto simp: service_init_step_def bind_res_Inr_iff Let_def)
    have "sv_index sv < length (sv_fp sv)"
      using assms pop Some create
      by (auto simp: service_init_step_def bind_res_Inr_iff map_res_Inr_iff store_slot_def Let_def split: if_splits)
    then show thesis
      using assms pop Some create
      by (intro that(2) [of q stack t s])
         (auto simp: service_init_step_def bind_res_Inr_iff store_slot_def Let_def split: if_splits)
  qed
qed

lemma service_init_SucE:
  assumes "service_init w fuel (Suc k) sv = Inr sv'"
  obtains sv1 finished where "service_init_step w fuel sv = Inr (sv1, finished)"
    and "if finished then sv' = sv1 else service_init w fuel k sv1 = Inr sv'"
  using assms by (auto simp: bind_res_Inr_iff split: if_splits)

lemma service_init_step_agree:
  assumes "agree T w v" and "\<And>t n. grants (w_alloc w t) n"
    and run: "service_init_step w fuel sv = Inr (sv', finished)" and "clock (sv_state sv') \<le> T"
  shows "service_init_step v fuel sv = Inr (sv', finished)"
  using run
proof (rule service_init_stepE)
  fix stack
  assume "filename_stack_pop (sv_stack sv) = Inr (None, stack)"
  then show ?thesis
    using run by (simp add: service_init_step_def)
next
  fix q stack t s
  assume pop: "filename_stack_pop (sv_stack sv) = Inr (Some q, stack)"
    and create: "fs_target_create_named w fuel q (sv_state sv) = Inr (t, s)" and "sv_state sv' = s"
  then have "fs_target_create_named v fuel q (sv_state sv) = Inr (t, s)"
    using create_agree [OF assms(1,2)] create_named_Inr [OF create] create_named_kept [of q v] assms(4) by auto
  then show ?thesis
    using run pop create by (simp add: service_init_step_def)
qed

lemma service_init_onwards:
  assumes mem: "\<And>t n. grants (w_alloc w t) n"
  shows "service_init w fuel k sv = Inr sv' \<Longrightarrow> onwards (sv_state sv) (sv_state sv')"
proof (induction k arbitrary: sv)
  case (Suc k)
  obtain sv1 finished where step: "service_init_step w fuel sv = Inr (sv1, finished)"
    and rest: "if finished then sv' = sv1 else service_init w fuel k sv1 = Inr sv'"
    using Suc.prems by (rule service_init_SucE)
  have "onwards (sv_state sv) (sv_state sv1)"
    using step by (rule service_init_stepE) (use create_onwards [OF mem] create_named_Inr onwards_refl in fastforce)+
  then show ?case
    using rest Suc.IH [of sv1] onwards_trans by (auto split: if_splits)
qed simp

lemma service_init_agree:
  assumes "agree T w v" and mem: "\<And>t n. grants (w_alloc w t) n"
  shows "service_init w fuel k sv = Inr sv' \<Longrightarrow> clock (sv_state sv') \<le> T \<Longrightarrow> service_init v fuel k sv = Inr sv'"
proof (induction k arbitrary: sv)
  case (Suc k)
  obtain sv1 finished where step: "service_init_step w fuel sv = Inr (sv1, finished)"
    and rest: "if finished then sv' = sv1 else service_init w fuel k sv1 = Inr sv'"
    using Suc.prems(1) by (rule service_init_SucE)
  have "clock (sv_state sv1) \<le> T"
    using rest service_init_onwards [OF mem, of fuel k sv1 sv'] Suc.prems(2)
    by (auto simp: onwards_def split: if_splits)
  then have "service_init_step v fuel sv = Inr (sv1, finished)"
    by (rule service_init_step_agree [OF assms(1) mem step])
  then show ?case
    using rest Suc.IH [of sv1] Suc.prems(2) by (auto split: if_splits)
qed simp

text \<open>Every name of the stack that holds an entry becomes the root of its mirror, in order.\<close>

lemma service_init_mirrors:
  assumes mem: "\<And>t n. grants (w_alloc w t) n"
  shows "service_init w fuel k sv = Inr sv' \<Longrightarrow> stack_ok (sv_stack sv) \<Longrightarrow>
    contents (sv_stack sv) = map (\<lambda>(q, e). Some (Argv q)) (rev es) \<Longrightarrow>
    \<forall>(q, e) \<in> set es. proper_name q \<and> present w q e \<and> height e < fuel \<Longrightarrow>
    \<exists>ps. take (sv_index sv') (sv_fp sv') = take (sv_index sv) (sv_fp sv) @ ps \<and>
      list_all2 (\<lambda>(q, e) p. mirrors (Argument q) q e p) es ps"
proof (induction k arbitrary: sv es)
  case (Suc k)
  obtain sv1 finished where step: "service_init_step w fuel sv = Inr (sv1, finished)"
    and rest: "if finished then sv' = sv1 else service_init w fuel k sv1 = Inr sv'"
    using Suc.prems(1) by (rule service_init_SucE)
  show ?case
  proof (cases es)
    case Nil
    then have "contents (sv_stack sv) = []"
      using Suc.prems(3) by simp
    then have "stack_top (sv_stack sv) = 0"
      using contents_length [OF Suc.prems(2)] by simp
    then have "filename_stack_pop (sv_stack sv) = Inr (None, sv_stack sv)"
      by (simp add: filename_stack_pop_def)
    then have "finished" "sv_fp sv1 = sv_fp sv" "sv_index sv1 = sv_index sv"
      using step by (auto elim: service_init_stepE)
    then show ?thesis
      using Nil rest by simp
  next
    case (Cons qe es')
    obtain q e where qe: "qe = (q, e)"
      by (cases qe)
    have front: "contents (sv_stack sv) = map (\<lambda>(q, e). Some (Argv q)) (rev es') @ [Some (Argv q)]"
      using Suc.prems(3) Cons qe by simp
    then have "0 < stack_top (sv_stack sv)"
      using contents_length [OF Suc.prems(2)] by (cases "stack_top (sv_stack sv)") auto
    then obtain st' where pop: "filename_stack_pop (sv_stack sv) = Inr (Some (Argv q), st')" "stack_ok st'"
      "contents st' = map (\<lambda>(q, e). Some (Argv q)) (rev es')"
      using pop_contents [OF Suc.prems(2)] front by auto
    obtain t s where more: "\<not> finished" and create: "fs_target_create w fuel q Argument (sv_state sv) = Inr (t, s)"
      and at: "sv_index sv < length (sv_fp sv)"
      and sv1: "sv_fp sv1 = (sv_fp sv)[sv_index sv := t]" "sv_stack sv1 = st'"
        "sv_index sv1 = (if t = Null then sv_index sv else sv_index sv + 1)"
      using step pop(1) by (auto elim!: service_init_stepE simp: fs_target_create_named_def)
    have q: "proper_name q" "present w q e" "height e < fuel"
      using Suc.prems(4) Cons qe by simp_all
    then have "basename q = (q, q)" "is_cstr q"
      using basename_after [of q "[]"] by (simp_all add: proper_name_def)
    then have mir: "mirrors (Argument q) q e t"
      using create_mirror [OF mem q(2) _ _ q(3), of q Argument "sv_state sv"] create by auto
    have run: "service_init w fuel k sv1 = Inr sv'"
      using rest more by simp
    have "\<exists>ps. take (sv_index sv') (sv_fp sv') = take (sv_index sv1) (sv_fp sv1) @ ps \<and>
        list_all2 (\<lambda>(q, e) p. mirrors (Argument q) q e p) es' ps"
      by (rule Suc.IH [OF run]) (use pop Suc.prems(4) sv1 Cons in simp_all)
    moreover have "take (sv_index sv1) (sv_fp sv1) = take (sv_index sv) (sv_fp sv) @ [t]"
      using sv1 at mirrors_not_Null [OF mir] by (simp add: take_Suc_conv_app_nth)
    ultimately obtain ps where "take (sv_index sv') (sv_fp sv') = take (sv_index sv) (sv_fp sv) @ t # ps"
      "list_all2 (\<lambda>(q, e) p. mirrors (Argument q) q e p) es' ps"
      by auto
    then show ?thesis
      using mir Cons qe by (intro exI [of _ "t # ps"]) simp
  qed
qed simp

section \<open>A file system that stands still until it changes\<close>

definition still :: "nat \<Rightarrow> world \<Rightarrow> bool" where
  "still T w \<longleftrightarrow> (\<forall>t < T. w_lstat w t = w_lstat w 0 \<and> w_readdir w t = w_readdir w 0)"

text \<open>The same system if nothing ever changed.\<close>

definition frozen :: "world \<Rightarrow> world" where
  "frozen w = w\<lparr>w_lstat := (\<lambda>t. w_lstat w 0), w_readdir := (\<lambda>t. w_readdir w 0)\<rparr>"

lemma still_agree: "still T w \<Longrightarrow> agree T w (frozen w)"
proof -
  assume "still T w"
  then have "w_lstat w 0 = w_lstat w t" "w_readdir w 0 = w_readdir w t" if "t < T" for t
    using that unfolding still_def by metis+
  then show ?thesis
    unfolding agree_def frozen_def by simp
qed

lemma frozen_simps [simp]:
  "w_lstat (frozen w) t = w_lstat w 0" "w_readdir (frozen w) t = w_readdir w 0" "w_alloc (frozen w) = w_alloc w"
  by (simp_all add: frozen_def)

end
