(* ===== verification/Changes.thy ===== *)
theory Changes
  imports Accounts Frozen
begin

text \<open>
  From the command line to the printed lines: the snapshots of a file system that stands still
  until \<open>T\<close> record its entries, and the rounds after \<open>T\<close> print how the entries differ from what
  they have become.
\<close>

section \<open>What the snapshots recorded\<close>

text \<open>The path of the entry and of everything below it.\<close>

fun entry_paths :: "bytes \<Rightarrow> entry \<Rightarrow> bytes list" and entries_paths :: "bytes \<Rightarrow> (bytes \<times> entry) list \<Rightarrow> bytes list" where
  "entry_paths path (Leaf st) = [path]"
| "entry_paths path (Folder st es) = path # entries_paths path es"
| "entries_paths path [] = []"
| "entries_paths path ((n, e) # es) = entry_paths (enter path n) e @ entries_paths path es"

text \<open>From \<open>T\<close> on the path has the status \<open>new\<close>.\<close>

definition becomes :: "nat \<Rightarrow> world \<Rightarrow> (bytes \<Rightarrow> stat) \<Rightarrow> bytes \<Rightarrow> bool" where
  "becomes T w new path \<longleftrightarrow> (\<forall>t \<ge> T. w_lstat w t path = Stat (new path))"

definition first_stat :: "world \<Rightarrow> bytes \<Rightarrow> stat" where
  "first_stat w path = change_stat (w_lstat w 0 path)"

lemma stands_then_becomes:
  assumes "still T w" and "becomes T w new path" and "w_lstat w 0 path = Stat st"
  shows "w_lstat w t path = Stat (if t < T then first_stat w path else new path)"
proof (cases "t < T")
  case True
  then have "w_lstat w t = w_lstat w 0"
    using assms(1) unfolding still_def by blast
  then show ?thesis
    using True assms(3) by (simp add: first_stat_def change_stat_def)
next
  case False
  then show ?thesis
    using assms(2) by (simp add: becomes_def)
qed

lemma mirrors_recorded:
  assumes quiet: "still T w" and rest: "\<And>path. path \<in> P \<Longrightarrow> becomes T w new path"
  shows "mirrors ref b e p \<Longrightarrow> present (frozen w) (enter path b) e \<Longrightarrow> set (entry_paths (enter path b) e) \<subseteq> P \<Longrightarrow>
      enter path b \<noteq> [] \<Longrightarrow> last (enter path b) \<noteq> SLASH \<Longrightarrow> enter path b \<noteq> [46] \<Longrightarrow>
      recorded w (first_stat w) new T early path (watch_of p)"
    and "mirrors_all es ps \<Longrightarrow> present_all (frozen w) path es \<Longrightarrow> set (entries_paths path es) \<subseteq> P \<Longrightarrow>
      path \<noteq> [] \<Longrightarrow> last path \<noteq> SLASH \<Longrightarrow> path \<noteq> [46] \<Longrightarrow>
      recorded_all w (first_stat w) new T early path (watches_of ps)"
proof (induction b e and es arbitrary: ref p path and ps path rule: span_spans.induct)
  case (1 b st)
  from "1.prems"(1) obtain evs where p: "p = Ptr (Target (info_of b st) evs No_Kids)"
    and ack: "acknowledged ref st evs"
    by (rule mirrors_Leaf)
  have at: "w_lstat w 0 (enter path b) = Stat st" "becomes T w new (enter path b)"
    using "1.prems"(2,3) rest by simp_all
  have "\<forall>t. w_lstat w t (enter path b) = Stat (if t < T then first_stat w (enter path b) else new (enter path b))"
    using stands_then_becomes [OF quiet at(2,1)] by blast
  moreover have "first_stat w (enter path b) = st"
    using at(1) by (simp add: first_stat_def change_stat_def)
  ultimately show ?case
    using p by (simp add: acknowledged_last [OF ack])
next
  case (2 b st es)
  from "2.prems"(1) obtain evs ps cap where p: "p = Ptr (Target (info_of b st) evs (Kids ps cap))"
    and ack: "acknowledged ref st evs" and ps: "mirrors_all es ps"
    by (rule mirrors_Folder)
  have at: "w_lstat w 0 (enter path b) = Stat st" "becomes T w new (enter path b)"
    using "2.prems"(2,3) rest by simp_all
  have "recorded_all w (first_stat w) new T early (enter path b) (watches_of ps)"
    using "2.IH" [OF ps] "2.prems" by simp
  moreover have "\<forall>t. w_lstat w t (enter path b) = Stat (if t < T then first_stat w (enter path b) else new (enter path b))"
    using stands_then_becomes [OF quiet at(2,1)] by blast
  moreover have "first_stat w (enter path b) = st"
    using at(1) by (simp add: first_stat_def change_stat_def)
  ultimately show ?case
    using p by (simp add: acknowledged_last [OF ack])
next
  case (4 n e es)
  from "4.prems"(1) obtain p ps' where ps: "ps = p # ps'" "mirrors Freed_Path n e p" "mirrors_all es ps'"
    by (rule mirrors_all_Cons)
  have n: "proper_name n" "present (frozen w) (enter path n) e"
    using "4.prems" join_enter by auto
  then show ?case
    using "4.IH"(1) [OF ps(2)] "4.IH"(2) [OF ps(3)] ps(1) "4.prems" enter_plain [OF "4.prems"(4) n(1)] by simp
qed simp

lemma pending_changes:
  "pending new path (watch_of p) = changes (\<lambda>p. Stat (new p)) path p"
  "pending_all new path (watches_of ps) = changes_all (\<lambda>p. Stat (new p)) path ps"
proof (induction "\<lambda>p. Stat (new p)" path p and "\<lambda>p. Stat (new p)" path ps rule: changes_changes_all.induct)
  case (1 path info evs kids)
  then show ?case
    by (cases kids) simp_all
qed (simp_all add: change_at_def)

lemma mirrors_tracked:
  "mirrors ref b e p \<Longrightarrow> tracked_count (watch_of p) \<le> length (entry_paths path e)"
  "mirrors_all es ps \<Longrightarrow> tracked_counts (watches_of ps) \<le> length (entries_paths path es)"
proof (induction b e and es arbitrary: ref p path and ps path rule: span_spans.induct)
  case (1 b st)
  from "1.prems" show ?case
    by (rule mirrors_Leaf) simp
next
  case (2 b st es)
  from "2.prems" obtain evs ps cap where p: "p = Ptr (Target (info_of b st) evs (Kids ps cap))"
    and ps: "mirrors_all es ps"
    by (rule mirrors_Folder)
  have "tracked_counts (watches_of ps) \<le> length (entries_paths path es)"
    by (rule "2.IH" [OF ps])
  then show ?case
    using p by auto
next
  case (4 n e es)
  from "4.prems" obtain p ps' where ps: "ps = p # ps'" "mirrors Freed_Path n e p" "mirrors_all es ps'"
    by (rule mirrors_all_Cons)
  then show ?case
    using "4.IH"(1) [OF ps(2), of "enter path n"] "4.IH"(2) [OF ps(3), of path] by simp
qed simp

section \<open>All entries\<close>

text \<open>What is said of one root, said of all of them; a plain name is observed under itself.\<close>

definition root_paths :: "(bytes \<times> entry) list \<Rightarrow> bytes list" where
  "root_paths es = concat (map (\<lambda>(q, e). entry_paths q e) es)"

definition root_diffs :: "(bytes \<Rightarrow> stat) \<Rightarrow> (bytes \<times> entry) list \<Rightarrow> (bytes \<times> string) list" where
  "root_diffs new es = concat (map (\<lambda>(q, e). diffs (\<lambda>p. Stat (new p)) q e) es)"

definition plain_root :: "world \<Rightarrow> nat \<Rightarrow> bytes \<times> entry \<Rightarrow> bool" where
  "plain_root w fuel = (\<lambda>(q, e). proper_name q \<and> q \<noteq> [46] \<and> present (frozen w) q e \<and> height e < fuel)"

lemma enter_root: "enter [] q = q"
  by (simp add: enter_def)

lemma roots_recorded:
  assumes "still T w" and "list_all2 (\<lambda>(q, e) p. mirrors (Argument q) q e p) es ps"
    and "list_all (plain_root w fuel) es" and "list_all (becomes T w new) (root_paths es)"
  shows "recorded_all w (first_stat w) new T early [] (watches_of ps) \<and>
    pending_all new [] (watches_of ps) = root_diffs new es \<and>
    tracked_counts (watches_of ps) \<le> length (root_paths es)"
  using assms(2-4)
proof (induction es ps rule: list_all2_induct)
  case Nil
  then show ?case
    by (simp add: root_diffs_def root_paths_def)
next
  case (Cons qe es p ps)
  obtain q e where qe: "qe = (q, e)"
    by (cases qe)
  have mir: "mirrors (Argument q) q e p"
    using Cons.hyps(1) qe by simp
  have q: "proper_name q" "q \<noteq> [46]" "present (frozen w) q e"
    using Cons.prems(1) qe by (simp_all add: plain_root_def)
  then have plain: "q \<noteq> []" "last q \<noteq> SLASH"
    using last_in_set [of q] unfolding proper_name_def by metis+
  have below: "list_all (becomes T w new) (root_paths es)" "set (entry_paths q e) \<subseteq> {path. becomes T w new path}"
    using Cons.prems(2) qe by (auto simp: root_paths_def list_all_iff)
  have "recorded w (first_stat w) new T early [] (watch_of p)"
    by (rule mirrors_recorded(1) [OF assms(1) _ mir, where P = "{path. becomes T w new path}"])
       (use q plain below(2) enter_root in simp_all)
  moreover have "pending new [] (watch_of p) = diffs (\<lambda>p. Stat (new p)) q e"
    using mirrors_changes(1) [OF mir, of "\<lambda>p. Stat (new p)" "[]"] enter_root by (simp add: pending_changes)
  ultimately show ?case
    using Cons.IH Cons.prems(1) below(1) mirrors_tracked(1) [OF mir, of q] qe
    by (simp add: root_diffs_def root_paths_def)
qed

section \<open>The whole run\<close>

lemma contents_nth_ok:
  assumes "contents st = map (\<lambda>(q, e). Some (Argv q)) (rev es)" and "list_all (plain_root w fuel) es"
    and "\<forall>(q, e) \<in> set es. rank q < fuel \<and> room q < MAX_PATH_SIZE"
  shows "names_ok rank fuel (contents st)" and "names_fit room (contents st)"
  using assms by (auto simp: names_ok_def names_fit_def list_all_iff plain_root_def proper_name_def)

lemma service_prints_differences:
  assumes world: "friendly w rank" "roomy w room" "handle_signals w"
    and names: "stack_ok st" "contents st = map (\<lambda>(q, e). Some (Argv q)) (rev es)"
      "\<forall>(q, e) \<in> set es. rank q < fuel \<and> room q < MAX_PATH_SIZE" "list_all (plain_root w fuel) es"
    and init: "service_init w fuel (stack_top st + 1) (service_start st) = Inr sv0" "clock (sv_state sv0) \<le> T"
    and change: "still T w" "list_all (becomes T w new) (root_paths es)"
    and late: "\<forall>t. w_terminate w t \<longrightarrow> T + 2 * length (root_paths es) + 2 * n < t"
    and m: "(1 + m) * unat sizeof_event < 2 ^ 30"
    and run: "service w fuel n m st = Inr (status, lines, freed, sv)"
  shows "mset (printed (reports (sv_state sv))) = mset (root_diffs new es)"
proof -
  note ok = contents_nth_ok [OF names(2,4,3)]
  obtain sv1 where sv1: "service_init w fuel (stack_top st + 1) (service_start st) = Inr sv1"
    and none: "reports (sv_state sv1) = []"
    and rounds: "if sv_index sv1 = 0 \<or> \<not> handle_signals w then sv = sv1
      else monitor w n m (monitor_of sv1) = Inr (monitor_of sv)"
    by (rule service_run_monitor [OF world(1,2) names(1) ok m run])
  have same: "sv1 = sv0"
    using sv1 init(1) by simp
  have mem: "grants (w_alloc (frozen w) t) i" for t i
    using friendly_opens(1) [OF world(1)] by simp
  have "service_init (frozen w) fuel (stack_top st + 1) (service_start st) = Inr sv0"
    by (rule service_init_agree [OF still_agree [OF change(1)] friendly_opens(1) [OF world(1)] init])
  moreover have "\<forall>(q, e) \<in> set es. proper_name q \<and> present (frozen w) q e \<and> height e < fuel"
    using names(4) by (auto simp: list_all_iff plain_root_def)
  moreover have "stack_ok (sv_stack (service_start st))" "sv_stack (service_start st) = st" "sv_index (service_start st) = 0"
    using names(1) by (simp_all add: service_start_def)
  ultimately obtain ps where fp: "take (sv_index sv0) (sv_fp sv0) = ps"
    and mir: "list_all2 (\<lambda>(q, e) p. mirrors (Argument q) q e p) es ps"
    using service_init_mirrors [OF mem, of fuel "stack_top st + 1" "service_start st" sv0 es] names(2)
    by (auto simp del: service_init.simps)
  note rec = roots_recorded [OF change(1) mir names(4) change(2)]
  show ?thesis
  proof (cases "sv_index sv0 = 0")
    case True
    then have "es = []"
      using fp mir by auto
    then show ?thesis
      using True rounds same none by (simp add: root_diffs_def printed_def)
  next
    case False
    then have mon: "monitor w n m (watches_of ps, journal_of (sv_state sv0)) =
        Inr (watches_of (take (sv_index sv) (sv_fp sv)), journal_of (sv_state sv))"
      using rounds same world(3) fp by (simp add: monitor_of_def)
    have "w_terminate w t \<Longrightarrow> T + 2 * tracked_counts (watches_of ps) + 2 * n < t" for t
      using late rec [of True] by fastforce
    from monitor_once [OF this mon, of "first_stat w" new] show ?thesis
      using rec [of True] init(2) none same by (simp add: printed_def)
  qed
qed

end
