(* ===== verification/Lasting.thy ===== *)
theory Lasting
  imports Monitor_Spec
begin

text \<open>
  No change is missed, whatever the file system does: a round looks at every watched path, so an
  answer of \<^verbatim>\<open>lstat\<close> that lasts for the round is compared with the recorded status, reported when it
  differs, and recorded. \<open>followed\<close> says this of one path, and holds of every path of the tree
  between the two ends of a round.
\<close>

definition lasts :: "world \<Rightarrow> nat \<Rightarrow> nat \<Rightarrow> bytes \<Rightarrow> lstat_result \<Rightarrow> bool" where
  "lasts w c c' path r \<longleftrightarrow> (\<forall>t. c \<le> t \<and> t < c' \<longrightarrow> w_lstat w t path = r)"

definition reported :: "bytes \<Rightarrow> stat \<Rightarrow> lstat_result \<Rightarrow> report list \<Rightarrow> bool" where
  "reported path st r lines \<longleftrightarrow> (\<exists>line \<in> set lines. r_path line = path \<and>
     r_label line = event_label (change_mask st r) \<and> r_uid line = fuid_create (change_stat r) \<and>
     r_mtime line = st_mtime (change_stat r))"

definition followed :: "world \<Rightarrow> nat \<Rightarrow> nat \<Rightarrow> report list \<Rightarrow> bytes \<times> stat \<Rightarrow> bytes \<times> stat \<Rightarrow> bool" where
  "followed w c c' lines = (\<lambda>(path, st) (path', st'). path' = path \<and>
     (\<forall>r. lasts w c c' path r \<longrightarrow>
        (if change_mask st r = 0 then st' = st else st' = change_stat r \<and> reported path st r lines)))"

text \<open>A longer time and more lines keep it.\<close>

lemma followed_mono:
  "followed w c c' lines x y \<Longrightarrow> b \<le> c \<Longrightarrow> c' \<le> d \<Longrightarrow> set lines \<subseteq> set more_lines \<Longrightarrow> followed w b d more_lines x y"
  unfolding followed_def lasts_def reported_def
  by (cases x; cases y) (simp, meson order_trans less_le_trans subsetD)

definition follows :: "world \<Rightarrow> journal \<Rightarrow> journal \<Rightarrow> (bytes \<times> stat) list \<Rightarrow> (bytes \<times> stat) list \<Rightarrow> bool" where
  "follows w j j' xs ys \<longleftrightarrow> j_clock j \<le> j_clock j' \<and>
     (\<exists>new. j_lines j' = new @ j_lines j \<and> list_all2 (followed w (j_clock j) (j_clock j') new) xs ys)"

lemma follows_append:
  assumes "follows w i j xs ys" and "follows w j l us vs"
  shows "follows w i l (xs @ us) (ys @ vs)"
proof -
  obtain a b where a: "j_lines j = a @ j_lines i" "list_all2 (followed w (j_clock i) (j_clock j) a) xs ys"
    and b: "j_lines l = b @ j_lines j" "list_all2 (followed w (j_clock j) (j_clock l) b) us vs"
    and c: "j_clock i \<le> j_clock j" "j_clock j \<le> j_clock l"
    using assms by (auto simp: follows_def)
  have "list_all2 (followed w (j_clock i) (j_clock l) (b @ a)) xs ys"
    using list_all2_mono [OF a(2)] followed_mono [of w "j_clock i" "j_clock j" a] c(2)
    by (metis Un_upper2 order_refl set_append)
  moreover have "list_all2 (followed w (j_clock i) (j_clock l) (b @ a)) us vs"
    using list_all2_mono [OF b(2)] followed_mono [of w "j_clock j" "j_clock l" b] c(1)
    by (metis Un_upper1 order_refl set_append)
  ultimately show ?thesis
    using a(1) b(1) c unfolding follows_def by (intro conjI exI [of _ "b @ a"]) (auto intro: list_all2_appendI)
qed

lemma follows_quiet: "j_clock j \<le> j_clock j' \<Longrightarrow> j_lines j' = j_lines j \<Longrightarrow> follows w j j' [] []"
  by (simp add: follows_def)

text \<open>One answer during the time is enough: a result that lasts for it is that answer.\<close>

lemma followed_at:
  assumes "c \<le> t" and "t < c'" and "r = w_lstat w t path"
    and "st' = (if change_mask st r = 0 then st else change_stat r)"
    and "change_mask st r \<noteq> 0 \<Longrightarrow> reported path st r lines"
  shows "followed w c c' lines (path, st) (path, st')"
proof -
  have "r' = r" if "lasts w c c' path r'" for r'
    using that assms(1-3) by (simp add: lasts_def)
  then show ?thesis
    unfolding followed_def prod.case using assms(4,5) by (metis (full_types))
qed

lemma look_follows:
  assumes look: "watch_look w at st j = (st', j')"
  shows "follows w j j' [(at, st)] [(at, st')]"
proof -
  let ?r = "w_lstat w (j_clock j + 1) at"
  have clock: "j_clock j' = j_clock j + 2"
    using look_looked [OF look] by (simp add: looked_def)
  have st': "st' = (if change_mask st ?r = 0 then st else change_stat ?r)"
    using look by (auto simp: watch_look_def Let_def)
  obtain new where new: "j_lines j' = new @ j_lines j" "change_mask st ?r \<noteq> 0 \<Longrightarrow> reported at st ?r new"
  proof (cases "change_mask st ?r = 0")
    case True
    then show thesis
      using look by (intro that [of "[]"]) (auto simp: watch_look_def Let_def)
  next
    case False
    then show thesis
      using look by (intro that [of "[hd (j_lines j')]"]) (auto simp: watch_look_def Let_def reported_def)
  qed
  have "followed w (j_clock j) (j_clock j') new (at, st) (at, st')"
    by (rule followed_at [OF _ _ refl st' new(2)]) (simp_all add: clock)
  then show ?thesis
    unfolding follows_def using new(1) clock by auto
qed

lemma round_follows:
  "watch_round w path x j = (x', j') \<Longrightarrow> follows w j j' (statuses path x) (statuses path x')"
  "watch_all w path xs j = (xs', j') \<Longrightarrow> follows w j j' (statuses_all path xs) (statuses_all path xs')"
proof (induction w path x j and w path xs j arbitrary: x' j' and xs' j' rule: watch_round_watch_all.induct)
  case (1 w path ft n st ws j)
  let ?at = "enter path n"
  obtain ws1 j1 where below: "watch_all w ?at ws j = (ws1, j1)"
    by (cases "watch_all w ?at ws j")
  note ih = "1.IH" [OF below]
  show ?case
  proof (cases "ft = unknown")
    case True
    then show ?thesis
      using "1.prems" below ih by auto
  next
    case False
    obtain st1 j2 where look: "watch_look w ?at st j1 = (st1, j2)"
      by (cases "watch_look w ?at st j1")
    show ?thesis
      using "1.prems" below look False follows_append [OF ih look_follows [OF look]] by auto
  qed
next
  case (3 w path x xs j)
  obtain x1 j1 where first: "watch_round w path x j = (x1, j1)"
    by (cases "watch_round w path x j")
  obtain xs1 j2 where rest: "watch_all w path xs j1 = (xs1, j2)"
    by (cases "watch_all w path xs j1")
  show ?case
    using "3.prems" first rest follows_append [OF "3.IH"(1) [OF first] "3.IH"(2) [OF first [symmetric] refl rest]]
    by auto
qed (simp add: follows_quiet)

lemma monitor_round_follows:
  assumes "monitor_round w k (ws, j) = Inr ((ws', j'), True)"
  shows "follows w j j' (statuses_all [] ws) (statuses_all [] ws')"
proof -
  let ?j = "\<lambda>t. j\<lparr>j_clock := t, j_perf := (j_perf j)\<lparr>n_rounds := n_rounds (j_perf j) + 1\<rparr>\<rparr>"
  obtain t where wait: "wait_until w k (j_clock j) = Inr (True, t)" and all: "watch_all w [] ws (?j t) = (ws', j')"
    using assms by (auto simp: monitor_round_def map_res_Inr_iff Let_def split: if_splits)
  have "follows w j (?j t) [] []"
    by (rule follows_quiet) (use wait_until_bounds [OF wait] in simp_all)
  from follows_append [OF this round_follows(2) [OF all]] show ?thesis
    by simp
qed

end
