(* ===== verification/Monitor_Properties.thy ===== *)
theory Monitor_Properties
  imports Changes Lasting Mirror_Properties
begin

text \<open>
  Properties of many rounds: the service as a monitor, its books, and what it has printed when it
  ends.
\<close>

section \<open>The service and the monitor\<close>

text \<open>
  C3: the rounds of the service, however many, are the rounds of the monitor: reading off the
  type, the name and the latest status of every target, and the clock, the counters and the
  lines, turns a run of the one into a run of the other, whatever the file system does in
  between, and also when the bound on the rounds is reached.
\<close>

theorem service_refines_monitor:
  assumes "\<forall>t i. grants (w_alloc w t) i" and "service_ok sv" and "service_fits sv" and "service_spare m sv"
  shows "map_res monitor_of (service_rounds w n m sv) = monitor w n m (monitor_of sv)"
  by (rule service_rounds_monitor [OF _ assms(2-4)]) (use assms(1) in blast)

lemma sample_service_spare: "service_spare 101 sample_service"
  by (simp add: service_spare_def sample_service_def sample_dir_def sample_file_def sample_events_def sizeof_event_def)

lemma tick_world_grants: "\<forall>t i. grants (w_alloc tick_world t) i"
  by (simp add: tick_world_def sample_world_def sample_heap_def)

text \<open>The entries of the sample service watch the directory and the file with their statuses.\<close>

lemma sample_monitor:
  "fst (monitor_of sample_service) = [Watch directory [100] dir_stat [Watch normal [102] reg_stat []]]"
  by (simp add: sample_service_def sample_dir_def sample_file_def sample_events_def)

theorem service_refines_monitor_witness:
  "\<exists>sv. service_rounds tick_world 2 101 sample_service = Inr sv \<and>
    monitor tick_world 2 101 (monitor_of sample_service) = Inr (monitor_of sv)"
proof -
  obtain sv where "service_rounds tick_world 2 101 sample_service = Inr sv"
    using service_rounds_end [OF tick_world_runs(3) _ tick_world_runs(4) sample_service_ok, of 2 101] by auto
  then show ?thesis
    using service_refines_monitor [OF tick_world_grants sample_service_ok sample_service_spare, of 2] by auto
qed

text \<open>
  C22: at the end of a run the books balance: the events are the targets and the lines, since every
  target has its acknowledgement and every further event its line, and every directory stream
  that was opened has been closed. (The counters wrap at \<open>2 ^ 64\<close>, and the equations with them.)
\<close>

theorem service_books_balance:
  assumes "friendly w rank" and "roomy w room"
    and "stack_ok st" and "names_ok rank fuel (contents st)" and "names_fit room (contents st)"
    and "(1 + m) * unat sizeof_event < 2 ^ 30"
    and "service w fuel n m st = Inr (status, lines, freed, sv)"
  shows "n_events (perf (sv_state sv)) = n_target (perf (sv_state sv)) + of_nat (length (reports (sv_state sv))) \<and>
    n_opendir (perf (sv_state sv)) = n_closedir (perf (sv_state sv))"
  using service_books [OF assms] by simp

lemma sample_names_fit: "names_fit sample_room (contents sample_names)"
  by (simp add: sample_names_def names_fit_def contents_def sample_room_def MAX_PATH_SIZE_def
      basename_def strip_slashes_def)

theorem service_books_balance_witness:
  "\<exists>freed sv. service tick_world 2 2 101 sample_names = Inr (EXIT_FAILURE, [], freed, sv) \<and>
    n_opendir (perf (sv_state sv)) = n_closedir (perf (sv_state sv))"
proof -
  obtain freed sv where run: "service tick_world 2 2 101 sample_names = Inr (EXIT_FAILURE, [], freed, sv)"
    using service_ends [OF tick_world_runs(1,2) sample_names_ok sample_names_fit tick_world_runs(3) _ tick_world_runs(4),
        of 2 101] by (auto simp del: One_nat_def)
  then show ?thesis
    using service_books_balance [OF tick_world_runs(1,2) sample_names_ok sample_names_fit _ run]
    by (simp add: sizeof_event_def)
qed

section \<open>What a run has printed\<close>

text \<open>
  C5: the daemon reports nothing that did not happen: on every system, however often its files
  change, each line the rounds have printed is about an answer of \<^verbatim>\<open>lstat\<close> under that path, given
  during those rounds, that differs from the status recorded before them or from an earlier
  answer; its label names the difference, its identifier and its time of modification are those of the answer.
\<close>

theorem no_false_reports:
  assumes "\<forall>t i. grants (w_alloc w t) i" and "service_ok sv" and "service_fits sv" and "service_spare m sv"
    and "service_rounds w n m sv = Inr sv'"
  shows "\<exists>new. reports (sv_state sv') = new @ reports (sv_state sv) \<and>
    (\<forall>line \<in> set new. justified w (set (statuses_all [] (fst (monitor_of sv)))) (clock (sv_state sv))
      (clock (sv_state sv')) line)"
proof -
  let ?ws = "fst (monitor_of sv)"
  have "map_res monitor_of (service_rounds w n m sv) = monitor w n m (monitor_of sv)"
    by (rule service_rounds_monitor [OF _ assms(2-4)]) (use assms(1) in blast)
  then have "monitor w n m (?ws, journal_of (sv_state sv)) = Inr (fst (monitor_of sv'), journal_of (sv_state sv'))"
    using assms(5) by (simp add: monitor_of_def)
  from monitor_honest [OF this, of "clock (sv_state sv)" "set (statuses_all [] ?ws)"]
  show ?thesis
    by (auto simp: honest_def known_def)
qed

theorem no_false_reports_witness:
  "\<exists>sv. service_rounds tick_world 2 101 sample_service = Inr sv \<and>
    (\<forall>line \<in> set (reports (sv_state sv)).
      justified tick_world {([100, 47, 102], reg_stat), ([100], dir_stat)} 0 (clock (sv_state sv)) line)"
proof -
  obtain sv where run: "service_rounds tick_world 2 101 sample_service = Inr sv"
    using service_rounds_end [OF tick_world_runs(3) _ tick_world_runs(4) sample_service_ok, of 2 101] by auto
  have "set (statuses_all [] (fst (monitor_of sample_service))) = {([100, 47, 102], reg_stat), ([100], dir_stat)}"
    unfolding sample_monitor by (simp add: enter_def)
  moreover have "clock (sv_state sample_service) = 0" "reports (sv_state sample_service) = []"
    by (simp_all add: sample_service_def service_start_def state_init_def)
  ultimately show ?thesis
    using no_false_reports [OF tick_world_grants sample_service_ok sample_service_spare run] run
    by (auto simp del: monitor_of_simps)
qed

text \<open>
  C4: the daemon misses no change that lasts: when a round has run to its end, then for every watched
  path whose \<^verbatim>\<open>lstat\<close> gave one answer throughout the round, an answer that differs from the recorded
  status is recorded now, and a line under the path with the label of the difference is among the
  lines of the round; an answer that does not differ leaves the record alone. The other paths may
  have changed as often as they like.
\<close>

theorem lasting_changes_reported:
  assumes "\<forall>t i. grants (w_alloc w t) i" and "service_ok sv" and "service_fits sv" and "service_spare 1 sv"
    and "service_round w n sv = Inr (sv', True)"
  shows "\<exists>new. reports (sv_state sv') = new @ reports (sv_state sv) \<and>
    list_all2 (followed w (clock (sv_state sv)) (clock (sv_state sv')) new)
      (statuses_all [] (fst (monitor_of sv))) (statuses_all [] (fst (monitor_of sv')))"
proof -
  have "map_res (\<lambda>(sv, go). (monitor_of sv, go)) (service_round w n sv) = monitor_round w n (monitor_of sv)"
    by (rule service_round_monitor(1) [OF _ assms(2,3)]) (use assms(1,4) in auto)
  then have "monitor_round w n (fst (monitor_of sv), journal_of (sv_state sv)) =
      Inr ((fst (monitor_of sv'), journal_of (sv_state sv')), True)"
    using assms(5) by (simp add: monitor_of_def)
  from monitor_round_follows [OF this] show ?thesis
    by (simp add: follows_def)
qed

text \<open>The file of the sample directory has grown since its status was recorded.\<close>

definition grown_world :: world where
  "grown_world = sample_world\<lparr>w_lstat := (\<lambda>t q.
     if q = [100, 47, 102] then Stat (reg_stat\<lparr>st_size := 11\<rparr>) else sample_lstat q)\<rparr>"

lemma grown_world_round: "\<exists>sv. service_round grown_world 1 sample_service = Inr (sv, True)"
proof -
  have "advancing grown_world 0"
    using sample_advancing by (simp add: grown_world_def advancing_def clock_ms_def)
  then obtain sv go where round: "service_round grown_world 1 sample_service = Inr (sv, go)"
    using service_round_ok [OF sample_service_ok, of grown_world 0 1] by auto
  moreover obtain s where "spin grown_world 1 1000 (count_round (sv_state sample_service)) = Inr (True, s)"
    by (simp add: spin_def get_timestamp_eq tick_def count_round_def clock_ms_def grown_world_def sample_world_def
        sample_service_def service_start_def state_init_def)
  ultimately have go
    by (auto simp: service_round_def map_res_Inr_iff Let_def)
  then show ?thesis
    using round by auto
qed

theorem lasting_changes_reported_witness:
  "\<exists>sv. service_round grown_world 1 sample_service = Inr (sv, True) \<and>
    reported [100, 47, 102] reg_stat (Stat (reg_stat\<lparr>st_size := 11\<rparr>)) (reports (sv_state sv))"
proof -
  obtain sv where run: "service_round grown_world 1 sample_service = Inr (sv, True)"
    using grown_world_round by blast
  have mem: "\<forall>t i. grants (w_alloc grown_world t) i"
    by (simp add: grown_world_def sample_world_def sample_heap_def)
  have "service_spare 1 sample_service"
    by (simp add: service_spare_def sample_service_def sample_dir_def sample_file_def sample_events_def sizeof_event_def)
  from lasting_changes_reported [OF mem sample_service_ok this run] obtain st' where
    "followed grown_world 0 (clock (sv_state sv)) (reports (sv_state sv)) ([100, 47, 102], reg_stat) st'"
    unfolding sample_monitor
    by (auto simp: enter_def list_all2_Cons1 sample_service_def service_start_def state_init_def simp del: monitor_of_simps)
  moreover have "lasts grown_world 0 (clock (sv_state sv)) [100, 47, 102] (Stat (reg_stat\<lparr>st_size := 11\<rparr>))"
    by (simp add: lasts_def grown_world_def)
  moreover have "change_mask reg_stat (Stat (reg_stat\<lparr>st_size := 11\<rparr>)) \<noteq> 0"
    by code_simp
  ultimately show ?thesis
    using run by (auto simp: followed_def)
qed

text \<open>
  The daemon reports what happened, each change once. On a cooperating system the service is
  started on the plain names of entries; the file system stands still until \<open>T\<close>, when the
  snapshots are finished, and from \<open>T\<close> on each watched path has the status \<open>new\<close> gives it. The
  change may fall into a wait or into the middle of a round. If the signal leaves time for one
  more round, then when the service ends it has printed exactly the differences between the
  snapshot and \<open>new\<close>: each of them once, under the right path and label, and nothing else.
\<close>

theorem daemon_reports_changes_once:
  assumes "friendly w rank" and "roomy w room" and "handle_signals w"
    and "stack_ok st" and "contents st = map (\<lambda>(q, e). Some (Argv q)) (rev es)"
    and "\<forall>(q, e) \<in> set es. rank q < fuel \<and> room q < MAX_PATH_SIZE" and "list_all (plain_root w fuel) es"
    and "service_init w fuel (stack_top st + 1) (service_start st) = Inr sv0" and "clock (sv_state sv0) \<le> T"
    and "still T w" and "list_all (becomes T w new) (root_paths es)"
    and "\<forall>t. w_terminate w t \<longrightarrow> T + 2 * length (root_paths es) + 2 * n < t"
    and "advancing w k" and "k < n" and "terminating w E" and "E < m" and "(1 + m) * unat sizeof_event < 2 ^ 30"
  shows "\<exists>freed sv. service w fuel n m st = Inr (EXIT_FAILURE, [], freed, sv) \<and>
    mset (printed (reports (sv_state sv))) = mset (root_diffs new es)"
proof -
  note ok = contents_nth_ok [OF assms(5,7,6)]
  obtain freed sv where run: "service w fuel n m st = Inr (EXIT_FAILURE, [], freed, sv)"
    using service_ends [OF assms(1,2,4) ok assms(13-16)] by blast
  have "mset (printed (reports (sv_state sv))) = mset (root_diffs new es)"
    by (rule service_prints_differences [OF assms(1-12,17) run])
  then show ?thesis
    using run by blast
qed

text \<open>A file that grows at the twentieth system call, watched by its name.\<close>

definition growing_world :: world where
  "growing_world = tick_world\<lparr>w_lstat := (\<lambda>t q. if q = [100] then Stat (if t < 20 then reg_stat else reg_stat\<lparr>st_size := 11\<rparr>)
     else ENOENT)\<rparr>"

lemma growing_world_runs:
  "friendly growing_world sample_rank" "roomy growing_world sample_room" "advancing growing_world 1"
  "terminating growing_world 100"
  using tick_world_runs
  by (simp_all add: growing_world_def friendly_def roomy_def advancing_def terminating_def clock_ms_def)

lemma growing_leaf: "plain_root growing_world 2 ([100], Leaf reg_stat)"
  by (simp add: plain_root_def growing_world_def proper_name_def reg_stat_def filetype_of_def S_IFMT_def Let_def)

lemma growing_still: "still 20 growing_world"
  by (auto simp: still_def growing_world_def fun_eq_iff tick_world_def sample_world_def)

text \<open>The snapshot of a file takes three system calls.\<close>

lemma create_leaf_clock:
  assumes mem: "\<And>t n. grants (w_alloc w t) n" and base: "basename path = (b, path)"
    and lstat: "w_lstat w (clock s) path = Stat st" "filetype_of (st_mode st) \<noteq> directory"
    and run: "fs_target_create w (Suc n) path ref s = Inr (p, s')"
  shows "clock s' \<le> clock s + 3"
proof -
  obtain r s1 where init: "fs_target_event_init w path (ref path) (count_stat (tick s)) = Inr (r, s1)"
    and rest: "clock s' = clock s1"
    using run base lstat unfolding create_unfold [OF mem]
    by (auto simp: Let_def bind_res_Inr_iff map_res_Inr_iff split: option.splits)
  have "clock s1 \<le> clock (count_stat (tick s)) + 2"
    using init
    by (auto simp: fs_target_event_init_def stat_call_def fs_target_event_push_def lstat_def get_timestamp_eq Let_def
        bind_res_Inr_iff map_res_Inr_iff split: lstat_result.splits if_splits)
  then show ?thesis
    using rest by simp
qed

lemma growing_init:
  assumes st: "stack_ok st" "contents st = [Some (Argv [100])]"
    and run: "service_init growing_world 2 (stack_top st + 1) (service_start st) = Inr sv0"
  shows "clock (sv_state sv0) \<le> 20"
proof -
  have one: "stack_top st = 1"
    using contents_length [OF st(1)] st(2) by simp
  have mem: "grants (w_alloc growing_world t) i" for t i
    by (simp add: growing_world_def tick_world_def sample_world_def sample_heap_def)
  obtain st1 where pop: "filename_stack_pop st = Inr (Some (Argv [100]), st1)" "stack_top st1 = 0"
    using pop_contents [OF st(1)] st(2) one by auto
  then have empty: "filename_stack_pop st1 = Inr (None, st1)"
    by (simp add: filename_stack_pop_def)
  obtain sv1 f where step: "service_init_step growing_world 2 (service_start st) = Inr (sv1, f)"
    and rest: "if f then sv0 = sv1 else service_init growing_world 2 1 sv1 = Inr sv0"
    by (rule service_init_SucE [of growing_world 2 1 "service_start st" sv0]) (use run one in simp_all)
  obtain t s where f: "\<not> f" and named: "fs_target_create_named growing_world 2 (Argv [100]) state_init = Inr (t, s)"
    and sv1: "sv_state sv1 = s" "sv_stack sv1 = st1"
    using step pop(1) by (auto elim!: service_init_stepE simp: service_start_def)
  have create: "fs_target_create growing_world (Suc 1) [100] Argument state_init = Inr (t, s)"
    using create_named_Inr [OF named] by (simp add: numeral_2_eq_2 del: fs_target_create.simps)
  have "clock s \<le> clock state_init + 3"
    by (rule create_leaf_clock [where w = growing_world and st = reg_stat, OF mem _ _ _ create])
       (simp_all add: basename_def strip_slashes_def growing_world_def state_init_def reg_stat_def
         filetype_of_def S_IFMT_def Let_def)
  moreover obtain sv2 g where "service_init_step growing_world 2 sv1 = Inr (sv2, g)"
    and "if g then sv0 = sv2 else service_init growing_world 2 0 sv2 = Inr sv0"
    using service_init_SucE [of growing_world 2 0 sv1 sv0] rest f by auto
  moreover from this have "sv_state sv0 = sv_state sv1"
    using empty sv1(2) by (auto elim!: service_init_stepE split: if_splits)
  ultimately show ?thesis
    using sv1(1) by (simp add: state_init_def)
qed

theorem daemon_reports_changes_once_witness:
  "\<exists>freed sv. service growing_world 2 2 101 sample_names = Inr (EXIT_FAILURE, [], freed, sv) \<and>
    mset (printed (reports (sv_state sv))) = {#([100], ''MODIFY'')#}"
proof -
  let ?es = "[([100], Leaf reg_stat)]" and ?new = "\<lambda>_. reg_stat\<lparr>st_size := 11\<rparr>"
  obtain sv0 where init: "service_init growing_world 2 (stack_top sample_names + 1) (service_start sample_names) = Inr sv0"
    using service_init_fills [OF growing_world_runs(1) sample_names_ok] by blast
  have paths: "root_paths ?es = [[100]]" "root_diffs ?new ?es = [([100], ''MODIFY'')]"
    by (simp add: root_paths_def, code_simp)
  have "clock (sv_state sv0) \<le> 20"
    by (rule growing_init [OF sample_names_ok(1) _ init]) (simp add: sample_names_def contents_def)
  moreover have "list_all (becomes 20 growing_world ?new) (root_paths ?es)"
    by (simp add: paths becomes_def growing_world_def)
  moreover have "\<forall>t. w_terminate growing_world t \<longrightarrow> 20 + 2 * length (root_paths ?es) + 2 * 2 < t"
    by (simp add: paths growing_world_def tick_world_def sample_world_def)
  moreover have "contents sample_names = map (\<lambda>(q, e). Some (Argv q)) (rev ?es)" "handle_signals growing_world"
    "sample_rank [100] < 2" "sample_room [100] < MAX_PATH_SIZE"
    by (simp_all add: sample_names_def contents_def handle_signals_def growing_world_def tick_world_def sample_world_def
        sample_rank_def sample_room_def basename_def strip_slashes_def MAX_PATH_SIZE_def)
  ultimately show ?thesis
    using daemon_reports_changes_once [OF growing_world_runs(1,2) _ sample_names_ok(1) _ _ _ init _ growing_still _ _
        growing_world_runs(3) _ growing_world_runs(4), of ?es ?new 2 101] growing_leaf paths(2)
    by (simp add: sizeof_event_def)
qed

end
