(* ===== verification/Text.thy ===== *)
theory Text
  imports Path
begin

text \<open>
  Characters and decimal numbers, for the parsers and the formatter of the daemon. A C string
  that is only read is the list of its bytes before the terminator; reading at its end gives
  the terminator.
\<close>

section \<open>Characters of the C locale\<close>

definition chr :: "bytes \<Rightarrow> u8" where
  "chr ps = (case ps of [] \<Rightarrow> 0 | c # _ \<Rightarrow> c)"

lemma chr_simps [simp]: "chr [] = 0" "chr (c # s) = c"
  by (simp_all add: chr_def)

definition isspace :: "u8 \<Rightarrow> bool" where
  "isspace c \<longleftrightarrow> c = 32 \<or> 9 \<le> c \<and> c \<le> 13"

definition isdigit :: "u8 \<Rightarrow> bool" where
  "isdigit c \<longleftrightarrow> 48 \<le> c \<and> c \<le> 57"

text \<open>\<open>while (isspace(*ps)) ps++;\<close>\<close>

fun skip_spaces :: "bytes \<Rightarrow> bytes" where
  "skip_spaces [] = []"
| "skip_spaces (c # s) = (if isspace c then skip_spaces s else c # s)"

lemma skip_spaces_length: "length (skip_spaces s) \<le> length s"
  by (induction s) auto

lemma skip_spaces_id [simp]: "\<not> isspace (chr s) \<Longrightarrow> skip_spaces s = s"
  by (cases s) auto

lemma skip_spaces_chr: "\<not> isspace (chr (skip_spaces s))"
  by (induction s) (auto simp: isspace_def)

lemma isdigit_not [simp]: "\<not> isdigit 0" "\<not> isspace 0" "isspace 32"
  by (auto simp: isdigit_def isspace_def)

section \<open>Decimal numbers\<close>

definition digit :: "nat \<Rightarrow> u8" where
  "digit d = of_nat (48 + d)"

lemma digit_unat: "d < 10 \<Longrightarrow> unat (digit d) = 48 + d"
  by (simp only: digit_def unat_of_nat) simp

lemma isdigit_digit [simp]: "d < 10 \<Longrightarrow> isdigit (digit d)"
  by (simp add: isdigit_def word_le_nat_alt digit_unat)

lemma isdigit_not_space: "isdigit c \<Longrightarrow> \<not> isspace c"
  by (auto simp: isdigit_def isspace_def word_le_nat_alt)

fun digits :: "nat \<Rightarrow> bytes" where
  "digits n = (if n < 10 then [digit n] else digits (n div 10) @ [digit (n mod 10)])"

declare digits.simps [simp del]

lemma digits_less [simp]: "n < 10 \<Longrightarrow> digits n = [digit n]"
  by (simp add: digits.simps)

lemma digits_step: "10 \<le> n \<Longrightarrow> digits n = digits (n div 10) @ [digit (n mod 10)]"
  by (simp add: digits.simps [of n])

lemma digits_isdigit: "c \<in> set (digits n) \<Longrightarrow> isdigit c"
proof (induction n rule: digits.induct)
  case (1 n)
  show ?case
  proof (cases "n < 10")
    case False
    then show ?thesis
      using 1 by (auto simp: digits_step)
  qed (use 1 in simp)
qed

lemma digits_ne [simp]: "digits n \<noteq> []"
  by (simp add: digits.simps [of n])

lemma digits_chr: "isdigit (chr (digits n @ s))"
  using digits_isdigit [of "hd (digits n)" n] by (cases "digits n") auto

text \<open>The first digit is zero only in the number zero.\<close>

lemma digits_hd: "0 < n \<Longrightarrow> hd (digits n) \<noteq> 48"
proof (induction n rule: digits.induct)
  case (1 n)
  show ?case
  proof (cases "n < 10")
    case True
    then show ?thesis
      using 1(2) digit_unat [of n] by auto
  next
    case False
    then show ?thesis
      using 1 by (simp add: digits_step)
  qed
qed

text \<open>Reading digits back, in any arithmetic.\<close>

lemma digits_fold:
  fixes f :: "'a \<Rightarrow> u8 \<Rightarrow> 'a" and v :: "nat \<Rightarrow> 'a"
  assumes "\<And>m d. d < 10 \<Longrightarrow> 10 * m + d \<le> n \<Longrightarrow> f (v m) (digit d) = v (10 * m + d)"
  shows "foldl f (v 0) (digits n) = v n"
  using assms
proof (induction n rule: digits.induct)
  case (1 n)
  show ?case
  proof (cases "n < 10")
    case True
    then show ?thesis
      using "1.prems" [of n 0] by simp
  next
    case False
    have "foldl f (v 0) (digits (n div 10)) = v (n div 10)"
      by (rule "1.IH" [OF False], rule "1.prems") auto
    moreover have "f (v (n div 10)) (digit (n mod 10)) = v n"
      using "1.prems" [of "n mod 10" "n div 10"] by simp
    ultimately show ?thesis
      using False by (simp add: digits_step)
  qed
qed

end
