(* ===== verification/Cron.thy ===== *)
theory Cron
  imports Text
begin

text \<open>
  The cron expressions of \<^verbatim>\<open>daemon/srcs/lib/cron-parse.c\<close>. A pointer into the expression is
  the rest of the string, NULL is \<open>None\<close>; the five static arrays are the state. Positions and
  steps are the 8 bit integers of the code, whose additions wrap, so the loop that marks a range
  carries fuel: \<open>CRON_FUEL\<close> turns are enough unless the step is zero (\<open>mark_loop_returns\<close>).
\<close>

section \<open>The arrays\<close>

record cron =
  cron_minutes :: bytes
  cron_hours :: bytes
  cron_mdays :: bytes
  cron_months :: bytes
  cron_wdays :: bytes

text \<open>What the five \<^verbatim>\<open>memset\<close> calls leave.\<close>

definition cron_clear :: cron where
  "cron_clear = \<lparr>cron_minutes = replicate 60 0, cron_hours = replicate 24 0,
     cron_mdays = replicate 32 0, cron_months = replicate 13 0, cron_wdays = replicate 8 0\<rparr>"

definition CRON_FUEL :: nat where
  "CRON_FUEL = 257"

section \<open>Elements\<close>

definition cron_eol :: "bytes \<Rightarrow> bool" where
  "cron_eol pc \<longleftrightarrow> chr pc = 59 \<or> chr pc = 0"

text \<open>The loop of \<open>cron_parse_number\<close>: \<open>n\<close> is an 8 bit integer.\<close>

fun number_loop :: "bytes \<Rightarrow> u8 \<Rightarrow> bytes \<times> u8" where
  "number_loop [] n = ([], n)"
| "number_loop (c # ps) n = (if isdigit c then number_loop ps (n * 10 + (c - 48)) else (c # ps, n))"

definition cron_parse_number :: "bytes \<Rightarrow> bytes \<times> u8" where
  "cron_parse_number ps = number_loop ps 0"

text \<open>\<open>for (i = from; i <= to; i += step) pbuf[i] = true;\<close>\<close>

fun mark_loop :: "nat \<Rightarrow> u8 \<Rightarrow> u8 \<Rightarrow> u8 \<Rightarrow> bytes \<Rightarrow> bytes res" where
  "mark_loop 0 i to step pbuf = Inl Out_Of_Fuel"
| "mark_loop (Suc k) i to step pbuf =
     (if i \<le> to then bind_res (store_slot pbuf (unat i) 1) (\<lambda>pbuf. mark_loop k (i + step) to step pbuf)
      else Inr pbuf)"

text \<open>The step after a slash, 1 when there is none.\<close>

definition step_suffix :: "bytes \<Rightarrow> bytes \<times> u8" where
  "step_suffix ps = (if chr ps = 47 then cron_parse_number (tl ps) else (ps, 1))"

definition cron_parse_element ::
  "bytes option \<Rightarrow> bytes \<Rightarrow> u8 \<Rightarrow> u8 \<Rightarrow> (bytes \<times> bytes option) res"
where
  "cron_parse_element ps pbuf lo hi = (case ps of
      None \<Rightarrow> Inr (pbuf, None)
    | Some ps \<Rightarrow>
        let ps = skip_spaces ps in
        if chr ps = 42 then
          let (ps, step) = step_suffix (tl ps) in
          map_res (\<lambda>pbuf. (pbuf, Some ps)) (mark_loop CRON_FUEL lo hi step pbuf)
        else if isdigit (chr ps) then
          let (ps, from) = cron_parse_number ps in
          if chr ps \<noteq> 45 then
            let from = (if from > hi then hi else from) in
            map_res (\<lambda>pbuf. (pbuf, Some ps)) (store_slot pbuf (unat from) 1)
          else
            let (ps, to) = cron_parse_number (tl ps);
                (ps, step) = step_suffix ps;
                from = (if from < lo then lo else from);
                to = (if to > hi then hi else to);
                from = (if from > hi then hi else from) in
            map_res (\<lambda>pbuf. (pbuf, Some ps)) (mark_loop CRON_FUEL from to step pbuf)
        else Inr (pbuf, None))"

lemma number_loop_length: "length (fst (number_loop ps n)) \<le> length ps"
  by (induction ps n rule: number_loop.induct) auto

lemma cron_parse_number_length:
  "length (fst (cron_parse_number ps)) \<le> length ps"
  "isdigit (chr ps) \<Longrightarrow> length (fst (cron_parse_number ps)) < length ps"
  using number_loop_length [of ps 0] number_loop_length [of "tl ps"]
  by (cases ps; simp add: cron_parse_number_def less_Suc_eq_le)+

lemma step_suffix_length: "length (fst (step_suffix ps)) \<le> length ps"
  using cron_parse_number_length(1) [of "tl ps"] by (auto simp: step_suffix_def)

lemma cron_parse_element_shorter:
  assumes "cron_parse_element (Some ps) pbuf lo hi = Inr (pbuf', Some ps')"
  shows "length ps' < length ps"
proof -
  let ?s = "skip_spaces ps"
  have s: "length ?s \<le> length ps"
    by (rule skip_spaces_length)
  show ?thesis
  proof (cases "chr ?s = 42")
    case True
    then have "?s \<noteq> []"
      by auto
    then show ?thesis
      using assms True s step_suffix_length [of "tl ?s"]
      by (cases ?s) (auto simp: cron_parse_element_def map_res_Inr_iff split: prod.splits)
  next
    case False
    then have d: "isdigit (chr ?s)"
      using assms by (auto simp: cron_parse_element_def Let_def split: if_splits)
    obtain r fr where n: "cron_parse_number ?s = (r, fr)"
      by (cases "cron_parse_number ?s")
    obtain r2 t where n2: "cron_parse_number (tl r) = (r2, t)"
      by (cases "cron_parse_number (tl r)")
    obtain r3 st where n3: "step_suffix r2 = (r3, st)"
      by (cases "step_suffix r2")
    have "length r < length ps" "length r2 \<le> length r" "length r3 \<le> length r2"
      using s cron_parse_number_length(2) [OF d] cron_parse_number_length(1) [of "tl r"]
        step_suffix_length [of r2] n n2 n3 by simp_all
    then show ?thesis
      using assms False d n n2 n3
      by (auto simp: cron_parse_element_def map_res_Inr_iff Let_def split: if_splits)
  qed
qed

section \<open>Lists, entries, expressions\<close>

text \<open>The \<^verbatim>\<open>while (true)\<close> of \<open>cron_parse_list\<close>.\<close>

function element_loop :: "bytes \<Rightarrow> bytes \<Rightarrow> u8 \<Rightarrow> u8 \<Rightarrow> (bytes \<times> bytes option) res" where
  "element_loop ps pbuf lo hi =
     bind_res (cron_parse_element (Some ps) pbuf lo hi) (\<lambda>(pbuf, ps).
       case ps of
         None \<Rightarrow> Inr (pbuf, None)
       | Some ps \<Rightarrow> if chr ps \<noteq> 44 then Inr (pbuf, Some ps) else element_loop (tl ps) pbuf lo hi)"
  by pat_completeness auto
termination
  by (relation "measure (\<lambda>(ps, pbuf, lo, hi). length ps)")
     (auto dest!: cron_parse_element_shorter)

declare element_loop.simps [simp del]

definition cron_parse_list ::
  "bytes option \<Rightarrow> bytes \<Rightarrow> u8 \<Rightarrow> u8 \<Rightarrow> (bytes \<times> bytes option) res"
where
  "cron_parse_list ps pbuf lo hi = (case ps of
      None \<Rightarrow> Inr (pbuf, None)
    | Some ps \<Rightarrow>
        let ps = skip_spaces ps in
        if \<not> cron_eol ps then
          map_res (\<lambda>(pbuf, ps). (pbuf, case ps of
              None \<Rightarrow> None
            | Some ps \<Rightarrow> Some (if \<not> isspace (chr ps) \<and> \<not> cron_eol ps then tl ps else ps)))
            (element_loop ps pbuf lo hi)
        else map_res (\<lambda>pbuf. (pbuf, Some ps)) (mark_loop CRON_FUEL lo hi 1 pbuf))"

text \<open>\<open>while (!cron_eol(ps)) ++ps;\<close>\<close>

fun skip_entry :: "bytes \<Rightarrow> bytes" where
  "skip_entry [] = []"
| "skip_entry (c # ps) = (if cron_eol (c # ps) then c # ps else skip_entry ps)"

definition cron_parse_entry :: "cron \<Rightarrow> bytes option \<Rightarrow> (cron \<times> bytes option) res" where
  "cron_parse_entry st ps =
     bind_res (cron_parse_list ps (cron_minutes st) 0 59) (\<lambda>(minutes, ps).
     bind_res (cron_parse_list ps (cron_hours st) 0 23) (\<lambda>(hours, ps).
     bind_res (cron_parse_list ps (cron_mdays st) 1 31) (\<lambda>(mdays, ps).
     bind_res (cron_parse_list ps (cron_months st) 1 12) (\<lambda>(months, ps).
     bind_res (cron_parse_list ps (cron_wdays st) 0 6) (\<lambda>(wdays, ps).
       let st = \<lparr>cron_minutes = minutes, cron_hours = hours, cron_mdays = mdays,
                 cron_months = months, cron_wdays = wdays\<rparr> in
       case ps of
         None \<Rightarrow> Inr (st, None)
       | Some ps \<Rightarrow>
           let ps = skip_entry ps;
               ps = (if chr ps = 59 then tl ps else ps) in
           Inr (st, Some (skip_spaces ps)))))))"

lemma element_loop_shorter:
  "element_loop ps pbuf lo hi = Inr (pbuf', Some ps') \<Longrightarrow> length ps' < length ps"
proof (induction ps pbuf lo hi rule: element_loop.induct)
  case (1 ps pbuf lo hi)
  obtain buf r where step: "cron_parse_element (Some ps) pbuf lo hi = Inr (buf, Some r)"
    and rest: "if chr r \<noteq> 44 then pbuf' = buf \<and> ps' = r
      else element_loop (tl r) buf lo hi = Inr (pbuf', Some ps')"
    using "1.prems" by (subst (asm) element_loop.simps)
      (auto simp: bind_res_Inr_iff split: option.splits if_splits)
  note r = cron_parse_element_shorter [OF step]
  show ?case
  proof (cases "chr r = 44")
    case True
    then have "length ps' < length (tl r)"
      using "1.IH" [OF step refl refl] rest by simp
    then show ?thesis
      using r by simp
  qed (use rest r in simp)
qed

lemma cron_parse_list_shorter:
  assumes "cron_parse_list (Some ps) pbuf lo hi = Inr (pbuf', Some ps')"
  shows "length ps' \<le> length ps" and "\<not> cron_eol (skip_spaces ps) \<Longrightarrow> length ps' < length ps"
    and "cron_eol (skip_spaces ps) \<Longrightarrow> ps' = skip_spaces ps"
proof -
  show eol: "cron_eol (skip_spaces ps) \<Longrightarrow> ps' = skip_spaces ps"
    using assms by (auto simp: cron_parse_list_def map_res_Inr_iff)
  show less: "\<not> cron_eol (skip_spaces ps) \<Longrightarrow> length ps' < length ps"
  proof -
    assume "\<not> cron_eol (skip_spaces ps)"
    then obtain r where "element_loop (skip_spaces ps) pbuf lo hi = Inr (pbuf', Some r)"
      "length ps' \<le> length r"
      using assms by (auto simp: cron_parse_list_def map_res_Inr_iff split: option.splits if_splits)
    then show ?thesis
      using element_loop_shorter skip_spaces_length [of ps] by fastforce
  qed
  show "length ps' \<le> length ps"
    using eol less skip_spaces_length [of ps] by (cases "cron_eol (skip_spaces ps)") fastforce+
qed

lemma skip_entry_length: "length (skip_entry ps) \<le> length ps"
  by (induction ps) auto

lemma skip_entry_eol: "cron_eol (skip_entry ps)"
  by (induction ps) (auto simp: cron_eol_def)

lemma cron_parse_list_None [simp]: "cron_parse_list None pbuf lo hi = Inr (pbuf, None)"
  by (simp add: cron_parse_list_def)

lemma cron_parse_list_Some:
  "cron_parse_list ps pbuf lo hi = Inr (pbuf', Some r) \<Longrightarrow> \<exists>q. ps = Some q \<and> length r \<le> length q"
  using cron_parse_list_shorter(1) by (cases ps) auto

lemma eol_not_space: "cron_eol ps \<Longrightarrow> skip_spaces ps = ps"
  by (rule skip_spaces_id) (auto simp: cron_eol_def isspace_def)

lemma skip_entry_id: "cron_eol ps \<Longrightarrow> skip_entry ps = ps"
  by (cases ps) auto

text \<open>An entry that leaves something to parse has consumed something.\<close>

lemma cron_parse_entry_shorter:
  assumes "cron_parse_entry st (Some ps) = Inr (st', Some r)" and "chr r \<noteq> 0"
  shows "length r < length ps"
proof -
  obtain b1 o1 b2 o2 b3 o3 b4 o4 b5 o5 where
    o: "cron_parse_list (Some ps) (cron_minutes st) 0 59 = Inr (b1, o1)"
      "cron_parse_list o1 (cron_hours st) 0 23 = Inr (b2, o2)"
      "cron_parse_list o2 (cron_mdays st) 1 31 = Inr (b3, o3)"
      "cron_parse_list o3 (cron_months st) 1 12 = Inr (b4, o4)"
      "cron_parse_list o4 (cron_wdays st) 0 6 = Inr (b5, o5)" and
    end': "(case o5 of None \<Rightarrow> None
      | Some p5 \<Rightarrow> Some (skip_spaces
          (if chr (skip_entry p5) = 59 then tl (skip_entry p5) else skip_entry p5))) = Some r"
    using assms(1) by (fastforce simp: cron_parse_entry_def bind_res_Inr_iff Let_def split: option.splits)
  obtain p5 where p5: "o5 = Some p5"
    and r: "r = skip_spaces (if chr (skip_entry p5) = 59 then tl (skip_entry p5) else skip_entry p5)"
    using end' by (auto split: option.splits)
  obtain p4 where p4: "o4 = Some p4"
    using cron_parse_list_Some [OF o(5) [unfolded p5]] by blast
  obtain p3 where p3: "o3 = Some p3"
    using cron_parse_list_Some [OF o(4) [unfolded p4]] by blast
  obtain p2 where p2: "o2 = Some p2"
    using cron_parse_list_Some [OF o(3) [unfolded p3]] by blast
  obtain p1 where p1: "o1 = Some p1"
    using cron_parse_list_Some [OF o(2) [unfolded p2]] by blast
  note l1 = o(1) [unfolded p1] and l2 = o(2) [unfolded p1 p2] and l3 = o(3) [unfolded p2 p3]
    and l4 = o(4) [unfolded p3 p4] and l5 = o(5) [unfolded p4 p5]
  note le = cron_parse_list_shorter(1) [OF l2] cron_parse_list_shorter(1) [OF l3]
    cron_parse_list_shorter(1) [OF l4] cron_parse_list_shorter(1) [OF l5]
  have r_le: "length r \<le> length (skip_entry p5)"
    unfolding r using skip_spaces_length [of "skip_entry p5"] skip_spaces_length [of "tl (skip_entry p5)"]
    by auto
  show ?thesis
  proof (cases "cron_eol (skip_spaces ps)")
    case False
    then show ?thesis
      using cron_parse_list_shorter(2) [OF l1] le r_le skip_entry_length [of p5] by linarith
  next
    case True
    then have q1: "p1 = skip_spaces ps" "cron_eol p1"
      using cron_parse_list_shorter(3) [OF l1] by simp_all
    have "p2 = p1" "p3 = p2" "p4 = p3" "p5 = p4"
      using q1(2) cron_parse_list_shorter(3) [OF l2] cron_parse_list_shorter(3) [OF l3]
        cron_parse_list_shorter(3) [OF l4] cron_parse_list_shorter(3) [OF l5]
      by (simp_all add: eol_not_space)
    then have rp: "r = skip_spaces (if chr p1 = 59 then tl p1 else p1)"
      using r q1(2) by (simp add: skip_entry_id)
    moreover have "chr p1 = 59"
    proof (rule ccontr)
      assume "chr p1 \<noteq> 59"
      then show False
        using rp q1(2) assms(2) eol_not_space [of p1] by (simp add: cron_eol_def)
    qed
    ultimately have "length r < length p1"
      using skip_spaces_length [of "tl p1"] by (cases p1) auto
    then show ?thesis
      using q1(1) skip_spaces_length [of ps] by simp
  qed
qed

text \<open>\<open>while ((ps = cron_parse_entry(ps)) != NULL && *ps != 0);\<close>\<close>

function entry_loop :: "cron \<Rightarrow> bytes \<Rightarrow> cron res" where
  "entry_loop st ps =
     bind_res (cron_parse_entry st (Some ps)) (\<lambda>(st, ps).
       case ps of
         None \<Rightarrow> Inr st
       | Some ps \<Rightarrow> if chr ps \<noteq> 0 then entry_loop st ps else Inr st)"
  by pat_completeness auto
termination
  by (relation "measure (\<lambda>(st, ps). length ps)") (auto dest!: cron_parse_entry_shorter)

declare entry_loop.simps [simp del]

text \<open>One line of \<open>print_cron_arrays\<close>: the label in 20 columns, then \<^verbatim>\<open>@\<close> where a slot is set.\<close>

definition cron_line :: "string \<Rightarrow> bytes \<Rightarrow> nat \<Rightarrow> nat \<Rightarrow> string" where
  "cron_line label pbuf lo hi =
     replicate (20 - length label) (CHR '' '') @ label @
     map (\<lambda>i. if pbuf ! i = 1 then CHR ''@'' else CHR ''.'') [lo..<hi + 1]"

definition print_cron_arrays :: "cron \<Rightarrow> string list" where
  "print_cron_arrays st =
     [cron_line ''cron_minutes_: '' (cron_minutes st) 0 59,
      cron_line ''cron_hours: '' (cron_hours st) 0 23,
      cron_line ''cron_mdays_: '' (cron_mdays st) 1 31,
      cron_line ''cron_months_: '' (cron_months st) 1 12,
      cron_line ''cron_wdays_: '' (cron_wdays st) 0 7]"

text \<open>\<open>cron_check\<close>: the arrays it leaves, what it prints, and its result.\<close>

definition cron_check :: "cron \<Rightarrow> bytes option \<Rightarrow> (cron \<times> string list \<times> bool) res" where
  "cron_check st ps = (case ps of
      None \<Rightarrow> Inr (st, [], False)
    | Some ps \<Rightarrow>
        if chr ps = 0 then Inr (st, [], False)
        else
          let ps = skip_spaces ps;
              ps = (if chr ps = 90 then tl ps else if chr ps = 76 then tl ps else ps) in
          bind_res (entry_loop cron_clear ps) (\<lambda>st.
          bind_res (load_slot (cron_wdays st) 7) (\<lambda>sunday.
          bind_res (if sunday \<noteq> 0 then store_slot (cron_wdays st) 0 1 else Inr (cron_wdays st)) (\<lambda>wdays.
            let st = st\<lparr>cron_wdays := wdays\<rparr> in Inr (st, print_cron_arrays st, False)))))"

end
