(* ===== verification/Cron_Marks.thy ===== *)
theory Cron_Marks
  imports Cron
begin

text \<open>
  What the marking loop of the cron parser does (when it returns, and which slots it sets), and
  that no expression makes the parser leave its arrays.
\<close>

section \<open>Setting slots\<close>

definition mark :: "bytes \<Rightarrow> (nat \<Rightarrow> bool) \<Rightarrow> bytes" where
  "mark pbuf P = map (\<lambda>i. if P i then 1 else pbuf ! i) [0..<length pbuf]"

lemma length_mark [simp]: "length (mark pbuf P) = length pbuf"
  by (simp add: mark_def)

lemma nth_mark [simp]: "i < length pbuf \<Longrightarrow> mark pbuf P ! i = (if P i then 1 else pbuf ! i)"
  by (simp add: mark_def)

lemma mark_mark: "mark (mark pbuf P) Q = mark pbuf (\<lambda>i. P i \<or> Q i)"
  by (rule nth_equalityI) auto

lemma mark_update: "mark (pbuf[i := 1]) P = mark pbuf (\<lambda>j. j = i \<or> P j)"
  by (rule nth_equalityI) (auto simp: nth_list_update)

lemma mark_none: "mark pbuf (\<lambda>_. False) = pbuf"
  by (rule nth_equalityI) auto

lemma update_mark: "pbuf[i := 1] = mark pbuf (\<lambda>j. j = i)"
  by (rule nth_equalityI) (auto simp: nth_list_update)

section \<open>The loop returns exactly when the step is not zero\<close>

lemma unat_u8_add: "unat (a + b :: u8) = (if unat a + unat b < 256 then unat a + unat b else unat a + unat b - 256)"
  using unat_plus_if' [of a b] by simp

lemma unat_u8_lt: "unat (x :: u8) < 256"
  using unsigned_less [of x] by simp

text \<open>The turns the loop has left; with a step from 128 on it runs downwards.\<close>

definition turns_left :: "u8 \<Rightarrow> u8 \<Rightarrow> u8 \<Rightarrow> nat" where
  "turns_left i to step =
     (if i > to then 0 else if unat step < 128 then unat to + 1 - unat i else unat i + 1)"

lemma turns_left_less:
  assumes "i \<le> to" and "step \<noteq> 0" and "unat to < 128"
  shows "turns_left (i + step) to step < turns_left i to step"
proof -
  have "0 < unat step"
    using assms(2) by (simp add: unat_gt_0)
  then show ?thesis
    using assms(1,3) unat_u8_lt [of step]
    by (auto simp: turns_left_def word_le_nat_alt word_less_nat_alt unat_u8_add not_less)
qed

lemma mark_loop_returns:
  "step \<noteq> 0 \<Longrightarrow> unat to < 128 \<Longrightarrow> unat to < length pbuf \<Longrightarrow> turns_left i to step < k \<Longrightarrow>
   \<exists>pbuf'. mark_loop k i to step pbuf = Inr pbuf' \<and> length pbuf' = length pbuf"
proof (induction k arbitrary: i pbuf)
  case (Suc k)
  show ?case
  proof (cases "i \<le> to")
    case True
    then have "unat i < length pbuf"
      using Suc.prems(3) by (simp add: word_le_nat_alt)
    moreover have "turns_left (i + step) to step < k"
      using turns_left_less [OF True Suc.prems(1,2)] Suc.prems(4) by simp
    ultimately show ?thesis
      using Suc.IH [of "pbuf[unat i := 1]" "i + step"] Suc.prems True by (simp add: store_slot_def)
  qed simp
qed simp

lemma turns_left_bound: "unat to < 128 \<Longrightarrow> turns_left i to step < CRON_FUEL"
  using unat_u8_lt [of i] by (auto simp: turns_left_def CRON_FUEL_def)

lemma mark_loop_zero:
  "i \<le> to \<Longrightarrow> unat to < length pbuf \<Longrightarrow> mark_loop k i to 0 pbuf = Inl Out_Of_Fuel"
  by (induction k arbitrary: pbuf) (auto simp: store_slot_def word_le_nat_alt)

section \<open>Which slots it sets\<close>

text \<open>As long as the position cannot wrap.\<close>

lemma mark_loop_marks:
  "step \<noteq> 0 \<Longrightarrow> unat to + unat step < 256 \<Longrightarrow> unat to < length pbuf \<Longrightarrow>
   unat to + 1 - unat i < k \<Longrightarrow>
   mark_loop k i to step pbuf =
     Inr (mark pbuf (\<lambda>j. unat i \<le> j \<and> j \<le> unat to \<and> unat step dvd (j - unat i)))"
proof (induction k arbitrary: i pbuf)
  case (Suc k)
  have pos: "0 < unat step"
    using Suc.prems(1) by (simp add: unat_gt_0)
  show ?case
  proof (cases "i \<le> to")
    case True
    then have i: "unat i \<le> unat to" "unat i < length pbuf"
      using Suc.prems(3) by (simp_all add: word_le_nat_alt)
    have nxt: "unat (i + step) = unat i + unat step"
      using i Suc.prems(2) by (simp add: unat_u8_add)
    let ?Q = "\<lambda>j. unat i + unat step \<le> j \<and> j \<le> unat to \<and> unat step dvd (j - (unat i + unat step))"
    have "mark_loop k (i + step) to step (pbuf[unat i := 1]) = Inr (mark (pbuf[unat i := 1]) ?Q)"
    proof -
      have "unat to + 1 - unat (i + step) < k" "unat to < length (pbuf[unat i := 1])"
        using Suc.prems(3,4) nxt pos i by simp_all
      then show ?thesis
        using Suc.IH [OF Suc.prems(1,2)] nxt by simp
    qed
    then have "mark_loop (Suc k) i to step pbuf = Inr (mark pbuf (\<lambda>j. j = unat i \<or> ?Q j))"
      using True i by (simp add: store_slot_def mark_update)
    moreover have "(j = unat i \<or> ?Q j) \<longleftrightarrow>
        unat i \<le> j \<and> j \<le> unat to \<and> unat step dvd (j - unat i)" for j
    proof (cases "unat i < j")
      case True
      have "unat step dvd (j - unat i) \<Longrightarrow> unat i + unat step \<le> j"
        using True dvd_imp_le [of "unat step" "j - unat i"] by linarith
      moreover have "unat step dvd (j - (unat i + unat step)) \<longleftrightarrow> unat step dvd (j - unat i)"
        if "unat i + unat step \<le> j"
        using that dvd_minus_self [of "unat step" "j - unat i"]
        by (simp add: diff_diff_left less_diff_conv2 not_less)
      ultimately show ?thesis
        using True by auto
    qed (use i pos in auto)
    ultimately show ?thesis
      by simp
  next
    case False
    then have "\<not> (unat i \<le> j \<and> j \<le> unat to)" for j
      by (simp add: word_le_nat_alt)
    then have "(\<lambda>j. unat i \<le> j \<and> j \<le> unat to \<and> unat step dvd (j - unat i)) = (\<lambda>_. False)"
      by auto
    with False show ?thesis
      by (simp add: mark_none)
  qed
qed simp

section \<open>No expression leaves the arrays\<close>

text \<open>
  A result that keeps the length of its buffer; the only thing that can go wrong is a loop that
  does not end.
\<close>

definition stays :: "nat \<Rightarrow> (bytes \<times> bytes option) res \<Rightarrow> bool" where
  "stays n r \<longleftrightarrow> (case r of Inl f \<Rightarrow> f = Out_Of_Fuel | Inr (pbuf, ps) \<Rightarrow> length pbuf = n)"

lemma stays_simps [simp]:
  "stays n (Inr (pbuf, ps)) \<longleftrightarrow> length pbuf = n" "stays n (Inl f) \<longleftrightarrow> f = Out_Of_Fuel"
  by (simp_all add: stays_def)

lemma mark_loop_stays:
  assumes "unat to < 128" and "unat to < length pbuf"
  shows "stays (length pbuf) (map_res (\<lambda>pbuf. (pbuf, ps)) (mark_loop CRON_FUEL i to step pbuf))"
proof (cases "step = 0 \<and> i \<le> to")
  case True
  then show ?thesis
    using mark_loop_zero [of i to pbuf CRON_FUEL] assms by simp
next
  case False
  show ?thesis
  proof (cases "step = 0")
    case True
    then show ?thesis
      using False by (simp add: CRON_FUEL_def numeral_eq_Suc)
  next
    case False
    then show ?thesis
      using mark_loop_returns [OF False assms turns_left_bound [OF assms(1)], of i] by auto
  qed
qed

lemma cron_parse_element_stays:
  assumes "unat hi < 128" and "unat hi < length pbuf"
  shows "stays (length pbuf) (cron_parse_element ps pbuf lo hi)"
proof -
  have le: "unat x < 128" "unat x < length pbuf" if "\<not> hi < x" for x
    using that assms by (simp_all add: word_less_nat_alt not_less)
  have run: "stays (length pbuf) (map_res (\<lambda>pbuf. (pbuf, ps)) (mark_loop CRON_FUEL i x step pbuf))"
    if "\<not> hi < x" for i x step ps
    by (rule mark_loop_stays) (use le [OF that] in simp_all)
  show ?thesis
    using assms le run [of hi]
    by (auto simp: cron_parse_element_def Let_def store_slot_def intro: run split: option.splits prod.splits)
qed

lemma element_loop_stays:
  "unat hi < 128 \<Longrightarrow> unat hi < length pbuf \<Longrightarrow> stays (length pbuf) (element_loop ps pbuf lo hi)"
proof (induction ps pbuf lo hi rule: element_loop.induct)
  case (1 ps pbuf lo hi)
  note step = cron_parse_element_stays [OF "1.prems", of "Some ps" lo]
  show ?case
  proof (cases "cron_parse_element (Some ps) pbuf lo hi")
    case (Inl f)
    then show ?thesis
      using step by (simp add: element_loop.simps)
  next
    case (Inr r)
    obtain buf q where r: "r = (buf, q)"
      by (cases r)
    have "length buf = length pbuf"
      using step Inr r by simp
    show ?thesis
    proof (cases "\<exists>a. q = Some a \<and> chr a = 44")
      case True
      then obtain a where a: "q = Some a" "chr a = 44"
        by blast
      then have "stays (length buf) (element_loop (tl a) buf lo hi)"
        using "1.IH" [OF Inr r [symmetric] a(1)] "1.prems" \<open>length buf = length pbuf\<close> by simp
      then show ?thesis
        using Inr r a \<open>length buf = length pbuf\<close> by (simp add: element_loop.simps [of ps])
    qed (use Inr r \<open>length buf = length pbuf\<close> in \<open>auto simp: element_loop.simps [of ps] split: option.splits\<close>)
  qed
qed

lemma cron_parse_list_stays:
  assumes "unat hi < 128" and "unat hi < length pbuf"
  shows "stays (length pbuf) (cron_parse_list ps pbuf lo hi)"
proof -
  have "stays (length pbuf) (map_res (\<lambda>(pbuf, ps). (pbuf, f ps)) r)" if "stays (length pbuf) r" for f r
    using that by (cases r) auto
  then show ?thesis
    using element_loop_stays [OF assms] mark_loop_stays [OF assms]
    by (auto simp: cron_parse_list_def Let_def split: option.splits)
qed

definition cron_sized :: "cron \<Rightarrow> bool" where
  "cron_sized st \<longleftrightarrow> length (cron_minutes st) = 60 \<and> length (cron_hours st) = 24 \<and>
     length (cron_mdays st) = 32 \<and> length (cron_months st) = 13 \<and> length (cron_wdays st) = 8"

lemma cron_clear_sized: "cron_sized cron_clear"
  by (simp add: cron_sized_def cron_clear_def)

definition cron_safe :: "('a \<Rightarrow> bool) \<Rightarrow> 'a res \<Rightarrow> bool" where
  "cron_safe P r \<longleftrightarrow> (case r of Inl f \<Rightarrow> f = Out_Of_Fuel | Inr x \<Rightarrow> P x)"

lemma cron_safe_simps [simp]: "cron_safe P (Inl f) \<longleftrightarrow> f = Out_Of_Fuel" "cron_safe P (Inr x) \<longleftrightarrow> P x"
  by (simp_all add: cron_safe_def)

lemma cron_safe_bind:
  assumes "cron_safe P r" and "\<And>x. P x \<Longrightarrow> cron_safe Q (f x)"
  shows "cron_safe Q (bind_res r f)"
  using assms by (cases r) auto

lemma stays_safe: "stays n r \<longleftrightarrow> cron_safe (\<lambda>(pbuf, ps). length pbuf = n) r"
  by (cases r) auto

lemma cron_parse_entry_safe:
  assumes "cron_sized st"
  shows "cron_safe (\<lambda>(st, ps). cron_sized st) (cron_parse_entry st ps)"
proof -
  have field: "cron_safe (\<lambda>(pbuf, ps). length pbuf = length b) (cron_parse_list ps b lo hi)"
    if "unat hi < 128" "unat hi < length b" for ps b lo hi
    using cron_parse_list_stays [OF that] by (simp add: stays_safe)
  show ?thesis
    unfolding cron_parse_entry_def
    using assms
    by (auto simp: cron_sized_def Let_def split: option.splits intro!: cron_safe_bind [OF field])
qed

lemma entry_loop_safe: "cron_sized st \<Longrightarrow> cron_safe cron_sized (entry_loop st ps)"
proof (induction st ps rule: entry_loop.induct)
  case (1 st ps)
  show ?case
  proof (cases "cron_parse_entry st (Some ps)")
    case (Inl f)
    then show ?thesis
      using cron_parse_entry_safe [OF "1.prems", of "Some ps"] by (simp add: entry_loop.simps)
  next
    case (Inr r)
    obtain st' q where r: "r = (st', q)"
      by (cases r)
    have st': "cron_sized st'"
      using cron_parse_entry_safe [OF "1.prems", of "Some ps"] Inr r by simp
    show ?thesis
    proof (cases q)
      case (Some p)
      then show ?thesis
        using "1.IH" [OF Inr r [symmetric] Some _ st'] Inr r st' by (simp add: entry_loop.simps [of st ps])
    qed (use Inr r st' in \<open>simp add: entry_loop.simps\<close>)
  qed
qed

lemma cron_check_safe:
  assumes "cron_sized st"
  shows "cron_safe (\<lambda>(st, lines, result). cron_sized st \<and> \<not> result) (cron_check st ps)"
proof -
  have loop: "cron_safe cron_sized (entry_loop cron_clear ps)" for ps
    by (rule entry_loop_safe [OF cron_clear_sized])
  show ?thesis
    unfolding cron_check_def
    using assms
    by (auto simp: Let_def load_slot_def store_slot_def cron_sized_def split: option.splits
        intro!: cron_safe_bind [OF loop])
qed

end
