(* ===== verification/Cron_Spec.thy ===== *)
theory Cron_Spec
  imports Cron_Marks
begin

text \<open>
  The meaning of a cron expression, and that the parser computes it: abstract expressions, the
  strings that write them, the slots they select, and the equality of the parsed arrays with
  those slots.
\<close>

section \<open>Abstract expressions\<close>

datatype cron_elem =
    Every
  | Every_Step nat
  | Value nat
  | Range nat nat
  | Range_Step nat nat nat

fun write_elem :: "cron_elem \<Rightarrow> bytes" where
  "write_elem Every = [42]"
| "write_elem (Every_Step s) = 42 # 47 # digits s"
| "write_elem (Value n) = digits n"
| "write_elem (Range a b) = digits a @ 45 # digits b"
| "write_elem (Range_Step a b s) = digits a @ 45 # digits b @ 47 # digits s"

text \<open>Well-formed for the positions from \<open>lo\<close> to \<open>hi\<close>; a step may not wrap the 8 bit position.\<close>

fun elem_ok :: "nat \<Rightarrow> nat \<Rightarrow> cron_elem \<Rightarrow> bool" where
  "elem_ok lo hi Every \<longleftrightarrow> True"
| "elem_ok lo hi (Every_Step s) \<longleftrightarrow> 0 < s \<and> hi + s < 256"
| "elem_ok lo hi (Value n) \<longleftrightarrow> lo \<le> n \<and> n \<le> hi"
| "elem_ok lo hi (Range a b) \<longleftrightarrow> lo \<le> a \<and> a \<le> hi \<and> b \<le> hi"
| "elem_ok lo hi (Range_Step a b s) \<longleftrightarrow> lo \<le> a \<and> a \<le> hi \<and> b \<le> hi \<and> 0 < s \<and> hi + s < 256"

text \<open>The positions an element selects.\<close>

fun selects :: "nat \<Rightarrow> nat \<Rightarrow> cron_elem \<Rightarrow> nat \<Rightarrow> bool" where
  "selects lo hi Every j \<longleftrightarrow> lo \<le> j \<and> j \<le> hi"
| "selects lo hi (Every_Step s) j \<longleftrightarrow> lo \<le> j \<and> j \<le> hi \<and> s dvd (j - lo)"
| "selects lo hi (Value n) j \<longleftrightarrow> j = n"
| "selects lo hi (Range a b) j \<longleftrightarrow> a \<le> j \<and> j \<le> b"
| "selects lo hi (Range_Step a b s) j \<longleftrightarrow> a \<le> j \<and> j \<le> b \<and> s dvd (j - a)"

fun write_list :: "cron_elem list \<Rightarrow> bytes" where
  "write_list [] = []"
| "write_list [e] = write_elem e"
| "write_list (e # es) = write_elem e @ 44 # write_list es"

definition list_ok :: "nat \<Rightarrow> nat \<Rightarrow> cron_elem list \<Rightarrow> bool" where
  "list_ok lo hi es \<longleftrightarrow> es \<noteq> [] \<and> list_all (elem_ok lo hi) es"

definition list_selects :: "nat \<Rightarrow> nat \<Rightarrow> cron_elem list \<Rightarrow> nat \<Rightarrow> bool" where
  "list_selects lo hi es j \<longleftrightarrow> list_ex (\<lambda>e. selects lo hi e j) es"

text \<open>An entry: minutes, hours, days of the month, months, days of the week.\<close>

datatype cron_entry = Entry (minutes_of: "cron_elem list") (hours_of: "cron_elem list")
  (mdays_of: "cron_elem list") (months_of: "cron_elem list") (wdays_of: "cron_elem list")

definition write_entry :: "cron_entry \<Rightarrow> bytes" where
  "write_entry e = write_list (minutes_of e) @ 32 # write_list (hours_of e) @ 32 #
     write_list (mdays_of e) @ 32 # write_list (months_of e) @ 32 # write_list (wdays_of e)"

definition entry_ok :: "cron_entry \<Rightarrow> bool" where
  "entry_ok e \<longleftrightarrow> list_ok 0 59 (minutes_of e) \<and> list_ok 0 23 (hours_of e) \<and>
     list_ok 1 31 (mdays_of e) \<and> list_ok 1 12 (months_of e) \<and> list_ok 0 6 (wdays_of e)"

fun write_entries :: "cron_entry list \<Rightarrow> bytes" where
  "write_entries [] = []"
| "write_entries [e] = write_entry e"
| "write_entries (e # es) = write_entry e @ 59 # write_entries es"

text \<open>The arrays with the positions of an entry set on top of what is there.\<close>

definition mark_entry :: "cron \<Rightarrow> cron_entry \<Rightarrow> cron" where
  "mark_entry st e = \<lparr>cron_minutes = mark (cron_minutes st) (list_selects 0 59 (minutes_of e)),
     cron_hours = mark (cron_hours st) (list_selects 0 23 (hours_of e)),
     cron_mdays = mark (cron_mdays st) (list_selects 1 31 (mdays_of e)),
     cron_months = mark (cron_months st) (list_selects 1 12 (months_of e)),
     cron_wdays = mark (cron_wdays st) (list_selects 0 6 (wdays_of e))\<rparr>"

section \<open>Numbers and elements\<close>

lemma number_loop_append:
  "\<forall>c \<in> set ds. isdigit c \<Longrightarrow> \<not> isdigit (chr rest) \<Longrightarrow>
   number_loop (ds @ rest) n = (rest, foldl (\<lambda>n c. n * 10 + (c - 48)) n ds)"
proof (induction ds arbitrary: n)
  case Nil
  then show ?case
    by (cases rest) auto
qed simp

lemma parse_number_digits:
  assumes "\<not> isdigit (chr rest)"
  shows "cron_parse_number (digits n @ rest) = (rest, of_nat n)"
proof -
  have "foldl (\<lambda>n c. n * 10 + (c - 48)) (of_nat 0) (digits n) = (of_nat n :: u8)"
    by (rule digits_fold) (simp add: digit_def algebra_simps)
  then show ?thesis
    using number_loop_append [of "digits n" rest 0] digits_isdigit [of _ n] assms
    by (simp add: cron_parse_number_def)
qed

text \<open>What may follow an element: the end, a blank, a comma or a semicolon.\<close>

definition ends_elem :: "bytes \<Rightarrow> bool" where
  "ends_elem rest \<longleftrightarrow> chr rest \<in> {0, 32, 44, 59}"

lemma ends_elem_chr:
  "ends_elem rest \<Longrightarrow> \<not> isdigit (chr rest) \<and> chr rest \<noteq> 45 \<and> chr rest \<noteq> 47"
  by (auto simp: ends_elem_def isdigit_def)

lemma step_suffix_digits:
  "ends_elem rest \<Longrightarrow> step_suffix (47 # digits s @ rest) = (rest, of_nat s)"
  "ends_elem rest \<Longrightarrow> step_suffix rest = (rest, 1)"
  using parse_number_digits [of rest s] by (auto simp: step_suffix_def dest: ends_elem_chr)

lemma write_elem_chr: "\<not> isspace (chr (write_elem e @ rest))" "chr (write_elem e @ rest) = 42 \<or> isdigit (chr (write_elem e @ rest))"
  using digits_chr isdigit_not_space by (cases e; fastforce simp: isspace_def)+

lemma u8_of_nat:
  "n < 256 \<Longrightarrow> unat (of_nat n :: u8) = n"
  "a < 256 \<Longrightarrow> b < 256 \<Longrightarrow> (of_nat a :: u8) < of_nat b \<longleftrightarrow> a < b"
  "0 < n \<Longrightarrow> n < 256 \<Longrightarrow> (of_nat n :: u8) \<noteq> 0"
proof -
  show u: "unat (of_nat n :: u8) = n" if "n < 256" for n
    using that by (simp add: unat_of_nat)
  show "a < 256 \<Longrightarrow> b < 256 \<Longrightarrow> (of_nat a :: u8) < of_nat b \<longleftrightarrow> a < b"
    by (simp add: word_less_nat_alt u)
  show "0 < n \<Longrightarrow> n < 256 \<Longrightarrow> (of_nat n :: u8) \<noteq> 0"
    using u [of n] by auto
qed

lemma mark_loop_nat:
  assumes "0 < s" and "b + s < 256" and "b < length pbuf" and "a < 256"
  shows "mark_loop CRON_FUEL (of_nat a) (of_nat b) (of_nat s) pbuf =
    Inr (mark pbuf (\<lambda>j. a \<le> j \<and> j \<le> b \<and> s dvd (j - a)))"
  using mark_loop_marks [of "of_nat s" "of_nat b" pbuf "of_nat a" CRON_FUEL] assms
  by (simp add: u8_of_nat CRON_FUEL_def)

lemma mark_loop_every:
  assumes "b < 255" and "b < length pbuf" and "a < 256"
  shows "mark_loop CRON_FUEL (of_nat a) (of_nat b) 1 pbuf = Inr (mark pbuf (\<lambda>j. a \<le> j \<and> j \<le> b))"
  using mark_loop_nat [of 1 b pbuf a] assms by simp

text \<open>An element of the expression sets the positions it selects.\<close>

lemma parse_star:
  assumes "chr ps = 42" and "step_suffix (tl ps) = (rest, step)"
  shows "cron_parse_element (Some ps) pbuf lo hi =
    map_res (\<lambda>pbuf. (pbuf, Some rest)) (mark_loop CRON_FUEL lo hi step pbuf)"
  using assms by (simp add: cron_parse_element_def isspace_def)

lemma parse_value:
  assumes "lo \<le> n" and "n \<le> hi" and "hi < 128" and "hi < length pbuf" and "ends_elem rest"
  shows "cron_parse_element (Some (digits n @ rest)) pbuf (of_nat lo) (of_nat hi) =
    Inr (mark pbuf (\<lambda>j. j = n), Some rest)"
proof -
  have c: "isdigit (chr (digits n @ rest))"
    by (rule digits_chr)
  then have "chr (digits n @ rest) \<noteq> 42" "\<not> isspace (chr (digits n @ rest))"
    using isdigit_not_space by (auto simp: isdigit_def)
  then show ?thesis
    using assms c parse_number_digits [of rest n] ends_elem_chr [OF assms(5)]
    by (simp add: cron_parse_element_def u8_of_nat store_slot_def update_mark)
qed

lemma parse_range:
  assumes "lo \<le> a" and "a \<le> hi" and "b \<le> hi" and "hi < 128"
    and suffix: "step_suffix rest = (rest', step)" and "\<not> isdigit (chr rest)"
  shows "cron_parse_element (Some (digits a @ 45 # digits b @ rest)) pbuf (of_nat lo) (of_nat hi) =
    map_res (\<lambda>pbuf. (pbuf, Some rest')) (mark_loop CRON_FUEL (of_nat a) (of_nat b) step pbuf)"
proof -
  let ?s = "digits a @ 45 # digits b @ rest"
  have c: "isdigit (chr ?s)"
    by (rule digits_chr)
  then have "chr ?s \<noteq> 42" "\<not> isspace (chr ?s)"
    using isdigit_not_space by (auto simp: isdigit_def)
  moreover have "cron_parse_number ?s = (45 # digits b @ rest, of_nat a)"
    by (rule parse_number_digits) (simp add: isdigit_def)
  ultimately show ?thesis
    using assms c parse_number_digits [of rest b]
    by (simp add: cron_parse_element_def u8_of_nat)
qed

lemma selects_fun:
  "selects lo hi Every = (\<lambda>j. lo \<le> j \<and> j \<le> hi)"
  "selects lo hi (Every_Step s) = (\<lambda>j. lo \<le> j \<and> j \<le> hi \<and> s dvd (j - lo))"
  "selects lo hi (Value n) = (\<lambda>j. j = n)"
  "selects lo hi (Range a b) = (\<lambda>j. a \<le> j \<and> j \<le> b)"
  "selects lo hi (Range_Step a b s) = (\<lambda>j. a \<le> j \<and> j \<le> b \<and> s dvd (j - a))"
  by (auto simp: fun_eq_iff)

lemma parse_elem:
  assumes ok: "elem_ok lo hi e" and sz: "hi < 128" "lo \<le> hi" "hi < length pbuf" and rest: "ends_elem rest"
  shows "cron_parse_element (Some (write_elem e @ rest)) pbuf (of_nat lo) (of_nat hi) =
    Inr (mark pbuf (selects lo hi e), Some rest)"
proof (cases e)
  case Every
  then show ?thesis
    using parse_star [of "42 # rest"] step_suffix_digits(2) [OF rest] mark_loop_every [of hi pbuf lo] sz
    by (simp add: selects_fun)
next
  case (Every_Step s)
  then show ?thesis
    using parse_star [of "42 # 47 # digits s @ rest"] step_suffix_digits(1) [OF rest]
      mark_loop_nat [of s hi pbuf lo] sz ok by (simp add: selects_fun)
next
  case (Value n)
  then show ?thesis
    using parse_value [OF _ _ sz(1,3) rest] ok by (simp add: selects_fun)
next
  case (Range a b)
  then show ?thesis
    using parse_range [of lo a hi b rest] step_suffix_digits(2) [OF rest] mark_loop_every [of b pbuf a] sz ok
      ends_elem_chr [OF rest] by (simp add: selects_fun)
next
  case (Range_Step a b s)
  then show ?thesis
    using parse_range [of lo a hi b "47 # digits s @ rest"] step_suffix_digits(1) [OF rest, of s]
      mark_loop_nat [of s b pbuf a] sz ok by (simp add: isdigit_def selects_fun)
qed

section \<open>Lists, entries and expressions\<close>

text \<open>What may follow a list: the end, a blank or a semicolon.\<close>

definition ends_list :: "bytes \<Rightarrow> bool" where
  "ends_list rest \<longleftrightarrow> chr rest \<in> {0, 32, 59}"

lemma ends_list_elem: "ends_list rest \<Longrightarrow> ends_elem rest"
  by (auto simp: ends_list_def ends_elem_def)

lemma list_selects_Cons: "list_selects lo hi (e # es) = (\<lambda>j. selects lo hi e j \<or> list_selects lo hi es j)"
  by (simp add: list_selects_def fun_eq_iff)

lemma element_loop_list:
  assumes sz: "hi < 128" "lo \<le> hi" and rest: "ends_list rest"
  shows "list_ok lo hi es \<Longrightarrow> hi < length pbuf \<Longrightarrow>
    element_loop (write_list es @ rest) pbuf (of_nat lo) (of_nat hi) =
      Inr (mark pbuf (list_selects lo hi es), Some rest)"
proof (induction es arbitrary: pbuf rule: write_list.induct)
  case (2 e)
  have "chr rest \<noteq> 44"
    using rest by (auto simp: ends_list_def)
  moreover have "list_selects lo hi [e] = selects lo hi e"
    by (simp add: list_selects_def fun_eq_iff)
  ultimately show ?case
    using parse_elem [OF _ sz "2.prems"(2) ends_list_elem [OF rest], of e] "2.prems"(1)
    by (simp add: element_loop.simps [of "_ @ _"] list_ok_def)
next
  case (3 e e' es)
  let ?tail = "write_list (e' # es) @ rest"
  have "cron_parse_element (Some (write_elem e @ 44 # ?tail)) pbuf (of_nat lo) (of_nat hi) =
      Inr (mark pbuf (selects lo hi e), Some (44 # ?tail))"
    by (rule parse_elem) (use "3.prems" sz in \<open>simp_all add: list_ok_def ends_elem_def\<close>)
  moreover have "element_loop ?tail (mark pbuf (selects lo hi e)) (of_nat lo) (of_nat hi) =
      Inr (mark (mark pbuf (selects lo hi e)) (list_selects lo hi (e' # es)), Some rest)"
    by (rule "3.IH") (use "3.prems" in \<open>simp_all add: list_ok_def\<close>)
  ultimately show ?case
    by (simp add: element_loop.simps [of "_ @ _"] mark_mark list_selects_Cons)
qed (simp add: list_ok_def)

lemma write_list_chr:
  assumes "es \<noteq> []"
  shows "\<not> isspace (chr (write_list es @ rest))" "\<not> cron_eol (write_list es @ rest)"
    "chr (write_list es @ rest) \<notin> {0, 76, 90}"
proof -
  obtain e rest' where "write_list es @ rest = write_elem e @ rest'"
    using assms by (cases es rule: write_list.cases) auto
  then show "\<not> isspace (chr (write_list es @ rest))" "\<not> cron_eol (write_list es @ rest)"
    "chr (write_list es @ rest) \<notin> {0, 76, 90}"
    using write_elem_chr [of e rest'] by (auto simp: cron_eol_def isdigit_def)
qed

lemma parse_list:
  assumes sz: "hi < 128" "lo \<le> hi" "hi < length pbuf" and rest: "ends_list rest" and ok: "list_ok lo hi es"
  shows "cron_parse_list (Some (write_list es @ rest)) pbuf (of_nat lo) (of_nat hi) =
    Inr (mark pbuf (list_selects lo hi es), Some rest)"
proof -
  have "isspace (chr rest) \<or> cron_eol rest"
    using rest by (auto simp: ends_list_def cron_eol_def)
  then show ?thesis
    using element_loop_list [OF sz(1,2) rest ok sz(3)] write_list_chr [of es rest] ok
    by (auto simp: cron_parse_list_def list_ok_def)
qed

lemma parse_list_blank:
  "cron_parse_list (Some (32 # ps)) pbuf lo hi = cron_parse_list (Some ps) pbuf lo hi"
  by (simp add: cron_parse_list_def)

lemmas parse_fields =
  parse_list [where lo = 0 and hi = 59, simplified] parse_list [where lo = 0 and hi = 23, simplified]
  parse_list [where lo = 1 and hi = 31, simplified] parse_list [where lo = 1 and hi = 12, simplified]
  parse_list [where lo = 0 and hi = 6, simplified]

definition ends_entry :: "bytes \<Rightarrow> bool" where
  "ends_entry rest \<longleftrightarrow> chr rest \<in> {0, 59}"

lemma parse_entry:
  assumes st: "cron_sized st" and ok: "entry_ok e" and rest: "ends_entry rest"
  shows "cron_parse_entry st (Some (write_entry e @ rest)) =
    Inr (mark_entry st e, Some (skip_spaces (if chr rest = 59 then tl rest else rest)))"
proof -
  have blank: "ends_list (32 # ps)" for ps
    by (simp add: ends_list_def)
  have l: "ends_list rest" "skip_entry rest = rest"
    using rest skip_entry_id [of rest] by (auto simp: ends_list_def ends_entry_def cron_eol_def)
  show ?thesis
    using st ok unfolding cron_sized_def entry_ok_def
    by (simp add: cron_parse_entry_def write_entry_def parse_fields parse_list_blank blank l mark_entry_def)
qed

lemma mark_entry_sized: "cron_sized st \<Longrightarrow> cron_sized (mark_entry st e)"
  by (simp add: cron_sized_def mark_entry_def)

lemma write_entry_chr: "entry_ok e \<Longrightarrow> \<not> isspace (chr (write_entry e @ rest)) \<and>
  chr (write_entry e @ rest) \<notin> {0, 76, 90}"
  using write_list_chr [of "minutes_of e"] by (simp add: write_entry_def entry_ok_def list_ok_def)

lemma write_entries_chr:
  assumes "list_all entry_ok es" and "es \<noteq> []"
  shows "\<not> isspace (chr (write_entries es)) \<and> chr (write_entries es) \<notin> {0, 76, 90}"
  using assms write_entry_chr [of "hd es" "[]"] write_entry_chr [of "hd es" "59 # write_entries (tl es)"]
  by (cases es rule: write_entries.cases) auto

lemma parse_entries:
  "cron_sized st \<Longrightarrow> list_all entry_ok es \<Longrightarrow> es \<noteq> [] \<Longrightarrow>
   entry_loop st (write_entries es) = Inr (foldl mark_entry st es)"
proof (induction es arbitrary: st rule: write_entries.induct)
  case (2 e)
  have "cron_parse_entry st (Some (write_entry e)) = Inr (mark_entry st e, Some [])"
    using parse_entry [OF "2.prems"(1), of e "[]"] "2.prems"(2) by (simp add: ends_entry_def)
  then show ?case
    by (simp add: entry_loop.simps)
next
  case (3 e e' es)
  let ?tail = "write_entries (e' # es)"
  have t: "\<not> isspace (chr ?tail)" "chr ?tail \<noteq> 0"
    using write_entries_chr [of "e' # es"] "3.prems"(2) by auto
  then have "cron_parse_entry st (Some (write_entry e @ 59 # ?tail)) = Inr (mark_entry st e, Some ?tail)"
    using parse_entry [OF "3.prems"(1), of e "59 # ?tail"] "3.prems"(2) by (simp add: ends_entry_def)
  moreover have "entry_loop (mark_entry st e) ?tail = Inr (foldl mark_entry (mark_entry st e) (e' # es))"
    by (rule "3.IH") (use "3.prems" mark_entry_sized in auto)
  ultimately show ?case
    using t by (simp add: entry_loop.simps [of st])
qed simp

lemma wdays_only_six:
  assumes "list_all entry_ok es" and "cron_sized st" and "cron_wdays st ! 7 = 0"
  shows "cron_wdays (foldl mark_entry st es) ! 7 = 0" and "cron_sized (foldl mark_entry st es)"
proof -
  have sel: "\<not> selects lo hi x j" if "elem_ok lo hi x" "hi < j" for lo hi x j
    using that by (cases x) auto
  have "cron_wdays (foldl mark_entry st es) ! 7 = 0 \<and> cron_sized (foldl mark_entry st es)"
    using assms
  proof (induction es arbitrary: st)
    case (Cons e es)
    have "\<not> list_selects 0 6 (wdays_of e) 7"
      using Cons.prems(1) sel [of 0 6 _ 7] by (auto simp: list_selects_def entry_ok_def list_ok_def list_all_iff list_ex_iff)
    then have "cron_wdays (mark_entry st e) ! 7 = 0"
      using Cons.prems by (simp add: mark_entry_def cron_sized_def)
    then show ?case
      using Cons.IH [of "mark_entry st e"] Cons.prems mark_entry_sized by simp
  qed simp
  then show "cron_wdays (foldl mark_entry st es) ! 7 = 0" "cron_sized (foldl mark_entry st es)"
    by simp_all
qed

lemma check_entries:
  assumes ok: "list_all entry_ok es" and ne: "es \<noteq> []"
  shows "cron_check st (Some (write_entries es)) =
    (let st = foldl mark_entry cron_clear es in Inr (st, print_cron_arrays st, False))"
proof -
  let ?st = "foldl mark_entry cron_clear es"
  note c = write_entries_chr [OF ok ne]
  have "cron_wdays ?st ! 7 = 0" "cron_sized ?st"
    using wdays_only_six [OF ok cron_clear_sized] by (simp_all add: cron_clear_def)
  then show ?thesis
    using c parse_entries [OF cron_clear_sized ok ne]
    by (simp add: cron_check_def load_slot_def cron_sized_def)
qed

section \<open>Slot by slot\<close>

lemma mark_entries_fields:
  "cron_minutes (foldl mark_entry st es) = mark (cron_minutes st) (\<lambda>j. \<exists>e \<in> set es. list_selects 0 59 (minutes_of e) j)"
  "cron_hours (foldl mark_entry st es) = mark (cron_hours st) (\<lambda>j. \<exists>e \<in> set es. list_selects 0 23 (hours_of e) j)"
  "cron_mdays (foldl mark_entry st es) = mark (cron_mdays st) (\<lambda>j. \<exists>e \<in> set es. list_selects 1 31 (mdays_of e) j)"
  "cron_months (foldl mark_entry st es) = mark (cron_months st) (\<lambda>j. \<exists>e \<in> set es. list_selects 1 12 (months_of e) j)"
  "cron_wdays (foldl mark_entry st es) = mark (cron_wdays st) (\<lambda>j. \<exists>e \<in> set es. list_selects 0 6 (wdays_of e) j)"
  by (induction es arbitrary: st) (simp_all add: mark_none mark_entry_def mark_mark)

lemma mark_replicate:
  "mark (replicate n 0) P = map (\<lambda>j. if P j then 1 else 0) [0..<n]"
  by (rule nth_equalityI) auto

text \<open>The letter that selects local or universal time is skipped.\<close>

lemma check_prefix:
  assumes "list_all entry_ok es" and "es \<noteq> []" and "pre \<in> {[], [76], [90]}"
  shows "cron_check st (Some (pre @ write_entries es)) = cron_check st (Some (write_entries es))"
  using assms(3) write_entries_chr [OF assms(1,2)] by (auto simp: cron_check_def isspace_def)

text \<open>A day of the week beyond Saturday is taken for Saturday.\<close>

lemma weekday_clipped:
  assumes "6 < n" and "n < 256" and "7 \<le> length pbuf" and rest: "ends_list rest"
  shows "cron_parse_list (Some (digits n @ rest)) pbuf 0 6 = Inr (pbuf[6 := 1], Some rest)"
proof -
  have c: "isdigit (chr (digits n @ rest))"
    by (rule digits_chr)
  then have "chr (digits n @ rest) \<notin> {0, 42, 59}" "\<not> isspace (chr (digits n @ rest))"
    using isdigit_not_space by (auto simp: isdigit_def)
  moreover have "(6 :: u8) < of_nat n"
    using u8_of_nat(2) [of 6 n] assms(1,2) by simp
  moreover have "chr rest \<noteq> 44" "isspace (chr rest) \<or> cron_eol rest"
    using rest by (auto simp: ends_list_def cron_eol_def)
  ultimately show ?thesis
    using c parse_number_digits [of rest n] ends_elem_chr [OF ends_list_elem [OF rest]] assms(3)
    by (auto simp: cron_parse_list_def cron_parse_element_def element_loop.simps [of "_ @ _"] cron_eol_def
        store_slot_def)
qed

end
