(* ===== verification/Cron_Properties.thy ===== *)
theory Cron_Properties
  imports Cron_Spec
begin

text \<open>
  The properties of the cron parser of \<^verbatim>\<open>daemon/srcs/lib/cron-parse.c\<close>.
\<close>

text \<open>\<^verbatim>\<open>0,30 9-17/2 * * 1-5;15 8 1 1,6 0\<close>\<close>

definition sample_cron :: "cron_entry list" where
  "sample_cron = [Entry [Value 0, Value 30] [Range_Step 9 17 2] [Every] [Every] [Range 1 5],
     Entry [Value 15] [Value 8] [Value 1] [Value 1, Value 6] [Value 0]]"

lemma sample_cron_ok: "list_all entry_ok sample_cron" "sample_cron \<noteq> []"
  by (simp_all add: sample_cron_def entry_ok_def list_ok_def)

text \<open>
  C12: for every well-formed expression, written with or without the time zone letter, the
  arrays hold a 1 exactly at the minutes, hours, days, months and weekdays that one of its
  entries selects and 0 elsewhere, whatever they held before; the answer is false all the same.
\<close>

theorem cron_expression_denotes:
  assumes "list_all entry_ok es" and "es \<noteq> []" and "pre \<in> {[], [76], [90]}"
  shows "\<exists>st'. cron_check st (Some (pre @ write_entries es)) = Inr (st', print_cron_arrays st', False) \<and>
    cron_minutes st' = map (\<lambda>j. if \<exists>e \<in> set es. list_selects 0 59 (minutes_of e) j then 1 else 0) [0..<60] \<and>
    cron_hours st' = map (\<lambda>j. if \<exists>e \<in> set es. list_selects 0 23 (hours_of e) j then 1 else 0) [0..<24] \<and>
    cron_mdays st' = map (\<lambda>j. if \<exists>e \<in> set es. list_selects 1 31 (mdays_of e) j then 1 else 0) [0..<32] \<and>
    cron_months st' = map (\<lambda>j. if \<exists>e \<in> set es. list_selects 1 12 (months_of e) j then 1 else 0) [0..<13] \<and>
    cron_wdays st' = map (\<lambda>j. if \<exists>e \<in> set es. list_selects 0 6 (wdays_of e) j then 1 else 0) [0..<8]"
  using check_prefix [OF assms] check_entries [OF assms(1,2)]
  by (simp add: Let_def mark_entries_fields cron_clear_def mark_replicate)

theorem cron_expression_denotes_witness:
  "\<exists>st'. cron_check cron_clear (Some (90 # write_entries sample_cron)) = Inr (st', print_cron_arrays st', False) \<and>
     cron_hours st' ! 9 = 1 \<and> cron_hours st' ! 10 = 0 \<and> cron_wdays st' ! 0 = 1"
  using cron_expression_denotes [OF sample_cron_ok, of "[90]" cron_clear]
  by (auto simp: sample_cron_def list_selects_def)

text \<open>
  C23: no expression whatsoever makes the parser write outside its five arrays: it either leaves arrays of the same sizes and answers false, or is caught
  in a loop that does not advance.
\<close>

theorem cron_parser_safe:
  assumes "cron_sized st"
  shows "cron_check st ps = Inl Out_Of_Fuel \<or>
    (\<exists>st' lines. cron_check st ps = Inr (st', lines, False) \<and> cron_sized st')"
  using cron_check_safe [OF assms, of ps] by (cases "cron_check st ps") auto

theorem cron_parser_safe_witness:
  "\<exists>st' lines. cron_check cron_clear (Some [42, 45, 57, 57]) = Inr (st', lines, False) \<and> cron_sized st'"
proof -
  have "cron_check cron_clear (Some [42, 45, 57, 57]) \<noteq> Inl Out_Of_Fuel"
    by code_simp
  then show ?thesis
    using cron_parser_safe [OF cron_clear_sized, of "Some [42, 45, 57, 57]"] by auto
qed

text \<open>
  C35: the loop that marks a range ends exactly when the step is not zero: then the turns of
  \<open>CRON_FUEL\<close> are enough even where the 8 bit position wraps, and with the step zero that an
  expression such as \<^verbatim>\<open>*/0\<close> or \<^verbatim>\<open>*/x\<close> gives no number of turns is.
\<close>

theorem step_loop_ends_iff:
  assumes "unat hi < 128" and "unat hi < length pbuf" and "i \<le> hi"
  shows "if step = 0 then \<forall>k. mark_loop k i hi step pbuf = Inl Out_Of_Fuel
    else \<exists>pbuf'. mark_loop CRON_FUEL i hi step pbuf = Inr pbuf' \<and> length pbuf' = length pbuf"
  using mark_loop_zero [OF assms(3,2)] mark_loop_returns [OF _ assms(1,2) turns_left_bound [OF assms(1)]]
  by simp

theorem step_loop_ends_iff_witness:
  "(\<forall>k. mark_loop k 0 59 0 (cron_minutes cron_clear) = Inl Out_Of_Fuel) \<and>
   (\<exists>pbuf'. mark_loop CRON_FUEL 0 59 250 (cron_minutes cron_clear) = Inr pbuf')"
  using step_loop_ends_iff [of 59 "cron_minutes cron_clear" 0 0]
    step_loop_ends_iff [of 59 "cron_minutes cron_clear" 0 250]
  by (auto simp: cron_clear_def)

end
