(* ===== verification/Format.thy ===== *)
theory Format
  imports Text Memory
begin

text \<open>
  The formatter of \<^verbatim>\<open>daemon/srcs/lib/stringf.c\<close>: conversions write into a bounded buffer that
  counts what it stores and what it has to drop. Lengths are those of objects in memory, so they
  are natural numbers; the converted integers keep their width. The arguments of the variadic
  functions are a list, read from the front by \<^verbatim>\<open>va_arg\<close>.
\<close>

section \<open>The bounded buffer\<close>

record iobuf =
  io_data :: bytes
  io_cap :: nat
  io_len :: nat
  io_disc :: nat
  io_width :: nat

definition IOBUF_MAX :: nat where
  "IOBUF_MAX = 4096"

text \<open>The loop of \<open>iob_write\<close>: the block, how many bytes were stored, how many are left.\<close>

fun copy_loop :: "bytes \<Rightarrow> nat \<Rightarrow> nat \<Rightarrow> bytes \<Rightarrow> nat \<Rightarrow> (bytes \<times> nat \<times> nat) res" where
  "copy_loop data cap len [] i = Inr (data, i, 0)"
| "copy_loop data cap len (c # src) i =
     (if len + i < cap
      then bind_res (store_byte data (len + i) c) (\<lambda>data. copy_loop data cap len src (i + 1))
      else Inr (data, i, length (c # src)))"

text \<open>\<open>src\<close> are the \<open>n\<close> bytes the caller passes.\<close>

definition iob_write :: "iobuf \<Rightarrow> bytes \<Rightarrow> iobuf res" where
  "iob_write iob src =
     map_res (\<lambda>(data, i, n). iob\<lparr>io_data := data, io_len := io_len iob + i, io_disc := io_disc iob + n\<rparr>)
       (copy_loop (io_data iob) (io_cap iob) (io_len iob) src 0)"

section \<open>Conversions\<close>

text \<open>\<open>buf[--i] = c\<close> in a local array of \<open>n\<close> bytes that is filled from its end.\<close>

definition push_front :: "nat \<Rightarrow> bytes \<Rightarrow> u8 \<Rightarrow> bytes res" where
  "push_front n buf c = (if length buf < n then Inr (c # buf) else Inl Out_Of_Bounds)"

definition hexit :: "nat \<Rightarrow> u8" where
  "hexit d = of_nat (if d < 10 then 48 + d else 87 + d)"

definition chr_field :: "iobuf \<Rightarrow> u32 \<Rightarrow> iobuf res" where
  "chr_field iob c =
     (if 32 \<le> sint c \<and> sint c \<le> 126 then iob_write iob [ucast c]
      else iob_write iob [92, hexit (unat (drop_bit 4 c AND 0xF)), hexit (unat (c AND 0xF))])"

function hex_loop :: "nat \<Rightarrow> u64 \<Rightarrow> bytes \<Rightarrow> bytes res" where
  "hex_loop n tmp buf =
     (if length buf < n \<and> tmp \<noteq> 0
      then bind_res (push_front n buf (hexit (unat (tmp AND 0xF)))) (\<lambda>buf. hex_loop n (drop_bit 4 tmp) buf)
      else Inr buf)"
  by pat_completeness auto
termination
  by (relation "measure (\<lambda>(n, tmp, buf). n - length buf)") (auto simp: push_front_def)

declare hex_loop.simps [simp del]

definition hex_field :: "iobuf \<Rightarrow> u32 \<Rightarrow> iobuf res" where
  "hex_field iob n =
     bind_res (if n = 0 then push_front 16 [] 48 else hex_loop 16 (ucast n) []) (iob_write iob)"

function dec_loop :: "u32 \<Rightarrow> bytes \<Rightarrow> bytes res" where
  "dec_loop n buf =
     (if n \<noteq> 0 then bind_res (push_front 20 buf ((ucast (n mod 10)) OR 0x30)) (\<lambda>buf. dec_loop (n div 10) buf)
      else Inr buf)"
  by pat_completeness auto
termination
  by (relation "measure (\<lambda>(n, buf). unat n)") (auto simp: unat_div unat_gt_0 intro!: div_less_dividend)

declare dec_loop.simps [simp del]

text \<open>The least integer, whose product \<^verbatim>\<open>c * -1\<close> is no \<^verbatim>\<open>int\<close>: a signed overflow.\<close>

abbreviation INT_MIN :: u32 where
  "INT_MIN \<equiv> 0x80000000"

definition int_field :: "iobuf \<Rightarrow> u32 \<Rightarrow> iobuf res" where
  "int_field iob c =
     (if c = INT_MIN then Inl Signed_Overflow
      else let n = (if sint c < 0 then - c else c) in
      bind_res (if n = 0 then push_front 20 [] 48 else Inr []) (\<lambda>nbr.
      bind_res (dec_loop n nbr) (\<lambda>nbr.
      bind_res (if sint c < 0 then push_front 20 nbr 45 else Inr nbr) (iob_write iob))))"

definition ptr_field :: "iobuf \<Rightarrow> u64 \<Rightarrow> iobuf res" where
  "ptr_field iob p =
     bind_res (if p = 0 then push_front 18 [] 48 else Inr []) (\<lambda>hex.
     bind_res (hex_loop 18 p hex) (\<lambda>hex.
     bind_res (push_front 18 hex 120) (\<lambda>hex.
     bind_res (push_front 18 hex 48) (iob_write iob))))"

definition str_field :: "iobuf \<Rightarrow> bytes option \<Rightarrow> iobuf res" where
  "str_field iob s = (case s of
      Some s \<Rightarrow> iob_write iob s
    | None \<Rightarrow> iob_write iob [40, 110, 117, 108, 108, 41])"

section \<open>Format strings\<close>

text \<open>An argument: an \<^verbatim>\<open>int\<close> (or its unsigned type), a string or NULL, another pointer.\<close>

datatype va = VInt u32 | VStr "bytes option" | VPtr u64

fun va_int :: "va list \<Rightarrow> (u32 \<times> va list) res" where
  "va_int (VInt n # ap) = Inr (n, ap)"
| "va_int _ = Inl Bad_Va_Arg"

fun va_str :: "va list \<Rightarrow> (bytes option \<times> va list) res" where
  "va_str (VStr s # ap) = Inr (s, ap)"
| "va_str _ = Inl Bad_Va_Arg"

fun va_ptr :: "va list \<Rightarrow> (u64 \<times> va list) res" where
  "va_ptr (VPtr p # ap) = Inr (p, ap)"
| "va_ptr _ = Inl Bad_Va_Arg"

text \<open>The buffer, the format after the field, and the arguments that are left.\<close>

definition format_field :: "iobuf \<Rightarrow> bytes \<Rightarrow> va list \<Rightarrow> (iobuf \<times> bytes \<times> va list) res" where
  "format_field iob ptr ap =
     (if chr ptr = 100 then
        bind_res (va_int ap) (\<lambda>(n, ap). map_res (\<lambda>iob. (iob, tl ptr, ap)) (int_field iob n))
      else if chr ptr = 115 then
        bind_res (va_str ap) (\<lambda>(s, ap). map_res (\<lambda>iob. (iob, tl ptr, ap)) (str_field iob s))
      else if chr ptr = 99 then
        bind_res (va_int ap) (\<lambda>(c, ap). map_res (\<lambda>iob. (iob, tl ptr, ap)) (chr_field iob c))
      else if chr ptr = 120 then
        bind_res (va_int ap) (\<lambda>(n, ap). map_res (\<lambda>iob. (iob, tl ptr, ap)) (hex_field iob n))
      else if chr ptr = 112 then
        bind_res (va_ptr ap) (\<lambda>(p, ap). map_res (\<lambda>iob. (iob, tl ptr, ap)) (ptr_field iob p))
      else map_res (\<lambda>iob. (iob, ptr, ap)) (iob_write iob [37]))"

lemma format_field_length:
  "format_field iob ptr ap = Inr (iob', ptr', ap') \<Longrightarrow> length ptr' \<le> length ptr"
  by (auto simp: format_field_def bind_res_Inr_iff map_res_Inr_iff split: if_splits)

function iob_format_str :: "iobuf \<Rightarrow> bytes \<Rightarrow> va list \<Rightarrow> iobuf res" where
  "iob_format_str iob [] ap = Inr iob"
| "iob_format_str iob (c # ptr) ap =
     (if c \<noteq> 37 then bind_res (iob_write iob [c]) (\<lambda>iob. iob_format_str iob ptr ap)
      else bind_res (format_field (iob\<lparr>io_width := 0\<rparr>) ptr ap) (\<lambda>(iob, ptr, ap). iob_format_str iob ptr ap))"
  by pat_completeness auto
termination
  by (relation "measure (\<lambda>(iob, ptr, ap). length ptr)") (auto dest!: format_field_length)

definition iob_init :: "bytes \<Rightarrow> nat \<Rightarrow> iobuf" where
  "iob_init data cap = \<lparr>io_data = data, io_cap = cap, io_len = 0, io_disc = 0, io_width = 0\<rparr>"

text \<open>\<open>dst\<close> is the block the destination points to; the results are the block and the count.\<close>

definition cpyf :: "bytes \<Rightarrow> nat \<Rightarrow> bytes \<Rightarrow> va list \<Rightarrow> (bytes \<times> nat) res" where
  "cpyf dst dstsize fmt ap =
     map_res (\<lambda>iob. (io_data iob, io_len iob + io_disc iob)) (iob_format_str (iob_init dst dstsize) fmt ap)"

definition scpyf :: "bytes \<Rightarrow> bytes \<Rightarrow> va list \<Rightarrow> (bytes \<times> nat) res" where
  "scpyf str fmt ap =
     bind_res (iob_format_str (iob_init str (IOBUF_MAX - 1)) fmt ap) (\<lambda>iob.
       map_res (\<lambda>data. (data, io_len iob + io_disc iob)) (store_byte (io_data iob) (io_len iob) 0))"

definition slcpyf :: "bytes \<Rightarrow> nat \<Rightarrow> bytes \<Rightarrow> va list \<Rightarrow> (bytes \<times> nat) res" where
  "slcpyf dst dstsize fmt ap =
     bind_res (iob_format_str (iob_init dst dstsize) fmt ap) (\<lambda>iob.
       map_res (\<lambda>data. (data, io_len iob + io_disc iob))
         (if dstsize \<noteq> 0
          then store_byte (io_data iob) (io_len iob - (if io_len iob = dstsize then 1 else 0)) 0
          else Inr (io_data iob)))"

text \<open>
  \<open>buf\<close> is the static buffer; the results are the string in the new block, NULL when the block
  is not granted, and the count.
\<close>

definition ssavef :: "allocator \<Rightarrow> bytes \<Rightarrow> bytes \<Rightarrow> va list \<Rightarrow> (bytes option \<times> int) res" where
  "ssavef al buf fmt ap =
     map_res (\<lambda>iob.
         if grants al (of_nat (io_len iob + 1))
         then (Some (take (io_len iob) (io_data iob) @ [0]), int (io_len iob + io_disc iob))
         else (None, - 1))
       (iob_format_str (iob_init buf (IOBUF_MAX - 1)) fmt ap)"

text \<open>What is handed to \<^verbatim>\<open>write\<close>.\<close>

definition fputstr :: "bytes \<Rightarrow> bytes \<Rightarrow> va list \<Rightarrow> bytes res" where
  "fputstr buf fmt ap =
     map_res (\<lambda>iob. take (io_len iob) (io_data iob)) (iob_format_str (iob_init buf IOBUF_MAX) fmt ap)"

end
