(* ===== verification/Format_Spec.thy ===== *)
theory Format_Spec
  imports Format
begin

text \<open>
  What a format string stands for without any buffer, and that the bounded buffer always holds
  the longest prefix of it that fits while counting the rest.
\<close>

section \<open>The text of the conversions\<close>

fun hexits :: "nat \<Rightarrow> bytes" where
  "hexits n = (if n = 0 then [] else hexits (n div 16) @ [hexit (n mod 16)])"

declare hexits.simps [simp del]

lemma hexits_0 [simp]: "hexits 0 = []"
  by (simp add: hexits.simps)

lemma hexits_step: "0 < n \<Longrightarrow> hexits n = hexits (n div 16) @ [hexit (n mod 16)]"
  by (simp add: hexits.simps [of n])

definition show_int :: "u32 \<Rightarrow> bytes" where
  "show_int c = (if sint c < 0 then 45 # digits (nat (- sint c)) else digits (nat (sint c)))"

definition show_hex :: "u32 \<Rightarrow> bytes" where
  "show_hex n = (if n = 0 then [48] else hexits (unat n))"

definition show_ptr :: "u64 \<Rightarrow> bytes" where
  "show_ptr p = 48 # 120 # (if p = 0 then [48] else hexits (unat p))"

definition show_chr :: "u32 \<Rightarrow> bytes" where
  "show_chr c = (if 32 \<le> sint c \<and> sint c \<le> 126 then [ucast c]
     else [92, hexit (unat (drop_bit 4 c AND 0xF)), hexit (unat (c AND 0xF))])"

definition show_str :: "bytes option \<Rightarrow> bytes" where
  "show_str s = (case s of Some s \<Rightarrow> s | None \<Rightarrow> [40, 110, 117, 108, 108, 41])"

section \<open>The text of a format\<close>

text \<open>Every conversion but one always has a text: the least integer overflows when it is negated.\<close>

fun format_spec :: "bytes \<Rightarrow> va list \<Rightarrow> bytes res" where
  "format_spec [] ap = Inr []"
| "format_spec [c] ap = Inr [c]"
| "format_spec (c # d # ptr) ap =
     (if c \<noteq> 37 then map_res (\<lambda>out. c # out) (format_spec (d # ptr) ap)
      else if d = 100 then bind_res (va_int ap) (\<lambda>(n, ap).
        if n = INT_MIN then Inl Signed_Overflow else map_res (\<lambda>out. show_int n @ out) (format_spec ptr ap))
      else if d = 115 then bind_res (va_str ap) (\<lambda>(s, ap). map_res (\<lambda>out. show_str s @ out) (format_spec ptr ap))
      else if d = 99 then bind_res (va_int ap) (\<lambda>(n, ap). map_res (\<lambda>out. show_chr n @ out) (format_spec ptr ap))
      else if d = 120 then bind_res (va_int ap) (\<lambda>(n, ap). map_res (\<lambda>out. show_hex n @ out) (format_spec ptr ap))
      else if d = 112 then bind_res (va_ptr ap) (\<lambda>(p, ap). map_res (\<lambda>out. show_ptr p @ out) (format_spec ptr ap))
      else map_res (\<lambda>out. 37 # out) (format_spec (d # ptr) ap))"

section \<open>The buffer holds a prefix\<close>

definition holds :: "bytes \<Rightarrow> nat \<Rightarrow> bytes \<Rightarrow> iobuf \<Rightarrow> bool" where
  "holds data cap out iob \<longleftrightarrow>
     io_data iob = take cap out @ drop (min cap (length out)) data \<and> io_cap iob = cap \<and>
     io_len iob = min cap (length out) \<and> io_disc iob = length out - cap"

lemma copy_loop_eq:
  "cap \<le> length data \<Longrightarrow> len + i \<le> cap \<Longrightarrow>
   copy_loop data cap len src i =
     (let m = min (cap - (len + i)) (length src) in
      Inr (take (len + i) data @ take m src @ drop (len + i + m) data, i + m, length src - m))"
proof (induction src arbitrary: data i)
  case (Cons c src)
  show ?case
  proof (cases "len + i < cap")
    case True
    then have "copy_loop (data[len + i := c]) cap len src (i + 1) =
      (let m = min (cap - (len + (i + 1))) (length src) in
       Inr (take (len + (i + 1)) (data[len + i := c]) @ take m src @ drop (len + (i + 1) + m) (data[len + i := c]),
         i + 1 + m, length src - m))"
      using Cons.prems by (intro Cons.IH) simp_all
    moreover have "take (len + (i + 1)) (data[len + i := c]) = take (len + i) data @ [c]"
      using True Cons.prems by (simp add: take_Suc_conv_app_nth)
    moreover have "min (cap - (len + i)) (length (c # src)) = Suc (min (cap - (len + (i + 1))) (length src))"
      using True by simp
    ultimately show ?thesis
      using True Cons.prems by (simp add: store_byte_def Let_def)
  qed (use Cons.prems in simp)
qed (simp add: Let_def)

lemma iob_write_holds:
  assumes "cap \<le> length data" and "holds data cap out iob"
  shows "\<exists>iob'. iob_write iob src = Inr iob' \<and> holds data cap (out @ src) iob'"
proof -
  let ?k = "min cap (length out)" and ?m = "min (cap - min cap (length out)) (length src)"
  have h: "io_data iob = take cap out @ drop ?k data" "io_cap iob = cap" "io_len iob = ?k"
    "io_disc iob = length out - cap"
    using assms(2) by (simp_all add: holds_def)
  have len: "length (io_data iob) = length data"
    using assms(1) by (simp add: h)
  have "copy_loop (io_data iob) cap ?k src 0 =
      Inr (take ?k (io_data iob) @ take ?m src @ drop (?k + ?m) (io_data iob), ?m, length src - ?m)"
    using copy_loop_eq [of cap "io_data iob" ?k 0 src] assms(1) len by (simp add: Let_def)
  moreover have "take ?k (io_data iob) @ take ?m src @ drop (?k + ?m) (io_data iob) =
      take cap (out @ src) @ drop (min cap (length (out @ src))) data"
  proof (cases "length out \<le> cap")
    case True
    then show ?thesis
      using assms(1) by (auto simp: h min_def drop_drop)
  next
    case False
    then show ?thesis
      using assms(1) by (simp add: h)
  qed
  ultimately show ?thesis
    by (auto simp: iob_write_def h holds_def)
qed

section \<open>The conversions never leave their local arrays\<close>

lemma length_hexits: "n < 16 ^ k \<Longrightarrow> length (hexits n) \<le> k"
proof (induction k arbitrary: n)
  case (Suc k)
  show ?case
  proof (cases "n = 0")
    case False
    have "n div 16 < 16 ^ k"
      using Suc.prems by (simp add: less_mult_imp_div_less mult.commute)
    then show ?thesis
      using Suc.IH False by (simp add: hexits_step)
  qed simp
qed simp

lemma length_digits: "n < 10 ^ Suc k \<Longrightarrow> length (digits n) \<le> Suc k"
proof (induction k arbitrary: n)
  case (Suc k)
  show ?case
  proof (cases "n < 10")
    case False
    have "n div 10 < 10 ^ Suc k"
      using Suc.prems by (simp add: less_mult_imp_div_less mult.commute)
    then show ?thesis
      using Suc.IH [of "n div 10"] False by (simp add: digits_step)
  qed simp
qed simp

lemma low_nibble: "unat (x AND 0xF :: 'a :: len word) = unat x mod 16"
proof -
  have "(0xF :: 'a word) = mask 4"
    by (simp add: mask_eq_exp_minus_1)
  then have "x AND 0xF = take_bit 4 x"
    by (simp only: take_bit_eq_mask)
  then show ?thesis
    by (simp only: unsigned_take_bit_eq) (simp add: take_bit_eq_mod)
qed

lemma hex_loop_eq:
  "length buf + length (hexits (unat tmp)) \<le> n \<Longrightarrow> hex_loop n tmp buf = Inr (hexits (unat tmp) @ buf)"
proof (induction n tmp buf rule: hex_loop.induct)
  case (1 n tmp buf)
  show ?case
  proof (cases "tmp = 0")
    case False
    then have pos: "0 < unat tmp"
      by (simp add: unat_gt_0)
    have shift: "unat (drop_bit 4 tmp) = unat tmp div 16"
      using unat_u64_lt [of tmp]
      by (simp only: unsigned_drop_bit_eq) (simp add: drop_bit_eq_div take_bit_eq_mod)
    have push: "push_front n buf (hexit (unat (tmp AND 0xF))) = Inr (hexit (unat tmp mod 16) # buf)"
      using "1.prems" pos by (simp add: push_front_def low_nibble hexits_step)
    then show ?thesis
      using "1.IH" [OF _ push] "1.prems" False pos
      by (simp add: hex_loop.simps [of n tmp] shift hexits_step push_front_def)
  qed (simp add: hex_loop.simps)
qed

lemma digit_or: "n < 10 \<Longrightarrow> (ucast n :: u8) OR 0x30 = digit (unat (n :: u32))"
proof -
  assume "n < 10"
  then have "unat n < 10"
    by (simp add: word_less_nat_alt)
  moreover have "n = of_nat (unat n)"
    by simp
  ultimately obtain d where d: "n = of_nat d" "d < 10"
    by blast
  then have "d \<in> {0, 1, 2, 3, 4, 5, 6, 7, 8, 9}"
    by auto
  then show "(ucast n :: u8) OR 0x30 = digit (unat n)"
    unfolding d(1) by (auto simp: digit_def)
qed

lemma dec_loop_eq:
  "length buf + (if n = 0 then 0 else length (digits (unat n))) \<le> 20 \<Longrightarrow>
   dec_loop n buf = Inr ((if n = 0 then [] else digits (unat n)) @ buf)"
proof (induction n buf rule: dec_loop.induct)
  case (1 n buf)
  show ?case
  proof (cases "n = 0")
    case False
    have ten: "unat (n div 10) = unat n div 10" "unat (n mod 10) = unat n mod 10"
      by (simp_all add: unat_div unat_mod)
    have "n mod 10 < 10"
      by (simp add: word_less_nat_alt ten(2))
    then have d: "(ucast (n mod 10) :: u8) OR 0x30 = digit (unat n mod 10)"
      by (simp add: digit_or ten(2))
    have "0 < length (digits (unat n))"
      by simp
    then have "length buf < 20"
      using "1.prems" False by (simp del: length_greater_0_conv)
    then have push: "push_front 20 buf ((ucast (n mod 10)) OR 0x30) = Inr (digit (unat n mod 10) # buf)"
      by (simp add: push_front_def d)
    have small: "n div 10 = 0 \<longleftrightarrow> unat n < 10"
      using ten(1) by (metis div_eq_0_iff unat_eq_zero zero_neq_numeral)
    have "dec_loop (n div 10) (digit (unat n mod 10) # buf) =
      Inr ((if n div 10 = 0 then [] else digits (unat (n div 10))) @ digit (unat n mod 10) # buf)"
      by (rule "1.IH" [OF False push]) (use "1.prems" False ten small in \<open>auto simp: digits_step not_less\<close>)
    then show ?thesis
      using False push small ten by (simp add: dec_loop.simps [of n] digits_step)
  qed (simp add: dec_loop.simps)
qed

lemma int_field_eq: "c \<noteq> INT_MIN \<Longrightarrow> int_field iob c = iob_write iob (show_int c)"
proof -
  assume least: "c \<noteq> INT_MIN"
  define n where "n = (if sint c < 0 then - c else c)"
  have zero: "c = 0" if "unat c = 0"
    using that by (simp add: unat_eq_0)
  have "unat n = nat (if sint c < 0 then - sint c else sint c)"
    using unat_u32_lt [of c] unat_u32_neg [of c] zero
    by (cases "c = 0") (auto simp: n_def sint_u32 nat_diff_distrib simp del: of_nat_unat split: if_splits)
  moreover have "n = 0 \<longleftrightarrow> c = 0"
    by (simp add: n_def)
  ultimately have n: "unat n = nat (if sint c < 0 then - sint c else sint c)" "n = 0 \<longleftrightarrow> c = 0"
    by simp_all
  have len: "length (digits (unat n)) \<le> 10"
    using length_digits [of "unat n" 9] unat_u32_lt [of n] by simp
  show ?thesis
  proof (cases "c = 0")
    case True
    then show ?thesis
      by (simp add: int_field_def show_int_def push_front_def dec_loop.simps digit_def)
  next
    case False
    then have "dec_loop n [] = Inr (digits (unat n))"
      using dec_loop_eq [of "[]" n] len n(2) by simp
    then show ?thesis
      using False least n len by (auto simp: int_field_def show_int_def push_front_def Let_def n_def [symmetric])
  qed
qed

lemma hex_field_eq: "hex_field iob n = iob_write iob (show_hex n)"
proof (cases "n = 0")
  case False
  have "unat (ucast n :: u64) = unat n"
    using unat_u32_lt [of n] by (simp add: unsigned_ucast_eq take_bit_nat_eq_self)
  moreover have "length (hexits (unat n)) \<le> 16"
    using length_hexits [of "unat n" 16] unat_u32_lt [of n] by simp
  ultimately show ?thesis
    using hex_loop_eq [of "[]" "ucast n" 16] False by (simp add: hex_field_def show_hex_def)
qed (simp add: hex_field_def show_hex_def push_front_def)

lemma ptr_field_eq: "ptr_field iob p = iob_write iob (show_ptr p)"
proof (cases "p = 0")
  case False
  have "length (hexits (unat p)) \<le> 16"
    using length_hexits [of "unat p" 16] unat_u64_lt [of p] by simp
  then show ?thesis
    using hex_loop_eq [of "[]" p 18] False by (simp add: ptr_field_def show_ptr_def push_front_def)
qed (simp add: ptr_field_def show_ptr_def push_front_def hex_loop.simps)

lemma chr_field_eq: "chr_field iob c = iob_write iob (show_chr c)"
  by (simp add: chr_field_def show_chr_def)

lemma str_field_eq: "str_field iob s = iob_write iob (show_str s)"
  by (simp add: str_field_def show_str_def split: option.splits)

lemma int_field_least: "int_field iob INT_MIN = Inl Signed_Overflow"
  by (simp add: int_field_def)

lemmas field_eqs = hex_field_eq ptr_field_eq chr_field_eq str_field_eq

section \<open>Formatting\<close>

text \<open>
  What a formatting run on a buffer that holds \<open>out\<close> leaves: the same fault as the
  specification, or a buffer that holds \<open>out\<close> and the text of the format.
\<close>

definition continues :: "bytes \<Rightarrow> nat \<Rightarrow> bytes \<Rightarrow> bytes res \<Rightarrow> iobuf res \<Rightarrow> bool" where
  "continues data cap out full r \<longleftrightarrow> (case full of
      Inl f \<Rightarrow> r = Inl f
    | Inr t \<Rightarrow> \<exists>iob. r = Inr iob \<and> holds data cap (out @ t) iob)"

lemma continues_simps [simp]:
  "continues data cap out (Inl f) r \<longleftrightarrow> r = Inl f"
  "continues data cap out (Inr t) r \<longleftrightarrow> (\<exists>iob. r = Inr iob \<and> holds data cap (out @ t) iob)"
  by (simp_all add: continues_def)

lemma continues_write:
  assumes "cap \<le> length data" and "holds data cap out iob"
    and rest: "\<And>iob. holds data cap (out @ src) iob \<Longrightarrow> continues data cap (out @ src) full (k iob)"
  shows "continues data cap out (map_res (\<lambda>t. src @ t) full) (bind_res (iob_write iob src) k)"
proof -
  obtain iob' where w: "iob_write iob src = Inr iob'" "holds data cap (out @ src) iob'"
    using iob_write_holds [OF assms(1,2)] by blast
  show ?thesis
    using rest [OF w(2)] w(1) by (cases full) auto
qed

lemma holds_width [simp]: "holds data cap out (iob\<lparr>io_width := n\<rparr>) = holds data cap out iob"
  by (simp add: holds_def)

lemma bind_map_res: "bind_res (map_res f m) g = bind_res m (\<lambda>x. g (f x))"
  by (cases m) auto

lemma continues_field:
  assumes cap: "cap \<le> length data" and h: "holds data cap out iob"
    and IH: "\<And>n ap' out iob. r = Inr (n, ap') \<Longrightarrow> holds data cap out iob \<Longrightarrow>
      continues data cap out (format_spec ptr ap') (iob_format_str iob ptr ap')"
  shows "continues data cap out (bind_res r (\<lambda>(n, ap). map_res (\<lambda>t. to_text n @ t) (format_spec ptr ap)))
    (bind_res (bind_res r (\<lambda>(n, ap). map_res (\<lambda>iob. (iob, ptr, ap)) (iob_write iob (to_text n))))
       (\<lambda>(iob, ptr, ap). iob_format_str iob ptr ap))"
proof (cases r)
  case (Inr x)
  obtain n ap' where x: "r = Inr (n, ap')"
    using Inr by (cases x) simp
  show ?thesis
    using continues_write [OF cap h, of "to_text n" "format_spec ptr ap'" "\<lambda>iob. iob_format_str iob ptr ap'"]
      IH [OF x] x by (simp add: bind_map_res)
qed simp

lemma format_continues:
  assumes cap: "cap \<le> length data"
  shows "holds data cap out iob \<Longrightarrow> continues data cap out (format_spec fmt ap) (iob_format_str iob fmt ap)"
proof (induction fmt ap arbitrary: out iob rule: format_spec.induct)
  case (1 ap)
  then show ?case
    by simp
next
  case (2 c ap)
  obtain iob' where "iob_write iob [c] = Inr iob'" "holds data cap (out @ [c]) iob'"
    using iob_write_holds [OF cap "2.prems"] by blast
  moreover obtain iob'' where "iob_write (iob\<lparr>io_width := 0\<rparr>) [37] = Inr iob''" "holds data cap (out @ [37]) iob''"
    using iob_write_holds [OF cap, of out "iob\<lparr>io_width := 0\<rparr>"] "2.prems" by auto
  ultimately show ?case
    by (auto simp: format_field_def)
next
  case (3 c d ptr ap)
  note IH = "3.IH" and h = "3.prems"
  have w: "holds data cap out (iob\<lparr>io_width := 0\<rparr>)"
    using h by simp
  show ?case
  proof (cases "c = 37")
    case False
    then show ?thesis
      using continues_write [OF cap h, of "[c]" "format_spec (d # ptr) ap" "\<lambda>iob. iob_format_str iob (d # ptr) ap"]
        IH(1) by simp
  next
    case True
    show ?thesis
    proof (cases "d \<in> {100, 115, 99, 120, 112}")
      case False
      then show ?thesis
        using continues_write [OF cap w, of "[37]" "format_spec (d # ptr) ap" "\<lambda>iob. iob_format_str iob (d # ptr) ap"]
          IH(7) True by (simp add: format_field_def bind_map_res)
    next
      case field: True
      then consider "d = 100" | "d = 115" | "d = 99" | "d = 120" | "d = 112"
        by blast
      then show ?thesis
      proof cases
        case 1
        show ?thesis
        proof (cases "va_int ap")
          case (Inr x)
          obtain n ap' where x: "va_int ap = Inr (n, ap')"
            using Inr by (cases x) simp
          show ?thesis
          proof (cases "n = INT_MIN")
            case False
            then show ?thesis
              using continues_write [OF cap w, of "show_int n" "format_spec ptr ap'" "\<lambda>iob. iob_format_str iob ptr ap'"]
                IH(2) True 1 x by (simp add: format_field_def int_field_eq bind_map_res)
          qed (use True 1 x in \<open>simp add: format_field_def int_field_least\<close>)
        qed (use True 1 in \<open>simp add: format_field_def\<close>)
      next
        case 2
        then show ?thesis
          using continues_field [OF cap w, of "va_str ap" ptr show_str] IH(3) True
          by (simp add: format_field_def field_eqs)
      next
        case 3
        then show ?thesis
          using continues_field [OF cap w, of "va_int ap" ptr show_chr] IH(4) True
          by (simp add: format_field_def field_eqs)
      next
        case 4
        then show ?thesis
          using continues_field [OF cap w, of "va_int ap" ptr show_hex] IH(5) True
          by (simp add: format_field_def field_eqs)
      next
        case 5
        then show ?thesis
          using continues_field [OF cap w, of "va_ptr ap" ptr show_ptr] IH(6) True
          by (simp add: format_field_def field_eqs)
      qed
    qed
  qed
qed

section \<open>The public functions\<close>

lemma holds_init: "cap \<le> length dst \<Longrightarrow> holds dst cap [] (iob_init dst cap)"
  by (simp add: holds_def iob_init_def)

text \<open>A formatting run from an empty buffer, as an equation.\<close>

lemma format_run:
  assumes "cap \<le> length dst"
  obtains (fault) f where "format_spec fmt ap = Inl f" and "iob_format_str (iob_init dst cap) fmt ap = Inl f"
  | (finished) t iob where "format_spec fmt ap = Inr t" and "iob_format_str (iob_init dst cap) fmt ap = Inr iob"
      and "io_data iob = take cap t @ drop (min cap (length t)) dst" and "io_len iob = min cap (length t)"
      and "io_len iob + io_disc iob = length t"
proof -
  have c: "continues dst cap [] (format_spec fmt ap) (iob_format_str (iob_init dst cap) fmt ap)"
    by (rule format_continues [OF assms holds_init [OF assms]])
  show thesis
  proof (cases "format_spec fmt ap")
    case (Inl f)
    then show ?thesis
      using c fault by simp
  next
    case (Inr t)
    then show ?thesis
      using c finished [of t] by (auto simp: holds_def)
  qed
qed

lemma cpyf_eq:
  assumes "dstsize \<le> length dst"
  shows "cpyf dst dstsize fmt ap =
    map_res (\<lambda>t. (take dstsize t @ drop (min dstsize (length t)) dst, length t)) (format_spec fmt ap)"
  by (rule format_run [OF assms, of fmt ap]) (simp_all add: cpyf_def)

text \<open>Storing the terminator.\<close>

lemma store_terminator:
  assumes "k < length dst"
  shows "store_byte (take k t @ drop (min k (length t)) dst) (min k (length t)) 0 =
    Inr (take k t @ 0 # drop (min k (length t) + 1) dst)"
proof -
  have "min k (length t) < length dst"
    using assms by simp
  then have "drop (min k (length t)) dst = dst ! min k (length t) # drop (min k (length t) + 1) dst"
    by (simp add: Cons_nth_drop_Suc)
  moreover have "length (take k t) = min k (length t)"
    by simp
  ultimately show ?thesis
    using assms by (simp add: store_byte_def list_update_append)
qed

lemma store_terminator_full:
  assumes "0 < n" and "n \<le> length dst" and "n \<le> length t"
  shows "store_byte (take n t @ drop n dst) (n - 1) 0 = Inr (take (n - 1) t @ 0 # drop n dst)"
proof -
  have "take n t = take (n - 1) t @ [t ! (n - 1)]"
    using assms take_Suc_conv_app_nth [of "n - 1" t] by simp
  then show ?thesis
    using assms by (simp add: store_byte_def list_update_append)
qed

lemma slcpyf_eq:
  assumes "dstsize \<le> length dst"
  shows "slcpyf dst dstsize fmt ap = map_res (\<lambda>t.
      (if dstsize = 0 then dst
       else take (dstsize - 1) t @ 0 # drop (min (dstsize - 1) (length t) + 1) dst, length t))
    (format_spec fmt ap)"
proof (rule format_run [OF assms, of fmt ap])
  fix t iob
  assume run: "format_spec fmt ap = Inr t" "iob_format_str (iob_init dst dstsize) fmt ap = Inr iob"
    "io_data iob = take dstsize t @ drop (min dstsize (length t)) dst" "io_len iob = min dstsize (length t)"
    "io_len iob + io_disc iob = length t"
  show ?thesis
  proof (cases "dstsize \<le> length t")
    case True
    then show ?thesis
      using run store_terminator_full [of dstsize dst t] assms by (simp add: slcpyf_def)
  next
    case False
    then have m: "min (dstsize - 1) (length t) = length t" "take (dstsize - 1) t = t"
      "dstsize - 1 < length dst" "dstsize \<noteq> 0"
      using assms by auto
    have "store_byte (t @ drop (length t) dst) (length t) 0 = Inr (t @ 0 # drop (length t + 1) dst)"
      using store_terminator [OF m(3), of t] unfolding m(1,2) .
    then show ?thesis
      using run False m by (simp add: slcpyf_def)
  qed
qed (simp add: slcpyf_def)

lemma scpyf_eq:
  assumes "IOBUF_MAX \<le> length str"
  shows "scpyf str fmt ap = map_res (\<lambda>t.
      (take (IOBUF_MAX - 1) t @ 0 # drop (min (IOBUF_MAX - 1) (length t) + 1) str, length t))
    (format_spec fmt ap)"
proof -
  have k: "IOBUF_MAX - 1 \<le> length str" "IOBUF_MAX - 1 < length str"
    using assms by (simp_all add: IOBUF_MAX_def)
  show ?thesis
    by (rule format_run [OF k(1), of fmt ap])
       (simp_all add: scpyf_def store_terminator [OF k(2)] del: One_nat_def)
qed

lemma take_min_length: "take (min n (length t)) t = take n t"
  by (simp add: min_def)

lemma ssavef_eq:
  assumes "length buf = IOBUF_MAX"
  shows "ssavef al buf fmt ap = map_res (\<lambda>t.
      if grants al (of_nat (min (IOBUF_MAX - 1) (length t) + 1))
      then (Some (take (IOBUF_MAX - 1) t @ [0]), int (length t)) else (None, - 1))
    (format_spec fmt ap)"
proof -
  have k: "IOBUF_MAX - 1 \<le> length buf"
    using assms by simp
  show ?thesis
    by (rule format_run [OF k, of fmt ap]) (simp_all add: ssavef_def take_min_length)
qed

lemma fputstr_eq:
  assumes "length buf = IOBUF_MAX"
  shows "fputstr buf fmt ap = map_res (take IOBUF_MAX) (format_spec fmt ap)"
proof -
  have k: "IOBUF_MAX \<le> length buf"
    using assms by simp
  show ?thesis
    by (rule format_run [OF k, of fmt ap]) (simp_all add: fputstr_def take_min_length)
qed

end
