(* ===== verification/Numbers.thy ===== *)
theory Numbers
  imports Format_Spec
begin

text \<open>
  The integer parser \<^verbatim>\<open>daemon/srcs/lib/atoi.c\<close>, and that it reads back what the formatter's
  \<^verbatim>\<open>%d\<close> prints. \<^verbatim>\<open>strtol\<close> is the one of the C library on LP64; \<^verbatim>\<open>errno\<close> is reduced to whether it
  is \<^verbatim>\<open>ERANGE\<close>.
\<close>

section \<open>strtol\<close>

definition digit_value :: "u8 \<Rightarrow> nat" where
  "digit_value c =
     (if isdigit c then unat c - 48
      else if 97 \<le> c \<and> c \<le> 122 then unat c - 87
      else if 65 \<le> c \<and> c \<le> 90 then unat c - 55
      else 99)"

fun strtol_loop :: "nat \<Rightarrow> bytes \<Rightarrow> nat \<Rightarrow> bytes \<times> nat" where
  "strtol_loop base [] v = ([], v)"
| "strtol_loop base (c # ps) v =
     (if digit_value c < base then strtol_loop base ps (v * base + digit_value c) else (c # ps, v))"

text \<open>The value, the end of the number, and whether it was out of range.\<close>

definition strtol :: "bytes \<Rightarrow> nat \<Rightarrow> int \<times> bytes \<times> bool" where
  "strtol str base =
     (let ps = skip_spaces str;
          neg = (chr ps = 45);
          ps = (if chr ps = 45 \<or> chr ps = 43 then tl ps else ps);
          ps = (if base = 16 \<and> chr ps = 48 \<and> (chr (tl ps) = 120 \<or> chr (tl ps) = 88) \<and>
                   digit_value (chr (tl (tl ps))) < 16 then tl (tl ps) else ps);
          (rest, v) = strtol_loop base ps 0 in
      if rest = ps then (0, str, False)
      else if neg then
        if 2 ^ 63 < v then (- (2 ^ 63), rest, True) else (- int v, rest, False)
      else
        if 2 ^ 63 \<le> v then (2 ^ 63 - 1, rest, True) else (int v, rest, False))"

section \<open>atoi32\<close>

definition INT_MAX :: int where
  "INT_MAX = 2 ^ 31 - 1"

text \<open>The decimal loop: NULL as soon as the number exceeds \<open>limit\<close>.\<close>

fun atoi_loop :: "int \<Rightarrow> bytes \<Rightarrow> int \<Rightarrow> (bytes \<times> int) option" where
  "atoi_loop limit [] tmp = Some ([], tmp)"
| "atoi_loop limit (c # ptr) tmp =
     (if isdigit c then
        let tmp = tmp * 10 + int (unat (c AND 0xCF)) in
        if tmp > limit then None else atoi_loop limit ptr tmp
      else Some (c # ptr, tmp))"

text \<open>
  The pointer it returns, what \<^verbatim>\<open>*result\<close> holds afterwards, and whether \<^verbatim>\<open>errno\<close> is \<^verbatim>\<open>ERANGE\<close>
  afterwards; \<open>erange\<close> says whether it was before.
\<close>

definition atoi32 :: "bool \<Rightarrow> bytes \<Rightarrow> u32 \<Rightarrow> bytes option \<times> u32 \<times> bool" where
  "atoi32 erange str result =
     (let negative = (if chr str = 45 then 1 else 0 :: int);
          ptr = (if chr str = 45 then tl str else str) in
      if chr ptr < 48 \<or> chr ptr > 57 then (Some str, result, erange)
      else if chr ptr = 48 then
        let (base, ptr) =
              (if chr (tl ptr) = 120 \<or> chr (tl ptr) = 88 then (16, ptr)
               else if chr (tl ptr) = 98 \<or> chr (tl ptr) = 66 then (2, tl (tl ptr))
               else (8, ptr));
            (tmp, ptr, out_of_range) = strtol ptr base;
            erange = (erange \<or> out_of_range) in
        if erange \<or> tmp > INT_MAX + negative then (None, result, erange)
        else (Some ptr, word_of_int (if negative \<noteq> 0 then - tmp else tmp), erange)
      else
        case atoi_loop (INT_MAX + negative) ptr 0 of
          None \<Rightarrow> (None, result, erange)
        | Some (ptr, tmp) \<Rightarrow> (Some ptr, word_of_int (if negative \<noteq> 0 then - tmp else tmp), erange))"

text \<open>\<^verbatim>\<open>uint32_parse\<close> of \<^verbatim>\<open>args.c\<close>: whether it succeeded, the destination, and \<^verbatim>\<open>errno\<close>.\<close>

definition uint32_parse :: "bool \<Rightarrow> bytes \<Rightarrow> u32 \<Rightarrow> bool \<times> u32 \<times> bool" where
  "uint32_parse erange expr dest =
     (let (ret, dest, erange) = atoi32 erange expr dest in
      (case ret of None \<Rightarrow> False | Some ps \<Rightarrow> chr ps = 0, dest, erange))"

section \<open>Decimal numbers\<close>

lemma digit_mask: "d < 10 \<Longrightarrow> unat (digit d AND 0xCF) = d"
proof -
  assume "d < 10"
  then have "d \<in> {0, 1, 2, 3, 4, 5, 6, 7, 8, 9}"
    by auto
  then show ?thesis
    by (auto simp: digit_def)
qed

lemma atoi_loop_stop: "\<not> isdigit (chr rest) \<Longrightarrow> atoi_loop limit rest tmp = Some (rest, tmp)"
  by (cases rest) auto

text \<open>Reading the digits of \<open>n\<close> ends with the value \<open>n\<close>, or with NULL when it is over the limit.\<close>

lemma atoi_loop_digits:
  "atoi_loop limit (digits n @ rest) 0 =
     (if int n \<le> limit then atoi_loop limit rest (int n) else None)"
  if "0 \<le> limit" for limit
proof (induction n arbitrary: rest rule: digits.induct)
  case (1 n)
  show ?case
  proof (cases "n < 10")
    case True
    then show ?thesis
      using that by (auto simp: digit_mask)
  next
    case False
    have d: "n mod 10 < 10"
      by simp
    have "int n = int (n div 10) * 10 + int (n mod 10)"
      by (metis div_mult_mod_eq of_nat_add of_nat_mult of_nat_numeral)
    then show ?thesis
      using "1.IH" [OF False, of "digit (n mod 10) # rest"] False
      by (auto simp: digits_step digit_mask [OF d] Let_def)
  qed
qed

lemma digits_head:
  assumes "0 < n"
  shows "\<not> (chr (digits n @ rest) < 48 \<or> chr (digits n @ rest) > 57)"
    and "chr (digits n @ rest) \<noteq> 48" and "chr (digits n @ rest) \<noteq> 45"
proof -
  have "chr (digits n @ rest) = hd (digits n)"
    by (cases "digits n") (use digits_ne [of n] in auto)
  then show "\<not> (chr (digits n @ rest) < 48 \<or> chr (digits n @ rest) > 57)"
    "chr (digits n @ rest) \<noteq> 48" "chr (digits n @ rest) \<noteq> 45"
    using digits_chr [of n rest] digits_hd [OF assms] by (auto simp: isdigit_def)
qed

lemma atoi32_positive:
  assumes "0 < n" and "\<not> isdigit (chr rest)"
  shows "atoi32 erange (digits n @ rest) result =
    (if int n \<le> INT_MAX then (Some rest, of_nat n, erange) else (None, result, erange))"
  using digits_head [OF assms(1), of rest] atoi_loop_digits [of INT_MAX n rest]
    atoi_loop_stop [OF assms(2), of INT_MAX "int n"]
  by (simp add: atoi32_def INT_MAX_def)

lemma atoi32_negative:
  assumes "0 < n" and "\<not> isdigit (chr rest)"
  shows "atoi32 erange (45 # digits n @ rest) result =
    (if int n \<le> INT_MAX + 1 then (Some rest, - of_nat n, erange) else (None, result, erange))"
  using digits_head [OF assms(1), of rest] atoi_loop_digits [of "INT_MAX + 1" n rest]
    atoi_loop_stop [OF assms(2), of "INT_MAX + 1" "int n"]
  by (simp add: atoi32_def INT_MAX_def)

lemma atoi32_zero: "atoi32 False [48] result = (Some [], 0, False)"
  by (simp add: atoi32_def strtol_def isspace_def digit_value_def isdigit_def INT_MAX_def)

text \<open>\<^verbatim>\<open>%d\<close> and \<open>atoi32\<close> are inverse to each other on all 32 bit integers.\<close>

lemma sint_u32_range: "- (2 ^ 31) \<le> sint (c :: u32)" "sint (c :: u32) < 2 ^ 31"
  using unat_u32_lt [of c] by (auto simp: sint_u32 simp del: of_nat_unat)

lemma show_int_inverse: "atoi32 False (show_int c) result = (Some [], c, False)"
proof -
  consider "sint c = 0" | "0 < sint c" | "sint c < 0"
    by linarith
  then show ?thesis
  proof cases
    case 1
    then have "c = 0"
      by (metis signed_0 signed_word_eqI)
    then show ?thesis
      by (simp add: show_int_def digit_def atoi32_zero)
  next
    case 2
    have "word_of_int (sint c) = c"
      by simp
    then have "of_nat (nat (sint c)) = c"
      using 2 by simp
    then show ?thesis
      using atoi32_positive [of "nat (sint c)" "[]" False result] 2 sint_u32_range [of c]
      by (simp add: show_int_def INT_MAX_def)
  next
    case 3
    have "(of_nat (nat (- sint c)) :: u32) = word_of_int (- sint c)"
      using 3 by simp
    also have "\<dots> = - word_of_int (sint c)"
      by (rule wi_hom_neg [symmetric])
    also have "\<dots> = - c"
      by simp
    finally have "- of_nat (nat (- sint c)) = c"
      by simp
    then show ?thesis
      using atoi32_negative [of "nat (- sint c)" "[]" False result] 3 sint_u32_range [of c]
      by (simp add: show_int_def INT_MAX_def)
  qed
qed

text \<open>What \<open>uint32_parse\<close> makes of a decimal number that ends the string.\<close>

lemma uint32_parse_decimal:
  assumes "0 < n"
  shows "uint32_parse erange (digits n) dest =
      (if int n \<le> INT_MAX then (True, of_nat n, erange) else (False, dest, erange))"
    and "uint32_parse erange (45 # digits n) dest =
      (if int n \<le> INT_MAX + 1 then (True, - of_nat n, erange) else (False, dest, erange))"
  using atoi32_positive [OF assms, of "[]" erange dest] atoi32_negative [OF assms, of "[]" erange dest]
  by (simp_all add: uint32_parse_def)

end
