(* ===== verification/Format_Properties.thy ===== *)
theory Format_Properties
  imports Numbers
begin

text \<open>
  The properties of the formatter \<^verbatim>\<open>daemon/srcs/lib/stringf.c\<close> and of the integer parser
  \<^verbatim>\<open>daemon/srcs/lib/atoi.c\<close>.
\<close>

text \<open>
  C16: \<open>cpyf\<close> stores the longest prefix of the formatted text that fits the destination, leaves
  the bytes after it alone, never writes past the given size, and returns the length of the
  whole text, stored or not; it fails only where the text does. This is not what \<^verbatim>\<open>stringf.h\<close>
  says of it: it promises the number of bytes written, and a second truncation at \<^verbatim>\<open>IOBUF_MAX\<close>
  bytes, which the code does not make.
\<close>

theorem cpyf_truncates:
  assumes "dstsize \<le> length dst"
  shows "cpyf dst dstsize fmt ap =
    map_res (\<lambda>t. (take dstsize t @ drop (min dstsize (length t)) dst, length t)) (format_spec fmt ap)"
  by (rule cpyf_eq [OF assms])

theorem cpyf_truncates_witness:
  "cpyf [0, 0, 0, 0, 9] 4 [97, 37, 100, 37, 115] [VInt (- 12), VStr None] = Inr ([97, 45, 49, 50, 9], 10)"
proof -
  have "format_spec [97, 37, 100, 37, 115] [VInt (- 12), VStr None] =
      Inr [97, 45, 49, 50, 40, 110, 117, 108, 108, 41]"
  proof -
    have "show_int (- 12) = [45, 49, 50]"
      by (simp add: show_int_def digits_step digit_def)
    then show ?thesis
      by (simp add: show_str_def)
  qed
  then show ?thesis
    using cpyf_truncates [of 4 "[0, 0, 0, 0, 9]" "[97, 37, 100, 37, 115]" "[VInt (- 12), VStr None]"]
    by simp
qed

text \<open>
  C24: \<open>slcpyf\<close> keeps the contract of \<^verbatim>\<open>strlcpy\<close>: with a size that is not zero the destination
  holds a terminated prefix of the formatted text, with size zero it is untouched, and in every
  case the length of the whole text is returned.
\<close>

theorem slcpyf_strlcpy:
  assumes "dstsize \<le> length dst" and "format_spec fmt ap = Inr t"
  shows "\<exists>dst'. slcpyf dst dstsize fmt ap = Inr (dst', length t) \<and> length dst' = length dst \<and>
    (if dstsize = 0 then dst' = dst
     else take (min (dstsize - 1) (length t) + 1) dst' = take (dstsize - 1) t @ [0] \<and>
       drop dstsize dst' = drop dstsize dst)"
proof (cases "length t < dstsize")
  case True
  then have m: "min (dstsize - 1) (length t) = length t" "take (dstsize - 1) t = t" "dstsize \<noteq> 0"
    by auto
  have d: "drop dstsize (t @ 0 # drop (length t + 1) dst) = drop dstsize dst"
    using True by (simp add: drop_Cons')
  have "slcpyf dst dstsize fmt ap = Inr (t @ 0 # drop (length t + 1) dst, length t)"
    using slcpyf_eq [OF assms(1), of fmt ap] assms(2) m by simp
  then show ?thesis
    using True assms(1) m d by simp
next
  case False
  then show ?thesis
    using slcpyf_eq [OF assms(1), of fmt ap] assms by (auto simp: min_def)
qed

theorem slcpyf_strlcpy_witness:
  "\<exists>dst'. slcpyf [7, 7, 7, 7] 3 [97, 98, 99, 100] [] = Inr (dst', 4) \<and> take 3 dst' = [97, 98, 0]"
  using slcpyf_strlcpy [of 3 "[7, 7, 7, 7]" "[97, 98, 99, 100]" "[]" "[97, 98, 99, 100]"]
  by (auto simp: numeral_3_eq_3)

text \<open>
  C17: what \<^verbatim>\<open>%d\<close> prints of a 32 bit integer, \<open>atoi32\<close> reads back as the same integer, for every
  integer but the least one: to print -2147483648 the code computes its product with -1, which
  overflows, so the behaviour is undefined and a build with the sanitizer of \<^verbatim>\<open>backd.mk\<close> reports it.
\<close>

theorem int_print_parse:
  assumes "20 \<le> length dst"
  shows "if c = INT_MIN then cpyf dst 20 [37, 100] [VInt c] = Inl Signed_Overflow
    else \<exists>dst' n. cpyf dst 20 [37, 100] [VInt c] = Inr (dst', n) \<and>
      atoi32 False (take n dst') result = (Some [], c, False)"
proof -
  have "length (show_int c) \<le> 11"
  proof -
    have "nat (sint c) < 10 ^ Suc 9" "nat (- sint c) < 10 ^ Suc 9"
      using sint_u32_range [of c] by auto
    then have "length (digits (nat (sint c))) \<le> 10" "length (digits (nat (- sint c))) \<le> 10"
      using length_digits [of _ 9] by auto
    then show ?thesis
      by (simp add: show_int_def)
  qed
  then show ?thesis
    using cpyf_eq [OF assms, of "[37, 100]" "[VInt c]"] show_int_inverse [of c result]
    by (cases "c = INT_MIN") simp_all
qed

theorem int_print_parse_witness:
  "(\<exists>dst' n. cpyf (replicate 20 0) 20 [37, 100] [VInt (- 2147483647)] = Inr (dst', n) \<and>
     atoi32 False (take n dst') 0 = (Some [], - 2147483647, False)) \<and>
   cpyf (replicate 20 0) 20 [37, 100] [VInt (- 2147483648)] = Inl Signed_Overflow"
  using int_print_parse [of "replicate 20 0" "- 2147483647" 0]
    int_print_parse [of "replicate 20 0" "- 2147483648" 0] by simp

end
