(* ===== verification/Options.thy ===== *)
theory Options
  imports Numbers Cron Service
begin

text \<open>
  The command line: \<^verbatim>\<open>getopts\<close> of \<^verbatim>\<open>daemon/srcs/lib/args.c\<close> and \<^verbatim>\<open>main\<close> of
  \<^verbatim>\<open>daemon/srcs/main.c\<close>. \<open>g_av\<close> are the arguments from \<^verbatim>\<open>opts.av\<close> on, the NULL that ends
  \<^verbatim>\<open>argv\<close> is the end of the list. What the cron parser
  prints is collected; the messages on \<^verbatim>\<open>stderr\<close> are in \<open>Messages\<close>.
\<close>

section \<open>getopts\<close>

record getopts =
  g_fail :: bool
  g_arg :: "bytes option"
  g_ac :: nat
  g_av :: "bytes list"
  g_ostr :: bytes

text \<open>\<open>ac\<close> counts the program name, which \<open>getopts_init\<close> skips.\<close>

definition getopts_init :: "nat \<Rightarrow> bytes list \<Rightarrow> bytes \<Rightarrow> getopts" where
  "getopts_init ac av ostr =
     \<lparr>g_fail = False, g_arg = None, g_ac = ac - 1, g_av = tl av, g_ostr = ostr\<rparr>"

definition arg_at :: "bytes list \<Rightarrow> bytes option" where
  "arg_at av = (case av of [] \<Rightarrow> None | a # _ \<Rightarrow> Some a)"

definition next_arg :: "getopts \<Rightarrow> bytes option \<times> getopts" where
  "next_arg opts =
     (if g_ac opts \<noteq> 0
      then (arg_at (tl (g_av opts)), opts\<lparr>g_ac := g_ac opts - 1, g_av := tl (g_av opts)\<rparr>)
      else (None, opts))"

text \<open>\<^verbatim>\<open>strchr\<close>: the rest of the string from the first occurrence on.\<close>

fun strchr :: "bytes \<Rightarrow> u8 \<Rightarrow> bytes option" where
  "strchr [] c = None"
| "strchr (d # s) c = (if d = c then Some (d # s) else strchr s c)"

text \<open>The option character, \<open>-1\<close> at the end, \<^verbatim>\<open>?\<close> for an unknown option, \<^verbatim>\<open>*\<close> for a file name.\<close>

definition getopts_next :: "getopts \<Rightarrow> (int \<times> getopts) res" where
  "getopts_next opts =
     (if g_ac opts = 0 then Inr (- 1, opts)
      else
        case g_av opts of
          [] \<Rightarrow> Inl Null_Dereference
        | a # av \<Rightarrow>
            let opts = opts\<lparr>g_arg := None\<rparr>;
                ptr = skip_spaces a in
            if chr ptr = 45 \<and> chr (tl ptr) \<noteq> 0 \<and> chr (tl (tl ptr)) = 0 then
              if chr (tl ptr) = 45 then Inr (- 1, opts)
              else
                case strchr (g_ostr opts) (chr (tl ptr)) of
                  None \<Rightarrow> Inr (63, opts\<lparr>g_av := av, g_ac := g_ac opts - 1\<rparr>)
                | Some ch \<Rightarrow>
                    if chr (tl ch) = 58 then
                      let (arg, opts) = next_arg opts;
                          opts = opts\<lparr>g_arg := arg\<rparr> in
                      if arg = None then Inr (- 1, opts\<lparr>g_fail := True\<rparr>)
                      else Inr (int (unat (chr ch)),
                             opts\<lparr>g_av := tl (g_av opts), g_ac := g_ac opts - 1\<rparr>)
                    else Inr (int (unat (chr ch)), opts\<lparr>g_av := av, g_ac := g_ac opts - 1\<rparr>)
            else Inr (42, opts\<lparr>g_arg := Some ptr, g_av := av, g_ac := g_ac opts - 1\<rparr>))"

lemma getopts_next_shorter:
  assumes "getopts_next opts = Inr (c, opts')" and "c \<noteq> - 1"
  shows "length (g_av opts') < length (g_av opts)"
proof -
  obtain a av where av: "g_av opts = a # av"
    using assms by (auto simp: getopts_next_def split: if_splits list.splits)
  have "length (g_av opts') \<le> length av"
    using assms av
    by (auto simp: getopts_next_def next_arg_def Let_def arg_at_def
        split: if_splits option.splits prod.splits list.splits)
  then show ?thesis
    using av by simp
qed

section \<open>main\<close>

record args =
  a_flags :: u32
  a_cron_str :: "bytes option"
  a_n_seconds :: u32

text \<open>\<^verbatim>\<open>main\<close>'s locals, the file name stack, the arrays of the cron parser, \<^verbatim>\<open>errno\<close>, and the output.\<close>

record main_state =
  m_args :: args
  m_opts :: getopts
  m_stack :: file_stack
  m_cron :: cron
  m_erange :: bool
  m_printed :: "string list"

datatype turn = Goes main_state | Leaves int

definition FLAGS_DEBUG :: u32 where
  "FLAGS_DEBUG = push_bit 1 1"

definition string_parse :: "bytes option \<Rightarrow> bytes option \<Rightarrow> bool \<times> bytes option" where
  "string_parse expr dest = (case expr of None \<Rightarrow> (False, dest) | Some _ \<Rightarrow> (True, expr))"

text \<open>The \<^verbatim>\<open>switch\<close> of \<^verbatim>\<open>main\<close> on the option \<open>c\<close>; \<open>version\<close> and \<open>usage\<close> end the process with 0.\<close>

definition handle_option :: "int \<Rightarrow> main_state \<Rightarrow> turn res" where
  "handle_option c st =
     (if c = 100 then
        Inr (Goes (st\<lparr>m_args := (m_args st)\<lparr>a_flags := a_flags (m_args st) OR FLAGS_DEBUG\<rparr>\<rparr>))
      else if c = 99 then
        let (ok, str) = string_parse (g_arg (m_opts st)) (a_cron_str (m_args st)) in
        if \<not> ok then Inr (Leaves EXIT_FAILURE)
        else map_res (\<lambda>(cron, lines, result).
               Goes (st\<lparr>m_args := (m_args st)\<lparr>a_cron_str := str\<rparr>, m_cron := cron,
                        m_printed := m_printed st @ lines\<rparr>))
             (cron_check (m_cron st) str)
      else if c = 115 then
        case g_arg (m_opts st) of
          None \<Rightarrow> Inl Null_Dereference
        | Some expr \<Rightarrow>
            let (ok, n, erange) = uint32_parse (m_erange st) expr (a_n_seconds (m_args st)) in
            if \<not> ok then Inr (Leaves EXIT_FAILURE)
            else Inr (Goes (st\<lparr>m_args := (m_args st)\<lparr>a_n_seconds := n\<rparr>, m_erange := erange\<rparr>))
      else if c = 42 then
        if stack_top (m_stack st) = FILE_STACK_SIZE then Inr (Goes st)
        else
          let arg = g_arg (m_opts st);
              name = (if arg = None \<or> arg = Some (bytes_of ''current'') then Some (Literal (bytes_of ''./''))
                      else map_option Argv arg) in
          map_res (\<lambda>stack. Goes (st\<lparr>m_stack := stack\<rparr>)) (filename_stack_push name (m_stack st))
      else if c = 118 \<or> c = 104 \<or> c = 63 then Inr (Leaves EXIT_SUCCESS)
      else Inr (Goes st))"

lemma handle_option_opts: "handle_option c st = Inr (Goes st') \<Longrightarrow> m_opts st' = m_opts st"
  by (auto simp: handle_option_def Let_def map_res_Inr_iff split: if_splits option.splits prod.splits)

function option_loop :: "main_state \<Rightarrow> turn res" where
  "option_loop st =
     bind_res (getopts_next (m_opts st)) (\<lambda>(c, opts).
       if c = - 1 then Inr (Goes (st\<lparr>m_opts := opts\<rparr>))
       else bind_res (handle_option c (st\<lparr>m_opts := opts\<rparr>)) (\<lambda>t.
         case t of Leaves e \<Rightarrow> Inr (Leaves e) | Goes st \<Rightarrow> option_loop st))"
  by pat_completeness auto
termination
  by (relation "measure (\<lambda>st. length (g_av (m_opts st)))")
     (auto dest!: handle_option_opts getopts_next_shorter)

declare option_loop.simps [simp del]

text \<open>\<open>while (*opts.av++ && *opts.av) filename_stack_push(*opts.av);\<close>\<close>

fun push_rest :: "bytes list \<Rightarrow> file_stack \<Rightarrow> file_stack res" where
  "push_rest [] stack = Inr stack"
| "push_rest [_] stack = Inr stack"
| "push_rest (_ # a # av) stack = bind_res (filename_stack_push (Some (Argv a)) stack) (push_rest (a # av))"

text \<open>How \<^verbatim>\<open>main\<close> ends: with an exit status, or by starting the service on a stack of names.\<close>

datatype started = Exits int | Starts args file_stack

definition sizeof_args :: u64 where
  "sizeof_args = 24"

definition main_start :: "bytes list \<Rightarrow> main_state" where
  "main_start argv =
     \<lparr>m_args = \<lparr>a_flags = 0, a_cron_str = None, a_n_seconds = 0\<rparr>,
      m_opts = getopts_init (length argv) argv (bytes_of ''dvhc:s:''), m_stack = stack_init,
      m_cron = cron_clear, m_erange = False, m_printed = []\<rparr>"

definition main :: "allocator \<Rightarrow> bytes list \<Rightarrow> started res" where
  "main al argv =
     (if length argv = 1 then Inr (Exits EXIT_SUCCESS)
      else if \<not> grants al sizeof_args then Inr (Exits EXIT_FAILURE)
      else
        bind_res (option_loop (main_start argv)) (\<lambda>t.
          case t of
            Leaves e \<Rightarrow> Inr (Exits e)
          | Goes st \<Rightarrow>
              if g_fail (m_opts st) then Inr (Exits EXIT_FAILURE)
              else
                bind_res (push_rest (g_av (m_opts st)) (m_stack st)) (\<lambda>stack.
                bind_res (stack_reverse_in_place stack) (\<lambda>stack.
                  if a_n_seconds (m_args st) \<noteq> 0 \<and> a_cron_str (m_args st) \<noteq> None
                  then Inr (Exits EXIT_FAILURE)
                  else Inr (Starts (m_args st) stack)))))"

text \<open>The process: \<^verbatim>\<open>main\<close>, then the service, whose exit status is the process's.\<close>

definition backd :: "allocator \<Rightarrow> world \<Rightarrow> nat \<Rightarrow> nat \<Rightarrow> nat \<Rightarrow> bytes list \<Rightarrow> int res" where
  "backd al w fuel k n argv =
     bind_res (main al argv) (\<lambda>r. case r of
       Exits e \<Rightarrow> Inr e
     | Starts args stack \<Rightarrow> map_res fst (service w fuel k n stack))"

end
