(* ===== verification/Main_Properties.thy ===== *)
theory Main_Properties
  imports Options Watch_Properties
begin

text \<open>
  The properties of the command line and of the process as a whole.
\<close>

section \<open>File names on the command line\<close>

text \<open>An argument that \<^verbatim>\<open>getopts\<close> takes for a file name: not a dash and one more character.\<close>

definition plain :: "bytes \<Rightarrow> bool" where
  "plain f \<longleftrightarrow> (let f = skip_spaces f in \<not> (chr f = 45 \<and> chr (tl f) \<noteq> 0 \<and> chr (tl (tl f)) = 0))"

text \<open>The name it is pushed under: without leading blanks, the literal \<^verbatim>\<open>./\<close> for \<^verbatim>\<open>current\<close>.\<close>

definition pushed_as :: "bytes \<Rightarrow> filename" where
  "pushed_as f =
     (let f = skip_spaces f in if f = bytes_of ''current'' then Literal (bytes_of ''./'') else Argv f)"

text \<open>The arguments after the file names: none, or \<^verbatim>\<open>--\<close> and names that are taken as they are.\<close>

definition rest_args :: "bytes list option \<Rightarrow> bytes list" where
  "rest_args rest = (case rest of None \<Rightarrow> [] | Some names \<Rightarrow> [45, 45] # names)"

definition rest_names :: "bytes list option \<Rightarrow> filename list" where
  "rest_names rest = (case rest of None \<Rightarrow> [] | Some names \<Rightarrow> map Argv names)"

lemma getopts_next_plain:
  assumes "g_av opts = f # av" and "g_ac opts \<noteq> 0" and "plain f"
  shows "getopts_next opts =
    Inr (42, opts\<lparr>g_arg := Some (skip_spaces f), g_av := av, g_ac := g_ac opts - 1\<rparr>)"
  using assms by (auto simp: getopts_next_def plain_def Let_def)

lemma option_loop_names:
  "list_all plain files \<Longrightarrow> stack_ok (m_stack st) \<Longrightarrow> g_av (m_opts st) = files @ rest_args rest \<Longrightarrow>
    g_ac (m_opts st) = length (g_av (m_opts st)) \<Longrightarrow>
    \<exists>st'. option_loop st = Inr (Goes st') \<and> g_av (m_opts st') = rest_args rest \<and>
      g_fail (m_opts st') = g_fail (m_opts st) \<and> m_args st' = m_args st \<and>
      push_names (map (\<lambda>f. Some (pushed_as f)) files) (m_stack st) = Inr (m_stack st')"
proof (induction files arbitrary: st)
  case Nil
  then show ?case
    by (cases rest) (simp_all add: option_loop.simps [of st] getopts_next_def rest_args_def isspace_def)
next
  case (Cons f files)
  let ?opts = "(m_opts st)\<lparr>g_arg := Some (skip_spaces f), g_av := files @ rest_args rest,
      g_ac := g_ac (m_opts st) - 1\<rparr>"
  have nxt: "getopts_next (m_opts st) = Inr (42, ?opts)"
    by (rule getopts_next_plain) (use Cons.prems in auto)
  obtain stack where push: "filename_stack_push (Some (pushed_as f)) (m_stack st) = Inr stack" "stack_ok stack"
    using push_contents [OF Cons.prems(2)] by blast
  have "stack_top (m_stack st) \<noteq> FILE_STACK_SIZE"
    using Cons.prems(2) by (auto simp: stack_ok_def)
  then have step: "handle_option 42 (st\<lparr>m_opts := ?opts\<rparr>) = Inr (Goes (st\<lparr>m_opts := ?opts, m_stack := stack\<rparr>))"
    using push(1) by (auto simp: handle_option_def pushed_as_def Let_def split: if_splits)
  have "\<exists>st'. option_loop (st\<lparr>m_opts := ?opts, m_stack := stack\<rparr>) = Inr (Goes st') \<and>
      g_av (m_opts st') = rest_args rest \<and> g_fail (m_opts st') = g_fail (m_opts st) \<and> m_args st' = m_args st \<and>
      push_names (map (\<lambda>f. Some (pushed_as f)) files) stack = Inr (m_stack st')"
    using Cons.IH [of "st\<lparr>m_opts := ?opts, m_stack := stack\<rparr>"] Cons.prems push(2) by simp
  then show ?case
    using nxt step push(1) by (simp add: option_loop.simps [of st])
qed

lemma push_rest_names: "push_rest (x # names) stack = push_names (map Some (map Argv names)) stack"
  by (induction names arbitrary: x stack) (simp_all add: bind_res_def split: sum.splits)

lemma main_starts:
  assumes "list_all plain files" and "files @ rest_args rest \<noteq> []" and "grants al sizeof_args"
  shows "\<exists>stack. main al (prog # files @ rest_args rest) =
      Inr (Starts \<lparr>a_flags = 0, a_cron_str = None, a_n_seconds = 0\<rparr> stack) \<and> stack_ok stack \<and>
      contents stack = rev (map Some (take 15 (map pushed_as files @ rest_names rest))) \<and>
      stack_top stack = min 15 (length (map pushed_as files @ rest_names rest))"
proof -
  let ?argv = "prog # files @ rest_args rest" and ?names = "map Some (map pushed_as files @ rest_names rest)"
  have init: "stack_ok stack_init" "contents stack_init = []" "stack_top stack_init = 0"
    by (simp_all add: stack_init_def stack_ok_def FILE_STACK_SIZE_def contents_def)
  obtain st where st: "option_loop (main_start ?argv) = Inr (Goes st)" "g_av (m_opts st) = rest_args rest"
    "\<not> g_fail (m_opts st)" "m_args st = \<lparr>a_flags = 0, a_cron_str = None, a_n_seconds = 0\<rparr>"
    "push_names (map (\<lambda>f. Some (pushed_as f)) files) stack_init = Inr (m_stack st)"
    using option_loop_names [of files "main_start ?argv" rest] assms(1) init(1)
    by (auto simp: main_start_def getopts_init_def)
  have "push_rest (rest_args rest) (m_stack st) = push_names (map Some (rest_names rest)) (m_stack st)"
    by (cases rest) (simp_all add: rest_args_def rest_names_def push_rest_names)
  then have rest': "push_rest (rest_args rest) (m_stack st) = push_names ?names stack_init"
    using st(5) by (simp add: each_res_append comp_def)
  obtain s1 where s1: "push_names ?names stack_init = Inr s1" "stack_ok s1"
    "contents s1 = take 15 ?names" "stack_top s1 = min 15 (length ?names)"
    using push_names_contents [OF init(1), of ?names] init by auto
  obtain s2 where s2: "stack_reverse_in_place s1 = Inr s2" "stack_ok s2"
    "contents s2 = rev (take 15 ?names)" "stack_top s2 = min 15 (length ?names)"
    using reverse_contents [OF s1(2)] s1(3,4) by metis
  have "main al ?argv = Inr (Starts \<lparr>a_flags = 0, a_cron_str = None, a_n_seconds = 0\<rparr> s2)"
    using assms(2,3) st rest' s1(1) s2(1) by (simp add: main_def)
  then show ?thesis
    using s2 by (auto simp: take_map rev_map)
qed

section \<open>The properties\<close>

text \<open>
  A command line of file names, optionally followed by \<^verbatim>\<open>--\<close> and further names, starts the
  service with the first fifteen of them, which come off the stack in the order of the command
  line; names before the \<^verbatim>\<open>--\<close> lose their leading blanks and \<^verbatim>\<open>current\<close> stands for the literal \<^verbatim>\<open>./\<close>.
\<close>

theorem main_collects_names:
  assumes "list_all plain files" and "files @ rest_args rest \<noteq> []" and "grants al sizeof_args"
  shows "\<exists>stack stack'. main al (prog # files @ rest_args rest) =
      Inr (Starts \<lparr>a_flags = 0, a_cron_str = None, a_n_seconds = 0\<rparr> stack) \<and>
    pop_names (min 15 (length (map pushed_as files @ rest_names rest))) stack =
      Inr (map Some (take 15 (map pushed_as files @ rest_names rest)), stack')"
proof -
  obtain stack where main: "main al (prog # files @ rest_args rest) =
      Inr (Starts \<lparr>a_flags = 0, a_cron_str = None, a_n_seconds = 0\<rparr> stack)"
    and ok: "stack_ok stack" and names: "contents stack = rev (map Some (take 15 (map pushed_as files @ rest_names rest)))"
    and size: "stack_top stack = min 15 (length (map pushed_as files @ rest_names rest))"
    using main_starts [OF assms] by blast
  obtain stack' where "pop_names (stack_top stack) stack =
      Inr (take (stack_top stack) (rev (contents stack)), stack')"
    using pop_names_contents [OF ok order_refl] by blast
  then show ?thesis
    using main names size by (auto simp: min_def)
qed

definition sample_argv :: "bytes list" where
  "sample_argv = [[98], [32, 100], [45, 45], [45, 104]]"

theorem main_collects_names_witness:
  "\<exists>stack stack'. main sample_heap sample_argv = Inr (Starts \<lparr>a_flags = 0, a_cron_str = None, a_n_seconds = 0\<rparr> stack) \<and>
     pop_names 2 stack = Inr ([Some (Argv [100]), Some (Argv [45, 104])], stack')"
proof -
  have "list_all plain [[32, 100]]" "pushed_as [32, 100] = Argv [100]"
    by (simp_all add: plain_def pushed_as_def isspace_def bytes_of_def)
  then show ?thesis
    using main_collects_names [of "[[32, 100]]" "Some [[45, 104]]" sample_heap "[98]"]
    by (simp add: sample_argv_def rest_args_def rest_names_def sample_heap_def numeral_2_eq_2)
qed

text \<open>
  C1: the whole process, started on file names in a cooperating system, ends with the failure
  status once a signal has arrived: it parses its arguments, takes its snapshots, observes
  them and releases them without a fault. The name \<^verbatim>\<open>current\<close> is excepted: \<open>current_crashes\<close> shows
  what it does.
\<close>

theorem backd_runs_to_its_end:
  assumes "list_all plain files" and "files @ rest_args rest \<noteq> []" and "grants al sizeof_args"
    and "friendly w rank" and "roomy w room"
    and "\<forall>f \<in> set files. skip_spaces f \<noteq> bytes_of ''current''"
    and "\<forall>f \<in> set (map pushed_as files @ rest_names rest).
      is_cstr (name_text f) \<and> rank (name_text f) < fuel \<and> room (name_text f) < MAX_PATH_SIZE"
    and "advancing w k" and "k < n" and "terminating w T" and "T < m"
  shows "backd al w fuel n m (prog # files @ rest_args rest) = Inr EXIT_FAILURE"
proof -
  let ?names = "map pushed_as files @ rest_names rest"
  obtain stack where main: "main al (prog # files @ rest_args rest) =
      Inr (Starts \<lparr>a_flags = 0, a_cron_str = None, a_n_seconds = 0\<rparr> stack)"
    and ok: "stack_ok stack" and names: "contents stack = rev (map Some (take 15 ?names))"
    using main_starts [OF assms(1-3)] by blast
  have "\<forall>f \<in> set ?names. kept f"
    using assms(6) by (auto simp: pushed_as_def rest_names_def Let_def split: option.splits)
  then have "names_ok rank fuel (contents stack)" "names_fit room (contents stack)"
    using assms(7) names by (auto simp: names_ok_def names_fit_def list_all_iff dest!: in_set_takeD)
  then obtain freed sv where "service w fuel n m stack = Inr (EXIT_FAILURE, [], freed, sv)"
    using service_ends [OF assms(4,5) ok _ _ assms(8-11)] by blast
  then show ?thesis
    using main by (simp add: backd_def)
qed

theorem backd_runs_to_its_end_witness:
  "backd sample_heap tick_world 2 2 101 [[98], [100]] = Inr EXIT_FAILURE"
proof -
  have "plain [100]" "pushed_as [100] = Argv [100]"
    by (simp_all add: plain_def pushed_as_def isspace_def bytes_of_def)
  moreover have "sample_rank [100] < 2" "sample_room [100] < MAX_PATH_SIZE"
    by (simp_all add: sample_rank_def sample_room_def MAX_PATH_SIZE_def basename_def strip_slashes_def)
  ultimately show ?thesis
    using backd_runs_to_its_end [of "[[100]]" None sample_heap tick_world sample_rank sample_room 2 1 2 100 101 "[98]"]
      tick_world_runs by (simp add: rest_args_def rest_names_def sample_heap_def isspace_def bytes_of_def)
qed

text \<open>
  \<^verbatim>\<open>backd current\<close> crashes: the name stands for a literal, and \<^verbatim>\<open>basename\<close> stores a NUL over its slash.
\<close>

lemma current_literal: "snd (basename (bytes_of ''./'')) \<noteq> bytes_of ''./''"
  by code_simp

theorem current_crashes:
  assumes "grants al sizeof_args" and "\<forall>t i. grants (w_alloc w t) i"
  shows "backd al w fuel n m [prog, bytes_of ''current''] = Inl Read_Only_Write"
proof -
  have current: "plain (bytes_of ''current'')" "pushed_as (bytes_of ''current'') = Literal (bytes_of ''./'')"
    by (code_simp, code_simp)
  obtain st where main: "main al [prog, bytes_of ''current''] =
      Inr (Starts \<lparr>a_flags = 0, a_cron_str = None, a_n_seconds = 0\<rparr> st)"
    and st: "stack_ok st" "contents st = [Some (Literal (bytes_of ''./''))]" "stack_top st = 1"
    using main_starts [of "[bytes_of ''current'']" None al prog] assms(1) current
    by (auto simp: rest_args_def rest_names_def)
  obtain st' where pop: "filename_stack_pop st = Inr (Some (Literal (bytes_of ''./'')), st')"
    using pop_contents [OF st(1)] st(2,3) by auto
  have "fs_target_create_named w fuel (Literal (bytes_of ''./'')) s = Inl Read_Only_Write" for s
    using assms(2) by (simp add: fs_target_create_named_def current_literal create_defs heap_def)
  then have "service_init_step w fuel (service_start st) = Inl Read_Only_Write"
    using pop by (simp add: service_init_step_def service_start_def store_slot_def Let_def)
  then show ?thesis
    using main st(3) by (simp add: backd_def service_def)
qed

theorem current_crashes_witness:
  "backd sample_heap tick_world 2 2 101 [[98], bytes_of ''current''] = Inl Read_Only_Write"
  by (rule current_crashes) (simp_all add: sample_heap_def tick_world_def sample_world_def)

text \<open>
  C36: \<open>uint32_parse\<close> takes a decimal number exactly up to the greatest signed 32 bit integer,
  so half of the unsigned range is refused, and takes a negative number for its two's complement.
\<close>

theorem uint32_parse_signed:
  assumes "0 < n"
  shows "uint32_parse erange (digits n) dest =
      (if int n \<le> INT_MAX then (True, of_nat n, erange) else (False, dest, erange)) \<and>
    uint32_parse erange (45 # digits n) dest =
      (if int n \<le> INT_MAX + 1 then (True, - of_nat n, erange) else (False, dest, erange))"
  using uint32_parse_decimal [OF assms] by simp

theorem uint32_parse_signed_witness:
  "uint32_parse False (digits 3000000000) 0 = (False, 0, False) \<and>
   uint32_parse False (45 # digits 1) 0 = (True, 0xFFFFFFFF, False)"
  using uint32_parse_signed [of 3000000000 False 0] uint32_parse_signed [of 1 False 0]
  by (simp add: INT_MAX_def)

end
