(* ===== verification/Logging.thy ===== *)
theory Logging
  imports Format_Spec Target
begin

text \<open>
  The log lines of \<^verbatim>\<open>daemon/srcs/lib/logging.c\<close>, the text of an event
  (\<^verbatim>\<open>daemon/srcs/fs/events\<close>) and the report of \<^verbatim>\<open>daemon/srcs/perf.c\<close>, as the
  bytes they put on \<^verbatim>\<open>stderr\<close>. The date and the zone that \<^verbatim>\<open>strftime\<close> makes of the time, the
  microseconds of \<^verbatim>\<open>gettimeofday\<close>, and the text that \<^verbatim>\<open>vfprintf\<close> makes of the caller's format are
  parameters; the header goes through \<open>fputstr\<close>.
\<close>

section \<open>Log lines\<close>

datatype log_level = verbose | info | debug | warning | error | fatal

text \<open>The value of the enumerator, and its tag.\<close>

fun level_no :: "log_level \<Rightarrow> nat" where
  "level_no verbose = 0"
| "level_no info = 1"
| "level_no debug = 2"
| "level_no warning = 3"
| "level_no error = 4"
| "level_no fatal = 5"

text \<open>Levels compare as their values.\<close>

instantiation log_level :: linorder
begin

definition less_eq_log_level :: "log_level \<Rightarrow> log_level \<Rightarrow> bool" where
  "l \<le> m \<longleftrightarrow> level_no l \<le> level_no m"

definition less_log_level :: "log_level \<Rightarrow> log_level \<Rightarrow> bool" where
  "l < m \<longleftrightarrow> level_no l < level_no m"

instance
proof
  fix l m n :: log_level
  show "l \<le> m \<Longrightarrow> m \<le> l \<Longrightarrow> l = m"
    by (cases l; cases m) (simp_all add: less_eq_log_level_def)
qed (auto simp: less_eq_log_level_def less_log_level_def)

end

fun level_tag :: "log_level \<Rightarrow> bytes" where
  "level_tag verbose = bytes_of ''verbose''"
| "level_tag debug = bytes_of ''debug''"
| "level_tag info = bytes_of ''info''"
| "level_tag warning = bytes_of ''warning''"
| "level_tag error = bytes_of ''error''"
| "level_tag fatal = bytes_of ''fatal''"

text \<open>
  The time stamp is put together in \<^verbatim>\<open>ts[50]\<close>. \<^verbatim>\<open>strftime\<close> stores its text when it fits with its
  terminator and leaves the array indeterminate otherwise; \<^verbatim>\<open>snprintf\<close> cuts it.
\<close>

definition strftime_into :: "nat \<Rightarrow> bytes \<Rightarrow> bytes res" where
  "strftime_into cap text = (if length text < cap then Inr text else Inl Indeterminate)"

definition milliseconds :: "nat \<Rightarrow> bytes" where
  "milliseconds usec = (let ds = digits (usec div 1000) in 46 # replicate (3 - length ds) 48 @ ds)"

definition log_stamp :: "bytes \<Rightarrow> nat \<Rightarrow> bytes \<Rightarrow> bytes res" where
  "log_stamp date usec zone =
     bind_res (strftime_into 50 date) (\<lambda>ts.
       let ts = ts @ take (50 - length ts - 1) (milliseconds usec) in
       map_res (\<lambda>z. ts @ z) (strftime_into (50 - length ts) zone))"

text \<open>\<open>log_level\<close> is the global; \<open>buf\<close> is the static buffer of \<open>fputstr\<close>.\<close>

definition logger ::
  "log_level \<Rightarrow> bytes \<Rightarrow> bytes \<Rightarrow> nat \<Rightarrow> bytes \<Rightarrow> log_level \<Rightarrow> bytes \<Rightarrow> bytes \<Rightarrow> u32 \<Rightarrow> bytes \<Rightarrow> bytes res"
where
  "logger log_level buf date usec zone level filename func lineno message =
     bind_res (log_stamp date usec zone) (\<lambda>ts.
       if level < log_level then Inr []
       else
         map_res (\<lambda>header. header @ message @ [10])
           (if level = info
            then fputstr buf (bytes_of ''%s [%s]: '') [VStr (Some ts), VStr (Some (level_tag level))]
            else fputstr buf (bytes_of ''%s [%s] (%s: %s: %d): '')
              [VStr (Some ts), VStr (Some (level_tag level)), VStr (Some filename), VStr (Some func), VInt lineno]))"

definition xre_log_set_level :: "log_level \<Rightarrow> log_level \<Rightarrow> log_level" where
  "xre_log_set_level level log_level = level"

definition backd_failure :: "bytes \<Rightarrow> bytes" where
  "backd_failure message = bytes_of ''backd: '' @ message @ [10]"

section \<open>The lines of the events\<close>

text \<open>\<^verbatim>\<open>%20s\<close>, \<^verbatim>\<open>%lx\<close>, and the \<^verbatim>\<open>fprintf\<close> of \<open>print_fs_target_event\<close>; \<^verbatim>\<open>ctime\<close> is a parameter.\<close>

definition pad20 :: "bytes \<Rightarrow> bytes" where
  "pad20 s = replicate (20 - length s) 32 @ s"

definition lx :: "u64 \<Rightarrow> bytes" where
  "lx n = (if n = 0 then [48] else hexits (unat n))"

definition report_text :: "(u64 \<Rightarrow> bytes) \<Rightarrow> report \<Rightarrow> bytes" where
  "report_text ctime r =
     pad20 (r_path r) @ bytes_of '' (id: '' @ lx (r_uid r) @ bytes_of '', timestamp: '' @
     digits (unat (r_at r)) @ bytes_of '')'' @ [10] @
     pad20 (bytes_of (r_label r)) @ bytes_of '' at '' @ ctime (r_mtime r) @ [10]"

section \<open>The report of the performance counters\<close>

text \<open>\<^verbatim>\<open>%10ld\<close> of a counter.\<close>

definition ld10 :: "u64 \<Rightarrow> bytes" where
  "ld10 n =
     (let ds = (if sint n < 0 then 45 # digits (nat (- sint n)) else digits (nat (sint n))) in
      replicate (10 - length ds) 32 @ ds)"

definition perf_tracking_report :: "perf \<Rightarrow> bytes" where
  "perf_tracking_report p =
     bytes_of ''TRACKING'' @ [10] @
     bytes_of ''     calls:'' @ [10] @
     bytes_of ''          stat '' @ ld10 (n_stat p) @ [10] @
     bytes_of ''       opendir '' @ ld10 (n_opendir p) @ [10] @
     bytes_of ''      closedir '' @ ld10 (n_closedir p) @ [10] @
     bytes_of ''       readdir '' @ ld10 (n_readdir p) @ [10] @ [10] @
     bytes_of ''  tracking:'' @ [10] @
     bytes_of ''        rounds '' @ ld10 (n_rounds p) @ [10] @
     bytes_of ''        events '' @ ld10 (n_events p) @ [10] @
     bytes_of ''       targets '' @ ld10 (n_target p) @ [10]"

section \<open>What a log line is\<close>

definition log_header :: "bytes \<Rightarrow> log_level \<Rightarrow> bytes \<Rightarrow> bytes \<Rightarrow> u32 \<Rightarrow> bytes" where
  "log_header ts level filename func lineno =
     ts @ [32, 91] @ level_tag level @ [93] @
     (if level = info then [] else [32, 40] @ filename @ [58, 32] @ func @ [58, 32] @ show_int lineno @ [41]) @
     [58, 32]"

lemma header_formats:
  "bytes_of ''%s [%s]: '' = [37, 115, 32, 91, 37, 115, 93, 58, 32]"
  "bytes_of ''%s [%s] (%s: %s: %d): '' =
     [37, 115, 32, 91, 37, 115, 93, 32, 40, 37, 115, 58, 32, 37, 115, 58, 32, 37, 100, 41, 58, 32]"
  by code_simp+

lemma length_milliseconds: "usec < 1000000 \<Longrightarrow> length (milliseconds usec) = 4"
  using length_digits [of "usec div 1000" 2] by (simp add: milliseconds_def Let_def)

lemma log_stamp_fits:
  assumes "length date + length zone \<le> 45" and "usec < 1000000"
  shows "log_stamp date usec zone = Inr (date @ milliseconds usec @ zone)"
  using assms by (simp add: log_stamp_def strftime_into_def length_milliseconds)

text \<open>
  C39: a message below the level in force is dropped; every other one is printed as one line, its
  header cut at the size of the buffer and its time stamp to the millisecond, which never
  overflows its array of 50 bytes. Only a line number of -2147483648, which no source file has,
  would overflow in the conversion of a header that shows it. The order of the levels is that of the enumeration,
  in which \<^verbatim>\<open>debug\<close> lies between \<^verbatim>\<open>info\<close> and \<^verbatim>\<open>warning\<close>: the default level \<^verbatim>\<open>info\<close> lets it pass.
\<close>

theorem logger_prints:
  assumes "length buf = IOBUF_MAX" and "length date + length zone \<le> 45" and "usec < 1000000"
  shows "logger log_level buf date usec zone level filename func lineno message =
    (if level < log_level then Inr []
     else if level \<noteq> info \<and> lineno = INT_MIN then Inl Signed_Overflow
     else Inr (take IOBUF_MAX (log_header (date @ milliseconds usec @ zone) level filename func lineno) @ message @ [10])) \<and>
    verbose < info \<and> info < debug \<and> debug < warning \<and> warning < error \<and> error < fatal"
  by (simp add: logger_def log_stamp_fits [OF assms(2,3)] fputstr_eq [OF assms(1)] header_formats log_header_def
      show_str_def less_log_level_def)

theorem logger_prints_witness:
  "logger info (replicate IOBUF_MAX 0) [49] 42000 [43] debug [102] [103] 7 [104] =
    Inr (bytes_of ''1.042+ [debug] (f: g: 7): h'' @ [10])"
proof -
  have "\<not> debug < info"
    by (simp add: less_log_level_def)
  then have "logger info (replicate IOBUF_MAX 0) [49] 42000 [43] debug [102] [103] 7 [104] =
      Inr (take IOBUF_MAX (log_header ([49] @ milliseconds 42000 @ [43]) debug [102] [103] 7) @ [104] @ [10])"
    using logger_prints [of "replicate IOBUF_MAX 0" "[49]" "[43]" 42000 info debug "[102]" "[103]" 7 "[104]"] by simp
  moreover have "milliseconds 42000 = [46, 48, 52, 50]"
    by (simp add: milliseconds_def digits_step digit_def)
  moreover have "take IOBUF_MAX (log_header ([49] @ [46, 48, 52, 50] @ [43]) debug [102] [103] 7) @ [104] @ [10] =
      bytes_of ''1.042+ [debug] (f: g: 7): h'' @ [10]"
    by code_simp
  ultimately show ?thesis
    by (simp only:)
qed

end
