(* ===== verification/Messages.thy ===== *)
theory Messages
  imports Options Logging
begin

text \<open>
  What \<^verbatim>\<open>main\<close> prints. On \<^verbatim>\<open>stderr\<close> (\<open>main_says\<close>): \<^verbatim>\<open>usage\<close> and \<^verbatim>\<open>version\<close>, the diagnostics of
  \<^verbatim>\<open>daemon/srcs/lib/args.c\<close>, and the complaint about \<^verbatim>\<open>-s\<close> with \<^verbatim>\<open>-c\<close>, one entry per \<^verbatim>\<open>fprintf\<close>. On
  \<^verbatim>\<open>stdout\<close> (\<open>main_prints\<close>): the lines of the cron arrays for each cron string. Nothing that is printed is
  read again, so the output is a function beside each step, in order. A
  message of \<open>getopts\<close> names the option by its character.
\<close>

section \<open>The texts\<close>

record g_state =
  gs_title :: bytes
  gs_version :: bytes
  gs_fd_out :: u32

definition backd_state :: g_state where
  "backd_state = \<lparr>gs_title = bytes_of ''backd'', gs_version = bytes_of ''0.0.1'', gs_fd_out = 2\<rparr>"

definition usage :: "g_state \<Rightarrow> bytes" where
  "usage g =
     bytes_of ''backd - Tracking daemon v'' @ gs_version g @ [10] @
     bytes_of ''usage: '' @ gs_title g @ bytes_of '' [-vsh] [-c CRON_STR] [FILES] ...'' @ [10, 10] @
     bytes_of ''options:'' @ [10] @
     bytes_of ''    -c  [CRON_STR] Cron string'' @ [10] @
     bytes_of ''    -s  [N]        Run every N seconds'' @ [10] @
     bytes_of ''    -v             Version information'' @ [10] @
     bytes_of ''    -h             This help message'' @ [10, 10]"

definition version :: "g_state \<Rightarrow> bytes" where
  "version g = gs_title g @ [45] @ gs_version g @ [10]"

definition illegal_option :: "u8 \<Rightarrow> bytes" where
  "illegal_option c = bytes_of ''illegal option -- '' @ [c, 10]"

definition missing_argument :: "u8 \<Rightarrow> bytes" where
  "missing_argument c = bytes_of ''option requires an argument -- '' @ [c, 10]"

definition not_a_number :: "bytes \<Rightarrow> bytes" where
  "not_a_number expr = expr @ bytes_of '': Is not a valid number'' @ [10]"

definition not_compatible :: bytes where
  "not_compatible = backd_failure (bytes_of ''Invalid arguments: -s, -c are not compatible'')"

section \<open>Who prints them\<close>

definition getopts_says :: "getopts \<Rightarrow> bytes list" where
  "getopts_says opts =
     (if g_ac opts = 0 then []
      else
        case g_av opts of
          [] \<Rightarrow> []
        | a # av \<Rightarrow>
            let ptr = skip_spaces a in
            if chr ptr = 45 \<and> chr (tl ptr) \<noteq> 0 \<and> chr (tl (tl ptr)) = 0 \<and> chr (tl ptr) \<noteq> 45 then
              case strchr (g_ostr opts) (chr (tl ptr)) of
                None \<Rightarrow> [illegal_option (chr (tl ptr))]
              | Some ch \<Rightarrow>
                  if chr (tl ch) = 58 \<and> fst (next_arg opts) = None then [missing_argument (chr ch)] else []
            else [])"

definition uint32_says :: "bool \<Rightarrow> bytes \<Rightarrow> u32 \<Rightarrow> bytes list" where
  "uint32_says erange expr dest =
     (let (ok, n, erange) = uint32_parse erange expr dest in if ok then [] else [not_a_number expr])"

definition string_says :: "bytes option \<Rightarrow> bytes list" where
  "string_says expr = (if expr = None then [bytes_of ''missing string'' @ [10]] else [])"

definition option_says :: "int \<Rightarrow> main_state \<Rightarrow> bytes list" where
  "option_says c st =
     (if c = 99 then string_says (g_arg (m_opts st))
      else if c = 115 then
        (case g_arg (m_opts st) of
           None \<Rightarrow> [] | Some expr \<Rightarrow> uint32_says (m_erange st) expr (a_n_seconds (m_args st)))
      else if c = 118 then [version backd_state]
      else if c = 104 \<or> c = 63 then [usage backd_state]
      else [])"

function loop_says :: "main_state \<Rightarrow> bytes list" where
  "loop_says st =
     getopts_says (m_opts st) @
     (case getopts_next (m_opts st) of
        Inl _ \<Rightarrow> []
      | Inr (c, opts) \<Rightarrow>
          if c = - 1 then []
          else
            option_says c (st\<lparr>m_opts := opts\<rparr>) @
            (case handle_option c (st\<lparr>m_opts := opts\<rparr>) of
               Inl _ \<Rightarrow> []
             | Inr t \<Rightarrow> (case t of Leaves e \<Rightarrow> [] | Goes st \<Rightarrow> loop_says st)))"
  by pat_completeness auto
termination
  by (relation "measure (\<lambda>st. length (g_av (m_opts st)))")
     (auto dest!: handle_option_opts getopts_next_shorter)

declare loop_says.simps [simp del]

text \<open>After the loop: \<^verbatim>\<open>main\<close> complains once the names are on the stack.\<close>

definition finish_says :: "turn \<Rightarrow> bytes list" where
  "finish_says t = (case t of
     Leaves e \<Rightarrow> []
   | Goes st \<Rightarrow>
       if g_fail (m_opts st) then []
       else
         case bind_res (push_rest (g_av (m_opts st)) (m_stack st)) stack_reverse_in_place of
           Inl _ \<Rightarrow> []
         | Inr stack \<Rightarrow>
             if a_n_seconds (m_args st) \<noteq> 0 \<and> a_cron_str (m_args st) \<noteq> None then [not_compatible] else [])"

definition run_says :: "main_state \<Rightarrow> bytes list" where
  "run_says st = loop_says st @ (case option_loop st of Inl _ \<Rightarrow> [] | Inr t \<Rightarrow> finish_says t)"

definition main_says :: "allocator \<Rightarrow> bytes list \<Rightarrow> bytes list" where
  "main_says al argv =
     (if length argv = 1 then [usage backd_state]
      else if \<not> grants al sizeof_args then []
      else run_says (main_start argv))"

text \<open>The lines on \<^verbatim>\<open>stdout\<close>: those that \<open>cron_check\<close> prints when it returns.\<close>

definition option_prints :: "int \<Rightarrow> main_state \<Rightarrow> string list" where
  "option_prints c st =
     (if c = 99 \<and> fst (string_parse (g_arg (m_opts st)) (a_cron_str (m_args st))) then
        case cron_check (m_cron st) (g_arg (m_opts st)) of
          Inl _ \<Rightarrow> [] | Inr (cron, lines, result) \<Rightarrow> lines
      else [])"

function loop_prints :: "main_state \<Rightarrow> string list" where
  "loop_prints st =
     (case getopts_next (m_opts st) of
        Inl _ \<Rightarrow> []
      | Inr (c, opts) \<Rightarrow>
          if c = - 1 then []
          else
            option_prints c (st\<lparr>m_opts := opts\<rparr>) @
            (case handle_option c (st\<lparr>m_opts := opts\<rparr>) of
               Inl _ \<Rightarrow> []
             | Inr t \<Rightarrow> (case t of Leaves e \<Rightarrow> [] | Goes st \<Rightarrow> loop_prints st)))"
  by pat_completeness auto
termination
  by (relation "measure (\<lambda>st. length (g_av (m_opts st)))")
     (auto dest!: handle_option_opts getopts_next_shorter)

declare loop_prints.simps [simp del]

definition main_prints :: "allocator \<Rightarrow> bytes list \<Rightarrow> string list" where
  "main_prints al argv =
     (if length argv = 1 \<or> \<not> grants al sizeof_args then [] else loop_prints (main_start argv))"

text \<open>They are the lines \<open>main\<close> has collected.\<close>

lemma option_prints_collected:
  "handle_option c st = Inr (Goes st') \<Longrightarrow> m_printed st' = m_printed st @ option_prints c st"
  by (auto simp: handle_option_def option_prints_def string_parse_def Let_def map_res_Inr_iff
      split: if_splits option.splits prod.splits)

lemma loop_prints_collected:
  "option_loop st = Inr (Goes st') \<Longrightarrow> m_printed st' = m_printed st @ loop_prints st"
proof (induction st rule: option_loop.induct)
  case (1 st)
  obtain c opts where nxt: "getopts_next (m_opts st) = Inr (c, opts)"
    using "1.prems" by (auto simp: option_loop.simps [of st] bind_res_Inr_iff)
  show ?case
  proof (cases "c = - 1")
    case True
    then show ?thesis
      using "1.prems" nxt by (auto simp: option_loop.simps [of st] loop_prints.simps [of st])
  next
    case False
    obtain st1 where st1: "handle_option c (st\<lparr>m_opts := opts\<rparr>) = Inr (Goes st1)" "option_loop st1 = Inr (Goes st')"
    proof -
      obtain t where t: "handle_option c (st\<lparr>m_opts := opts\<rparr>) = Inr t"
        "(case t of Leaves e \<Rightarrow> Inr (Leaves e) | Goes st \<Rightarrow> option_loop st) = Inr (Goes st')"
        using "1.prems" nxt False by (auto simp: option_loop.simps [of st] bind_res_Inr_iff)
      then show thesis
        using that by (cases t) auto
    qed
    have "m_printed st' = m_printed st1 @ loop_prints st1"
      using "1.IH" [OF nxt refl False st1(1) refl st1(2)] .
    then show ?thesis
      using nxt False st1(1) option_prints_collected [OF st1(1)] by (simp add: loop_prints.simps [of st])
  qed
qed

section \<open>A step that goes on is silent\<close>

lemma getopts_says_goes:
  assumes "getopts_next opts = Inr (c, opts')" and "c \<noteq> - 1" and "c \<noteq> 63"
  shows "getopts_says opts = []"
  using assms
  by (auto simp: getopts_next_def getopts_says_def Let_def next_arg_def split: if_splits option.splits list.splits)

lemma option_says_goes:
  assumes "handle_option c st = Inr (Goes st')"
  shows "option_says c st = []"
  using assms
  by (auto simp: handle_option_def option_says_def string_says_def uint32_says_def string_parse_def Let_def
      split: if_splits option.splits prod.splits)

lemma handle_option_unknown: "handle_option 63 st = Inr (Leaves EXIT_SUCCESS)"
  by (simp add: handle_option_def)

lemma run_says_goes:
  assumes "getopts_next (m_opts st) = Inr (c, opts)" and "c \<noteq> - 1"
    and "handle_option c (st\<lparr>m_opts := opts\<rparr>) = Inr (Goes st')"
  shows "run_says st = run_says st'"
proof -
  have "c \<noteq> 63"
    using assms(3) handle_option_unknown by auto
  then show ?thesis
    using assms getopts_says_goes [OF assms(1,2)] option_says_goes [OF assms(3)]
    by (simp add: run_says_def loop_says.simps [of st] option_loop.simps [of st])
qed

lemma run_says_leaves:
  assumes "getopts_next (m_opts st) = Inr (c, opts)" and "c \<noteq> - 1"
    and "handle_option c (st\<lparr>m_opts := opts\<rparr>) = Inr (Leaves e)"
  shows "run_says st = getopts_says (m_opts st) @ option_says c (st\<lparr>m_opts := opts\<rparr>)"
  using assms by (simp add: run_says_def loop_says.simps [of st] option_loop.simps [of st] finish_says_def)

lemma run_says_stops:
  assumes "getopts_next (m_opts st) = Inr (- 1, opts)"
  shows "run_says st = getopts_says (m_opts st) @ finish_says (Goes (st\<lparr>m_opts := opts\<rparr>))"
  using assms by (simp add: run_says_def loop_says.simps [of st] option_loop.simps [of st])

text \<open>Both outputs of the rest of a run.\<close>

definition outputs :: "main_state \<Rightarrow> bytes list \<times> string list" where
  "outputs st = (run_says st, loop_prints st)"

lemma outputs_stops:
  assumes "getopts_next (m_opts st) = Inr (- 1, opts)"
  shows "outputs st = (getopts_says (m_opts st) @ finish_says (Goes (st\<lparr>m_opts := opts\<rparr>)), [])"
  using assms by (simp add: outputs_def run_says_stops loop_prints.simps [of st])

lemma outputs_leaves:
  assumes "getopts_next (m_opts st) = Inr (c, opts)" and "c \<noteq> - 1" and "c \<noteq> 99"
    and "handle_option c (st\<lparr>m_opts := opts\<rparr>) = Inr (Leaves e)"
  shows "outputs st = (getopts_says (m_opts st) @ option_says c (st\<lparr>m_opts := opts\<rparr>), [])"
  using assms run_says_leaves [OF assms(1,2,4)]
  by (simp add: outputs_def loop_prints.simps [of st] option_prints_def)

lemma loop_prints_goes:
  assumes "getopts_next (m_opts st) = Inr (c, opts)" and "c \<noteq> - 1"
    and "handle_option c (st\<lparr>m_opts := opts\<rparr>) = Inr (Goes st')"
  shows "loop_prints st = option_prints c (st\<lparr>m_opts := opts\<rparr>) @ loop_prints st'"
  using assms by (simp add: loop_prints.simps [of st])

end
