(* ===== verification/Command_Line.thy ===== *)
theory Command_Line
  imports Messages Main_Properties Cron_Properties
begin

text \<open>
  What a command line means, without the pointers of \<^verbatim>\<open>getopts\<close>: the arguments are read as a list
  of words and an ending, and the words are interpreted one by one: how they end the program
  (\<open>perform\<close>), and what is printed on the way (\<open>explain\<close>). \<^verbatim>\<open>main\<close> does and prints what the
  interpretation says for every vector of C strings.
\<close>

section \<open>Words\<close>

datatype cmd_word = Debug | Version | Help | Colon | Unknown u8 | Cron_String bytes | Seconds bytes | File bytes

text \<open>How the list ends: with its last word, in the middle of one, or at \<^verbatim>\<open>--\<close> with what follows.\<close>

datatype cmd_end = Complete | Missing_Argument u8 | After_Dashes "bytes list"

text \<open>The character behind the dash of an option: the argument is a dash and one character.\<close>

definition option_char :: "bytes \<Rightarrow> u8 option" where
  "option_char a = (case skip_spaces a of [d, c] \<Rightarrow> if d = 45 then Some c else None | _ \<Rightarrow> None)"

fun read_words :: "bytes list \<Rightarrow> cmd_word list \<times> cmd_end" where
  "read_words [] = ([], Complete)"
| "read_words (a # av) =
     (let more = (\<lambda>x. let (xs, e) = read_words av in (x # xs, e));
          with_argument = (\<lambda>c x. case av of
              [] \<Rightarrow> ([], Missing_Argument c)
            | s # av \<Rightarrow> let (xs, e) = read_words av in (x s # xs, e)) in
      case option_char a of
        None \<Rightarrow> more (File a)
      | Some c \<Rightarrow>
          if c = 45 then ([], After_Dashes av)
          else if c = 100 then more Debug
          else if c = 118 then more Version
          else if c = 104 then more Help
          else if c = 58 then more Colon
          else if c = 99 then with_argument c Cron_String
          else if c = 115 then with_argument c Seconds
          else more (Unknown c))"

section \<open>Their meaning\<close>

datatype outcome = Hangs | Exit int | Serve args "filename list"

definition cron_hangs :: "bytes \<Rightarrow> bool" where
  "cron_hangs s \<longleftrightarrow> cron_check cron_clear (Some s) = Inl Out_Of_Fuel"

text \<open>The first fifteen names are served, unless both a period and a cron string were given.\<close>

definition conclude :: "args \<Rightarrow> filename list \<Rightarrow> outcome" where
  "conclude args names =
     (if a_n_seconds args \<noteq> 0 \<and> a_cron_str args \<noteq> None then Exit EXIT_FAILURE
      else Serve args (take 15 names))"

text \<open>\<open>erange\<close> is the state of \<^verbatim>\<open>errno\<close>, which \<^verbatim>\<open>-s\<close> reads and sets; \<open>names\<close> are the names so far.\<close>

fun perform :: "args \<Rightarrow> bool \<Rightarrow> filename list \<Rightarrow> cmd_word list \<Rightarrow> cmd_end \<Rightarrow> outcome" where
  "perform args erange names [] Complete = conclude args names"
| "perform args erange names [] (Missing_Argument c) = Exit EXIT_FAILURE"
| "perform args erange names [] (After_Dashes rest) = conclude args (names @ map Argv rest)"
| "perform args erange names (x # xs) e = (case x of
       Debug \<Rightarrow> perform (args\<lparr>a_flags := a_flags args OR FLAGS_DEBUG\<rparr>) erange names xs e
     | Version \<Rightarrow> Exit EXIT_SUCCESS
     | Help \<Rightarrow> Exit EXIT_SUCCESS
     | Colon \<Rightarrow> perform args erange names xs e
     | Unknown c \<Rightarrow> Exit EXIT_SUCCESS
     | Cron_String s \<Rightarrow>
         if cron_hangs s then Hangs else perform (args\<lparr>a_cron_str := Some s\<rparr>) erange names xs e
     | Seconds s \<Rightarrow>
         (let (ok, n, erange) = uint32_parse erange s (a_n_seconds args) in
          if ok then perform (args\<lparr>a_n_seconds := n\<rparr>) erange names xs e else Exit EXIT_FAILURE)
     | File f \<Rightarrow> perform args erange (names @ [pushed_as f]) xs e)"

text \<open>The messages: none unless the last word that is read ends the program.\<close>

definition clash :: "args \<Rightarrow> bytes list" where
  "clash args = (if a_n_seconds args \<noteq> 0 \<and> a_cron_str args \<noteq> None then [not_compatible] else [])"

fun explain :: "args \<Rightarrow> bool \<Rightarrow> cmd_word list \<Rightarrow> cmd_end \<Rightarrow> bytes list" where
  "explain args erange [] (Missing_Argument c) = [missing_argument c]"
| "explain args erange [] _ = clash args"
| "explain args erange (x # xs) e = (case x of
       Debug \<Rightarrow> explain (args\<lparr>a_flags := a_flags args OR FLAGS_DEBUG\<rparr>) erange xs e
     | Version \<Rightarrow> [version backd_state]
     | Help \<Rightarrow> [usage backd_state]
     | Colon \<Rightarrow> explain args erange xs e
     | Unknown c \<Rightarrow> [illegal_option c, usage backd_state]
     | Cron_String s \<Rightarrow> if cron_hangs s then [] else explain (args\<lparr>a_cron_str := Some s\<rparr>) erange xs e
     | Seconds s \<Rightarrow>
         (let (ok, n, erange) = uint32_parse erange s (a_n_seconds args) in
          if ok then explain (args\<lparr>a_n_seconds := n\<rparr>) erange xs e else [not_a_number s])
     | File f \<Rightarrow> explain args erange xs e)"

text \<open>The lines on \<^verbatim>\<open>stdout\<close>: the arrays of each cron string that is reached.\<close>

definition cron_lines :: "bytes \<Rightarrow> string list" where
  "cron_lines s = (case cron_check cron_clear (Some s) of Inl _ \<Rightarrow> [] | Inr (cron, lines, result) \<Rightarrow> lines)"

fun displayed :: "args \<Rightarrow> bool \<Rightarrow> cmd_word list \<Rightarrow> cmd_end \<Rightarrow> string list" where
  "displayed args erange [] e = []"
| "displayed args erange (x # xs) e = (case x of
       Debug \<Rightarrow> displayed (args\<lparr>a_flags := a_flags args OR FLAGS_DEBUG\<rparr>) erange xs e
     | Version \<Rightarrow> []
     | Help \<Rightarrow> []
     | Colon \<Rightarrow> displayed args erange xs e
     | Unknown c \<Rightarrow> []
     | Cron_String s \<Rightarrow>
         if cron_hangs s then [] else cron_lines s @ displayed (args\<lparr>a_cron_str := Some s\<rparr>) erange xs e
     | Seconds s \<Rightarrow>
         (let (ok, n, erange) = uint32_parse erange s (a_n_seconds args) in
          if ok then displayed (args\<lparr>a_n_seconds := n\<rparr>) erange xs e else [])
     | File f \<Rightarrow> displayed args erange xs e)"

definition no_args :: args where
  "no_args = \<lparr>a_flags = 0, a_cron_str = None, a_n_seconds = 0\<rparr>"

definition meaning :: "bytes list \<Rightarrow> outcome" where
  "meaning av = (let (xs, e) = read_words av in perform no_args False [] xs e)"

text \<open>An outcome of the program that an interpretation stands for.\<close>

fun carries :: "outcome \<Rightarrow> started res \<Rightarrow> bool" where
  "carries Hangs r \<longleftrightarrow> r = Inl Out_Of_Fuel"
| "carries (Exit e) r \<longleftrightarrow> r = Inr (Exits e)"
| "carries (Serve args names) r \<longleftrightarrow>
     (\<exists>stack. r = Inr (Starts args stack) \<and> stack_ok stack \<and> contents stack = rev (map Some names))"

section \<open>getopts reads words\<close>

lemma skip_spaces_cstr: "is_cstr s \<Longrightarrow> is_cstr (skip_spaces s)"
  by (induction s) (auto simp: is_cstr_def)

lemma option_test:
  assumes "is_cstr a"
  shows "(chr (skip_spaces a) = 45 \<and> chr (tl (skip_spaces a)) \<noteq> 0 \<and> chr (tl (tl (skip_spaces a))) = 0) \<longleftrightarrow>
    (\<exists>c. option_char a = Some c)"
    and "option_char a = Some c \<Longrightarrow> skip_spaces a = [45, c]"
proof -
  have p: "is_cstr (skip_spaces a)"
    by (rule skip_spaces_cstr [OF assms])
  show "(chr (skip_spaces a) = 45 \<and> chr (tl (skip_spaces a)) \<noteq> 0 \<and> chr (tl (tl (skip_spaces a))) = 0) \<longleftrightarrow>
    (\<exists>c. option_char a = Some c)"
    using p by (auto simp: option_char_def chr_def is_cstr_def split: list.splits)
  show "option_char a = Some c \<Longrightarrow> skip_spaces a = [45, c]"
    by (auto simp: option_char_def split: list.splits if_splits)
qed

definition optstring :: bytes where
  "optstring = bytes_of ''dvhc:s:''"

text \<open>The scanner at an argument that is no option, and at an option with and without argument.\<close>

definition scanning :: "bytes list \<Rightarrow> getopts \<Rightarrow> bool" where
  "scanning av opts \<longleftrightarrow> g_av opts = av \<and> g_ac opts = length av \<and> g_ostr opts = optstring \<and> \<not> g_fail opts"

lemma scan_end: "scanning [] opts \<Longrightarrow> getopts_next opts = Inr (- 1, opts)"
  by (simp add: scanning_def getopts_next_def)

lemma scan_file:
  assumes "scanning (a # av) opts" and "is_cstr a" and "option_char a = None"
  shows "\<exists>opts'. getopts_next opts = Inr (42, opts') \<and> scanning av opts' \<and> g_arg opts' = Some (skip_spaces a)"
proof -
  have "\<not> (chr (skip_spaces a) = 45 \<and> chr (tl (skip_spaces a)) \<noteq> 0 \<and> chr (tl (tl (skip_spaces a))) = 0)"
    using option_test(1) [OF assms(2)] assms(3) by simp
  then show ?thesis
    using assms(1) by (auto simp: scanning_def getopts_next_def Let_def)
qed

lemma scan_option:
  assumes "scanning (a # av) opts" and "is_cstr a" and "option_char a = Some c"
  shows "c = 45 \<Longrightarrow> \<exists>opts'. getopts_next opts = Inr (- 1, opts') \<and> scanning (a # av) opts'"
    and "c \<in> {100, 118, 104, 58} \<Longrightarrow> \<exists>opts'. getopts_next opts = Inr (int (unat c), opts') \<and> scanning av opts'"
    and "c \<in> {99, 115} \<Longrightarrow> av = [] \<Longrightarrow> \<exists>opts'. getopts_next opts = Inr (- 1, opts') \<and> g_fail opts'"
    and "c \<in> {99, 115} \<Longrightarrow> av = s # av' \<Longrightarrow>
      \<exists>opts'. getopts_next opts = Inr (int (unat c), opts') \<and> scanning av' opts' \<and> g_arg opts' = Some s"
    and "c \<notin> {45, 100, 118, 104, 58, 99, 115} \<Longrightarrow> \<exists>opts'. getopts_next opts = Inr (63, opts') \<and> scanning av opts'"
proof -
  note p = option_test(2) [OF assms(2,3)]
  have c: "c \<noteq> 0"
    using skip_spaces_cstr [OF assms(2)] p by (simp add: is_cstr_def)
  have ostr: "g_ostr opts = [100, 118, 104, 99, 58, 115, 58]"
    using assms(1) by (simp add: scanning_def optstring_def bytes_of_def)
  note scan = assms(1) p c ostr
  show "c = 45 \<Longrightarrow> \<exists>opts'. getopts_next opts = Inr (- 1, opts') \<and> scanning (a # av) opts'"
    using scan by (simp add: scanning_def getopts_next_def Let_def)
  show "c \<in> {100, 118, 104, 58} \<Longrightarrow> \<exists>opts'. getopts_next opts = Inr (int (unat c), opts') \<and> scanning av opts'"
    using scan by (auto simp: scanning_def getopts_next_def Let_def optstring_def bytes_of_def)
  show "c \<in> {99, 115} \<Longrightarrow> av = [] \<Longrightarrow> \<exists>opts'. getopts_next opts = Inr (- 1, opts') \<and> g_fail opts'"
    using scan by (auto simp: scanning_def getopts_next_def next_arg_def arg_at_def Let_def optstring_def bytes_of_def)
  show "c \<in> {99, 115} \<Longrightarrow> av = s # av' \<Longrightarrow>
      \<exists>opts'. getopts_next opts = Inr (int (unat c), opts') \<and> scanning av' opts' \<and> g_arg opts' = Some s"
    using scan by (auto simp: scanning_def getopts_next_def next_arg_def arg_at_def Let_def optstring_def bytes_of_def)
  show "c \<notin> {45, 100, 118, 104, 58, 99, 115} \<Longrightarrow> \<exists>opts'. getopts_next opts = Inr (63, opts') \<and> scanning av opts'"
    using scan by (auto simp: scanning_def getopts_next_def Let_def optstring_def bytes_of_def)
qed

text \<open>What the scanner prints when it stops at an option.\<close>

lemma scan_says:
  assumes "scanning (a # av) opts" and "is_cstr a" and "option_char a = Some c"
  shows "c \<in> {45, 100, 118, 104, 58} \<Longrightarrow> getopts_says opts = []"
    and "c \<in> {99, 115} \<Longrightarrow> getopts_says opts = (if av = [] then [missing_argument c] else [])"
    and "c \<notin> {45, 100, 118, 104, 58, 99, 115} \<Longrightarrow> getopts_says opts = [illegal_option c]"
proof -
  note p = option_test(2) [OF assms(2,3)]
  have c: "c \<noteq> 0"
    using skip_spaces_cstr [OF assms(2)] p by (simp add: is_cstr_def)
  have ostr: "g_ostr opts = [100, 118, 104, 99, 58, 115, 58]"
    using assms(1) by (simp add: scanning_def optstring_def bytes_of_def)
  note scan = assms(1) p c ostr
  show "c \<in> {45, 100, 118, 104, 58} \<Longrightarrow> getopts_says opts = []"
    using scan by (auto simp: scanning_def getopts_says_def Let_def optstring_def bytes_of_def)
  show "c \<in> {99, 115} \<Longrightarrow> getopts_says opts = (if av = [] then [missing_argument c] else [])"
    using scan by (cases av) (auto simp: scanning_def getopts_says_def next_arg_def arg_at_def Let_def optstring_def bytes_of_def)
  show "c \<notin> {45, 100, 118, 104, 58, 99, 115} \<Longrightarrow> getopts_says opts = [illegal_option c]"
    using scan by (auto simp: scanning_def getopts_says_def Let_def optstring_def bytes_of_def)
qed

section \<open>The loop of main performs them\<close>

definition main_finish :: "turn \<Rightarrow> started res" where
  "main_finish t = (case t of
     Leaves e \<Rightarrow> Inr (Exits e)
   | Goes st \<Rightarrow>
       if g_fail (m_opts st) then Inr (Exits EXIT_FAILURE)
       else
         bind_res (push_rest (g_av (m_opts st)) (m_stack st)) (\<lambda>stack.
         bind_res (stack_reverse_in_place stack) (\<lambda>stack.
           if a_n_seconds (m_args st) \<noteq> 0 \<and> a_cron_str (m_args st) \<noteq> None
           then Inr (Exits EXIT_FAILURE)
           else Inr (Starts (m_args st) stack))))"

lemma main_loop:
  assumes "av \<noteq> []" and "grants al sizeof_args"
  shows "main al (prog # av) = bind_res (option_loop (main_start (prog # av))) main_finish"
  using assms by (simp add: main_def main_finish_def [abs_def])

lemma cron_check_cases:
  assumes "cron_sized st"
  shows "if cron_hangs s then cron_check st (Some s) = Inl Out_Of_Fuel
    else \<exists>st'. cron_check st (Some s) = Inr (st', cron_lines s, False) \<and> cron_sized st'"
proof (cases "chr s = 0")
  case True
  then show ?thesis
    using assms by (simp add: cron_hangs_def cron_lines_def cron_check_def)
next
  case False
  then have "cron_check st (Some s) = cron_check cron_clear (Some s)"
    by (simp add: cron_check_def)
  then show ?thesis
    using cron_check_safe [OF cron_clear_sized, of "Some s"]
    by (cases "cron_check cron_clear (Some s)") (auto simp: cron_hangs_def cron_lines_def)
qed

text \<open>The state of \<^verbatim>\<open>main\<close> between two words: \<open>names\<close> have been pushed, \<open>av\<close> is still to be read.\<close>

definition reading :: "args \<Rightarrow> bool \<Rightarrow> filename list \<Rightarrow> bytes list \<Rightarrow> main_state \<Rightarrow> bool" where
  "reading args erange names av st \<longleftrightarrow> scanning av (m_opts st) \<and> m_args st = args \<and> m_erange st = erange \<and>
     cron_sized (m_cron st) \<and> stack_ok (m_stack st) \<and> contents (m_stack st) = map Some (take 15 names)"

lemma push_more:
  assumes "stack_ok st" and "contents st = map Some (take 15 names)"
  obtains st' where "push_names (map Some extra) st = Inr st'" and "stack_ok st'"
    and "contents st' = map Some (take 15 (names @ extra))"
proof -
  have "stack_top st = min 15 (length names)"
    using contents_length [OF assms(1)] assms(2) by simp
  then show thesis
    using push_names_contents [OF assms(1), of "map Some extra"] assms(2) that
    by (auto simp: take_map min_def split: if_splits)
qed

lemma finish_conclude:
  assumes "stack_ok stack" and "contents stack = map Some (take 15 names)" and "\<not> g_fail (m_opts st)"
    and "push_rest (g_av (m_opts st)) (m_stack st) = Inr stack"
  shows "carries (conclude (m_args st) names) (main_finish (Goes st))"
    and "finish_says (Goes st) = clash (m_args st)"
proof -
  obtain s2 where "stack_reverse_in_place stack = Inr s2" "stack_ok s2" "contents s2 = rev (contents stack)"
    using reverse_contents [OF assms(1)] by metis
  then show "carries (conclude (m_args st) names) (main_finish (Goes st))"
    "finish_says (Goes st) = clash (m_args st)"
    using assms by (simp_all add: main_finish_def conclude_def finish_says_def clash_def)
qed

lemma option_stop:
  assumes "getopts_next (m_opts st) = Inr (- 1, opts)"
  shows "option_loop st = Inr (Goes (st\<lparr>m_opts := opts\<rparr>))"
  using assms by (simp add: option_loop.simps [of st])

text \<open>
  A word that does not end the program leads from one state of the loop to another, without a
  message, and prints \<open>lines\<close>.
\<close>

definition moves :: "string list \<Rightarrow> main_state \<Rightarrow> main_state \<Rightarrow> bool" where
  "moves lines st st' \<longleftrightarrow> option_loop st = option_loop st' \<and>
     outputs st = (fst (outputs st'), lines @ snd (outputs st'))"

lemma option_goes:
  assumes "getopts_next (m_opts st) = Inr (c, opts)" and "c \<noteq> - 1"
    and "handle_option c (st\<lparr>m_opts := opts\<rparr>) = Inr (Goes st')"
  shows "moves (option_prints c (st\<lparr>m_opts := opts\<rparr>)) st st'"
  using assms run_says_goes [OF assms] loop_prints_goes [OF assms]
  by (simp add: moves_def outputs_def option_loop.simps [of st])

lemma option_leaves:
  assumes "getopts_next (m_opts st) = Inr (c, opts)" and "c \<noteq> - 1"
    and "handle_option c (st\<lparr>m_opts := opts\<rparr>) = Inr (Leaves x)"
  shows "bind_res (option_loop st) main_finish = Inr (Exits x)"
  using assms by (simp add: option_loop.simps [of st] main_finish_def)

text \<open>What the loop does at its next word, one lemma for each kind of word.\<close>

lemma at_end:
  assumes "reading args erange names [] st"
  shows "carries (conclude args names) (bind_res (option_loop st) main_finish)" and "outputs st = (clash args, [])"
proof -
  have scan: "scanning [] (m_opts st)"
    using assms by (simp add: reading_def)
  then have "getopts_says (m_opts st) = []"
    by (simp add: scanning_def getopts_says_def)
  then show "carries (conclude args names) (bind_res (option_loop st) main_finish)" "outputs st = (clash args, [])"
    using assms option_stop [OF scan_end [OF scan]] outputs_stops [OF scan_end [OF scan]]
      finish_conclude [of "m_stack st" names st]
    by (simp_all add: reading_def scanning_def)
qed

lemma at_file:
  assumes st: "reading args erange names (a # av) st" and a: "is_cstr a" "option_char a = None"
  obtains st' where "moves [] st st'" and "reading args erange (names @ [pushed_as a]) av st'"
proof -
  obtain opts where nxt: "getopts_next (m_opts st) = Inr (42, opts)" "scanning av opts" "g_arg opts = Some (skip_spaces a)"
    using scan_file [OF _ a] st by (auto simp: reading_def)
  obtain stack where push: "filename_stack_push (Some (pushed_as a)) (m_stack st) = Inr stack" "stack_ok stack"
    "contents stack = map Some (take 15 (names @ [pushed_as a]))"
    using push_more [of "m_stack st" names "[pushed_as a]"] st by (auto simp: reading_def bind_res_Inr_iff)
  let ?st = "st\<lparr>m_opts := opts, m_stack := stack\<rparr>"
  have "stack_top (m_stack st) \<noteq> FILE_STACK_SIZE"
    using st by (auto simp: reading_def stack_ok_def)
  then have "handle_option 42 (st\<lparr>m_opts := opts\<rparr>) = Inr (Goes ?st)"
    using push(1) nxt(3) by (auto simp: handle_option_def pushed_as_def Let_def split: if_splits)
  moreover have "reading args erange (names @ [pushed_as a]) av ?st"
    using st nxt(2) push by (simp add: reading_def)
  ultimately show thesis
    using that option_goes [OF nxt(1)] by (simp add: option_prints_def)
qed

lemma reading_scans:
  "reading args erange names av st \<Longrightarrow> scanning av (m_opts st)"
  by (simp add: reading_def)

lemma at_dashes:
  assumes st: "reading args erange names (a # av) st" and a: "is_cstr a" "option_char a = Some 45"
  shows "carries (conclude args (names @ map Argv av)) (bind_res (option_loop st) main_finish)" and "outputs st = (clash args, [])"
proof -
  obtain opts where nxt: "getopts_next (m_opts st) = Inr (- 1, opts)" "scanning (a # av) opts"
    using scan_option(1) [OF reading_scans [OF st] a] by blast
  obtain stack where "push_names (map Some (map Argv av)) (m_stack st) = Inr stack" "stack_ok stack"
    "contents stack = map Some (take 15 (names @ map Argv av))"
    using push_more [of "m_stack st" names "map Argv av"] st unfolding reading_def by metis
  then show "carries (conclude args (names @ map Argv av)) (bind_res (option_loop st) main_finish)" "outputs st = (clash args, [])"
    using finish_conclude [of stack "names @ map Argv av" "st\<lparr>m_opts := opts\<rparr>"] nxt st push_rest_names option_stop [OF nxt(1)]
      outputs_stops [OF nxt(1)] scan_says(1) [OF reading_scans [OF st] a]
    by (simp_all add: reading_def scanning_def)
qed

lemma at_debug:
  assumes st: "reading args erange names (a # av) st" and a: "is_cstr a" "option_char a = Some 100"
  obtains st' where "moves [] st st'"
    and "reading (args\<lparr>a_flags := a_flags args OR FLAGS_DEBUG\<rparr>) erange names av st'"
proof -
  obtain opts where nxt: "getopts_next (m_opts st) = Inr (100, opts)" "scanning av opts"
    using scan_option(2) [OF reading_scans [OF st] a] by auto
  let ?st = "st\<lparr>m_opts := opts, m_args := args\<lparr>a_flags := a_flags args OR FLAGS_DEBUG\<rparr>\<rparr>"
  have "handle_option 100 (st\<lparr>m_opts := opts\<rparr>) = Inr (Goes ?st)"
    using st by (simp add: handle_option_def reading_def)
  moreover have "reading (args\<lparr>a_flags := a_flags args OR FLAGS_DEBUG\<rparr>) erange names av ?st"
    using st nxt(2) by (simp add: reading_def)
  ultimately show thesis
    using that option_goes [OF nxt(1)] by (simp add: option_prints_def)
qed

lemma at_colon:
  assumes st: "reading args erange names (a # av) st" and a: "is_cstr a" "option_char a = Some 58"
  obtains st' where "moves [] st st'" and "reading args erange names av st'"
proof -
  obtain opts where nxt: "getopts_next (m_opts st) = Inr (58, opts)" "scanning av opts"
    using scan_option(2) [OF reading_scans [OF st] a] by auto
  have "handle_option 58 (st\<lparr>m_opts := opts\<rparr>) = Inr (Goes (st\<lparr>m_opts := opts\<rparr>))"
    by (simp add: handle_option_def)
  moreover have "reading args erange names av (st\<lparr>m_opts := opts\<rparr>)"
    using st nxt(2) by (simp add: reading_def)
  ultimately show thesis
    using that option_goes [OF nxt(1)] by (simp add: option_prints_def)
qed

lemma at_leaving:
  assumes st: "reading args erange names (a # av) st" and a: "is_cstr a" "option_char a = Some c"
    and c: "c \<in> {118, 104} \<or> c \<notin> {45, 100, 58, 99, 115}"
  shows "bind_res (option_loop st) main_finish = Inr (Exits EXIT_SUCCESS)"
    and "outputs st = (if c = 118 then [version backd_state] else if c = 104 then [usage backd_state]
      else [illegal_option c, usage backd_state], [])"
proof -
  have "bind_res (option_loop st) main_finish = Inr (Exits EXIT_SUCCESS) \<and>
    outputs st = (if c = 118 then [version backd_state] else if c = 104 then [usage backd_state]
      else [illegal_option c, usage backd_state], [])"
  proof (cases "c \<in> {118, 104}")
    case True
    then obtain opts where nxt: "getopts_next (m_opts st) = Inr (int (unat c), opts)"
      using scan_option(2) [OF reading_scans [OF st] a] by blast
    have leaves: "handle_option (int (unat c)) (st\<lparr>m_opts := opts\<rparr>) = Inr (Leaves EXIT_SUCCESS)"
      using True by (auto simp: handle_option_def)
    show ?thesis
      using option_leaves [OF nxt _ leaves] outputs_leaves [OF nxt _ _ leaves]
        scan_says(1) [OF reading_scans [OF st] a] True by (auto simp: option_says_def)
  next
    case False
    then obtain opts where nxt: "getopts_next (m_opts st) = Inr (63, opts)"
      using scan_option(5) [OF reading_scans [OF st] a] c by auto
    have leaves: "handle_option 63 (st\<lparr>m_opts := opts\<rparr>) = Inr (Leaves EXIT_SUCCESS)"
      by (rule handle_option_unknown)
    show ?thesis
      using option_leaves [OF nxt _ leaves] outputs_leaves [OF nxt _ _ leaves]
        scan_says(3) [OF reading_scans [OF st] a] False c by (auto simp: option_says_def)
  qed
  then show "bind_res (option_loop st) main_finish = Inr (Exits EXIT_SUCCESS)"
    and "outputs st = (if c = 118 then [version backd_state] else if c = 104 then [usage backd_state]
      else [illegal_option c, usage backd_state], [])"
    by simp_all
qed

lemma at_missing:
  assumes st: "reading args erange names [a] st" and a: "is_cstr a" "option_char a = Some c" and c: "c \<in> {99, 115}"
  shows "bind_res (option_loop st) main_finish = Inr (Exits EXIT_FAILURE)" and "outputs st = ([missing_argument c], [])"
proof -
  obtain opts where nxt: "getopts_next (m_opts st) = Inr (- 1, opts)" "g_fail opts"
    using scan_option(3) [OF reading_scans [OF st] a c] by blast
  then show "bind_res (option_loop st) main_finish = Inr (Exits EXIT_FAILURE)" "outputs st = ([missing_argument c], [])"
    using option_stop [OF nxt(1)] outputs_stops [OF nxt(1)] scan_says(2) [OF reading_scans [OF st] a c]
    by (simp_all add: main_finish_def finish_says_def)
qed

lemma at_cron:
  assumes st: "reading args erange names (a # s # av) st" and a: "is_cstr a" "option_char a = Some 99"
  shows "cron_hangs s \<Longrightarrow> option_loop st = Inl Out_Of_Fuel \<and> outputs st = ([], [])"
    and "\<not> cron_hangs s \<Longrightarrow> \<exists>st'. moves (cron_lines s) st st' \<and>
      reading (args\<lparr>a_cron_str := Some s\<rparr>) erange names av st'"
proof -
  obtain opts where nxt: "getopts_next (m_opts st) = Inr (99, opts)" "scanning av opts" "g_arg opts = Some s"
    using scan_option(4) [OF reading_scans [OF st] a _ refl] by auto
  have "cron_sized (m_cron st)"
    using st by (simp add: reading_def)
  note cron = cron_check_cases [OF this, of s]
  show "option_loop st = Inl Out_Of_Fuel \<and> outputs st = ([], [])" if "cron_hangs s"
    using cron that nxt getopts_says_goes [OF nxt(1)]
    by (simp add: option_loop.simps [of st] outputs_def run_says_def loop_says.simps [of st] loop_prints.simps [of st]
        handle_option_def string_parse_def option_says_def option_prints_def string_says_def)
  show "\<exists>st'. moves (cron_lines s) st st' \<and> reading (args\<lparr>a_cron_str := Some s\<rparr>) erange names av st'"
    if hangs: "\<not> cron_hangs s"
  proof -
    obtain cr where check: "cron_check (m_cron st) (Some s) = Inr (cr, cron_lines s, False)" "cron_sized cr"
      using cron hangs by auto
    let ?st = "st\<lparr>m_opts := opts, m_args := args\<lparr>a_cron_str := Some s\<rparr>, m_cron := cr, m_printed := m_printed st @ cron_lines s\<rparr>"
    have "handle_option 99 (st\<lparr>m_opts := opts\<rparr>) = Inr (Goes ?st)"
      using check(1) nxt(3) st by (simp add: handle_option_def string_parse_def reading_def)
    moreover have "reading (args\<lparr>a_cron_str := Some s\<rparr>) erange names av ?st"
      using st nxt(2) check(2) by (simp add: reading_def)
    moreover have "option_prints 99 (st\<lparr>m_opts := opts\<rparr>) = cron_lines s"
      using check(1) nxt(3) by (simp add: option_prints_def string_parse_def)
    ultimately show ?thesis
      using option_goes [OF nxt(1)] by (intro exI [of _ ?st]) simp
  qed
qed

lemma at_seconds:
  assumes st: "reading args erange names (a # s # av) st" and a: "is_cstr a" "option_char a = Some 115"
    and parse: "uint32_parse erange s (a_n_seconds args) = (ok, n, er)"
  shows "\<not> ok \<Longrightarrow> bind_res (option_loop st) main_finish = Inr (Exits EXIT_FAILURE) \<and> outputs st = ([not_a_number s], [])"
    and "ok \<Longrightarrow> \<exists>st'. moves [] st st' \<and> reading (args\<lparr>a_n_seconds := n\<rparr>) er names av st'"
proof -
  obtain opts where nxt: "getopts_next (m_opts st) = Inr (115, opts)" "scanning av opts" "g_arg opts = Some s"
    using scan_option(4) [OF reading_scans [OF st] a _ refl] by auto
  show "bind_res (option_loop st) main_finish = Inr (Exits EXIT_FAILURE) \<and> outputs st = ([not_a_number s], [])" if "\<not> ok"
  proof -
    have leaves: "handle_option 115 (st\<lparr>m_opts := opts\<rparr>) = Inr (Leaves EXIT_FAILURE)"
      using parse nxt(3) st that by (simp add: handle_option_def reading_def)
    show ?thesis
      using option_leaves [OF nxt(1) _ leaves] outputs_leaves [OF nxt(1) _ _ leaves] getopts_says_goes [OF nxt(1)]
        parse nxt(3) st that by (simp add: option_says_def uint32_says_def reading_def)
  qed
  let ?st = "st\<lparr>m_opts := opts, m_args := args\<lparr>a_n_seconds := n\<rparr>, m_erange := er\<rparr>"
  show "\<exists>st'. moves [] st st' \<and> reading (args\<lparr>a_n_seconds := n\<rparr>) er names av st'" if ok
  proof -
    have "handle_option 115 (st\<lparr>m_opts := opts\<rparr>) = Inr (Goes ?st)"
      using parse nxt(3) st that by (simp add: handle_option_def reading_def)
    moreover have "reading (args\<lparr>a_n_seconds := n\<rparr>) er names av ?st"
      using st nxt(2) by (simp add: reading_def)
    ultimately show ?thesis
      using option_goes [OF nxt(1)] by (intro exI [of _ ?st]) (simp add: option_prints_def)
  qed
qed

text \<open>The words one by one.\<close>

definition performs :: "args \<Rightarrow> bool \<Rightarrow> filename list \<Rightarrow> bytes list \<Rightarrow> main_state \<Rightarrow> bool" where
  "performs args erange names av st \<longleftrightarrow>
     carries (case_prod (perform args erange names) (read_words av)) (bind_res (option_loop st) main_finish) \<and>
     outputs st = (case_prod (explain args erange) (read_words av), case_prod (displayed args erange) (read_words av))"

lemma performs_goes: "moves [] st st' \<Longrightarrow> performs args erange names av st' \<Longrightarrow>
    performs args erange names av st"
  by (simp add: performs_def moves_def)

lemma option_with_argument:
  assumes st: "reading args erange names (a # av) st" and cstr: "is_cstr a" "list_all is_cstr av"
    and c: "option_char a = Some c" "c \<in> {99, 115}"
    and later: "\<And>args erange av' st. length av' < length av \<Longrightarrow> list_all is_cstr av' \<Longrightarrow>
      reading args erange names av' st \<Longrightarrow> performs args erange names av' st"
  shows "performs args erange names (a # av) st"
proof (cases av)
  case Nil
  then show ?thesis
    using at_missing [OF _ cstr(1) c] st c by (auto simp: performs_def)
next
  case (Cons s av')
  have here: "reading args erange names (a # s # av') st"
    using st Cons by simp
  obtain zs e where words: "read_words av' = (zs, e)"
    by (cases "read_words av'")
  have go: "carries (perform args1 erange1 names zs e) (bind_res (option_loop st1) main_finish) \<and>
      outputs st1 = (explain args1 erange1 zs e, displayed args1 erange1 zs e)"
    if "reading args1 erange1 names av' st1" for args1 erange1 st1
    using later [of av' args1 erange1 st1] that cstr Cons words by (simp add: performs_def)
  obtain ok n er where parse: "uint32_parse erange s (a_n_seconds args) = (ok, n, er)"
    by (cases "uint32_parse erange s (a_n_seconds args)")
  show ?thesis
  proof (cases "c = 99")
    case True
    then have xs: "read_words (a # av) = (Cron_String s # zs, e)"
      using Cons words c by simp
    show ?thesis
      using at_cron [OF here cstr(1)] go c True xs by (cases "cron_hangs s") (auto simp: performs_def moves_def)
  next
    case False
    then have xs: "read_words (a # av) = (Seconds s # zs, e)" and "c = 115"
      using Cons words c by simp_all
    then show ?thesis
      using at_seconds [OF here cstr(1) _ parse] go c parse by (cases ok) (auto simp: performs_def moves_def)
  qed
qed

lemma option_loop_performs:
  "list_all is_cstr av \<Longrightarrow> reading args erange names av st \<Longrightarrow> performs args erange names av st"
proof (induction av arbitrary: args erange names st rule: measure_induct_rule [of length])
  case (less all)
  show ?case
  proof (cases all)
    case Nil
    then show ?thesis
      using at_end less.prems by (simp add: performs_def)
  next
    case (Cons a av)
    have a: "is_cstr a" and av: "list_all is_cstr av" and st: "reading args erange names (a # av) st"
      using less.prems Cons by simp_all
    note go = less.IH [of av, OF _ av]
    obtain ys e where words: "read_words av = (ys, e)"
      by (cases "read_words av")
    show ?thesis
    proof (cases "option_char a")
      case None
      then show ?thesis
        using at_file [OF st a] go Cons words by (fastforce simp: performs_def moves_def)
    next
      case (Some c)
      consider "c = 45" | "c = 100" | "c = 58" | "c \<in> {99, 115}" | "c \<in> {118, 104} \<or> c \<notin> {45, 100, 58, 99, 115}"
        by blast
      then show ?thesis
      proof cases
        case 1
        then show ?thesis
          using at_dashes [OF st a] Some Cons by (simp add: performs_def)
      next
        case 2
        then show ?thesis
          using at_debug [OF st a] go Cons words Some by (fastforce simp: performs_def moves_def)
      next
        case 3
        then show ?thesis
          using at_colon [OF st a] go Cons words Some by (fastforce simp: performs_def moves_def)
      next
        case 4
        then show ?thesis
          using option_with_argument [OF st a av Some 4] less.IH Cons by simp
      next
        case 5
        then show ?thesis
          using at_leaving [OF st a Some 5] Some Cons words by (auto simp: performs_def)
      qed
    qed
  qed
qed

section \<open>The property\<close>

lemma reading_start: "reading no_args False [] av (main_start (prog # av))"
  by (simp add: reading_def scanning_def main_start_def getopts_init_def optstring_def no_args_def cron_clear_sized
      stack_ok_def stack_init_def FILE_STACK_SIZE_def contents_def)

text \<open>
  C19: for every command line of C strings \<^verbatim>\<open>main\<close> ends as the meaning of its words says: it serves
  the first fifteen names in order with the flags and arguments collected on the way, exits
  with success at the first \<^verbatim>\<open>-h\<close>, \<^verbatim>\<open>-v\<close> or unknown option and with failure for a missing or
  malformed argument or for \<^verbatim>\<open>-s\<close> together with \<^verbatim>\<open>-c\<close>, or hangs in a cron string whose step is
  zero. No command line makes it read or write out of bounds.
\<close>

theorem main_performs_words:
  assumes "list_all is_cstr av" and "av \<noteq> []" and "grants al sizeof_args"
  shows "carries (meaning av) (main al (prog # av))"
  using option_loop_performs [OF assms(1) reading_start] assms(2,3)
  by (simp add: main_loop performs_def meaning_def Let_def case_prod_unfold)

text \<open>\<^verbatim>\<open>backd -d -s 5 x -c 1\<close>\<close>

theorem main_performs_words_witness:
  "main sample_heap [[98], [45, 100], [45, 115], [53], [120], [45, 99], [49]] = Inr (Exits EXIT_FAILURE) \<and>
   (\<exists>stack. main sample_heap [[98], [45, 100], [120], [45, 115], [53]] =
      Inr (Starts \<lparr>a_flags = 2, a_cron_str = None, a_n_seconds = 5\<rparr> stack) \<and> contents stack = [Some (Argv [120])])"
proof -
  have "meaning [[45, 100], [45, 115], [53], [120], [45, 99], [49]] = Exit EXIT_FAILURE"
    "meaning [[45, 100], [120], [45, 115], [53]] = Serve \<lparr>a_flags = 2, a_cron_str = None, a_n_seconds = 5\<rparr> [Argv [120]]"
    by code_simp+
  then show ?thesis
    using main_performs_words [of "[[45, 100], [45, 115], [53], [120], [45, 99], [49]]" sample_heap "[98]"]
      main_performs_words [of "[[45, 100], [120], [45, 115], [53]]" sample_heap "[98]"]
    by (auto simp: is_cstr_def sample_heap_def)
qed

text \<open>A program that ends says why, and only then.\<close>

lemma explain_iff: "explain args erange xs e = [] \<longleftrightarrow> (\<nexists>x. perform args erange names xs e = Exit x)"
proof (induction args erange xs e arbitrary: names rule: explain.induct)
  case (3 args erange x xs e)
  then show ?case
    by (cases x) (auto split: prod.splits)
qed (simp_all add: clash_def conclude_def)

lemma carries_exit: "carries z r \<Longrightarrow> (\<exists>x. z = Exit x) \<longleftrightarrow> (\<exists>x. r = Inr (Exits x))"
  by (cases z) auto

text \<open>
  C20: for every command line of C strings the messages of \<^verbatim>\<open>main\<close> on \<^verbatim>\<open>stderr\<close> are those of its words: the
  version or the usage, after a complaint for an unknown option; the option that lacks its
  argument; the text that is no number; the clash of \<^verbatim>\<open>-s\<close> with \<^verbatim>\<open>-c\<close>. There is a message exactly when
  \<^verbatim>\<open>main\<close> ends the process itself, so no command line fails without one, and one that starts the
  service gets none. On \<^verbatim>\<open>stdout\<close> it prints the arrays of the cron strings that are reached, in order,
  and nothing else.
\<close>

theorem main_says_words:
  assumes "list_all is_cstr av" and "av \<noteq> []" and "grants al sizeof_args"
  shows "main_says al (prog # av) = case_prod (explain no_args False) (read_words av) \<and>
    main_prints al (prog # av) = case_prod (displayed no_args False) (read_words av) \<and>
    (main_says al (prog # av) \<noteq> [] \<longleftrightarrow> (\<exists>e. main al (prog # av) = Inr (Exits e)))"
proof -
  have "performs no_args False [] av (main_start (prog # av))"
    by (rule option_loop_performs [OF assms(1) reading_start])
  then have "carries (case_prod (perform no_args False []) (read_words av)) (main al (prog # av))"
    and says: "main_says al (prog # av) = case_prod (explain no_args False) (read_words av)"
      "main_prints al (prog # av) = case_prod (displayed no_args False) (read_words av)"
    using assms(2,3) by (simp_all add: performs_def main_says_def main_prints_def outputs_def main_loop)
  from carries_exit [OF this(1)] show ?thesis
    using says explain_iff [of no_args False _ _ "[]"] by (simp add: case_prod_unfold)
qed

text \<open>\<^verbatim>\<open>backd x -s 1x\<close>, \<^verbatim>\<open>backd -q\<close>, \<^verbatim>\<open>backd x\<close>, and \<^verbatim>\<open>backd -c 1 x\<close> with the five lines of its arrays\<close>

theorem main_says_words_witness:
  "main_says sample_heap [[98], [120], [45, 115], [49, 120]] = [bytes_of ''1x: Is not a valid number'' @ [10]] \<and>
   main_says sample_heap [[98], [45, 113]] = [bytes_of ''illegal option -- q'' @ [10], usage backd_state] \<and>
   main_says sample_heap [[98], [120]] = [] \<and>
   main_says sample_heap [[98], [45, 99], [49], [120]] = [] \<and>
   length (main_prints sample_heap [[98], [45, 99], [49], [120]]) = 5"
proof -
  have "case_prod (explain no_args False) (read_words [[120], [45, 115], [49, 120]]) =
      [bytes_of ''1x: Is not a valid number'' @ [10]]"
    "case_prod (explain no_args False) (read_words [[45, 113]]) =
      [bytes_of ''illegal option -- q'' @ [10], usage backd_state]"
    "case_prod (explain no_args False) (read_words [[120]]) = []"
    "case_prod (explain no_args False) (read_words [[45, 99], [49], [120]]) = []"
    "length (case_prod (displayed no_args False) (read_words [[45, 99], [49], [120]])) = 5"
    by code_simp+
  then show ?thesis
    using main_says_words [of "[[120], [45, 115], [49, 120]]" sample_heap "[98]"]
      main_says_words [of "[[45, 113]]" sample_heap "[98]"] main_says_words [of "[[120]]" sample_heap "[98]"]
      main_says_words [of "[[45, 99], [49], [120]]" sample_heap "[98]"]
    by (auto simp: is_cstr_def sample_heap_def)
qed

end
