(* ===== verification/Process.thy ===== *)
theory Process
  imports Monitor_Properties Command_Line
begin

text \<open>
  The process from its command line to its end: \<^verbatim>\<open>main\<close> of \<^verbatim>\<open>daemon/srcs/main.c\<close> reads the words and the
  service of \<^verbatim>\<open>daemon/srcs/loop.c\<close> reports what happens to the files they name.
\<close>

text \<open>
  C2: from the command line to the report. The process is started with a command line whose words mean
  that the entries \<open>es\<close> are to be served; they are files and directories of a cooperating system
  that stands still until the snapshots are finished and changes once, at any moment after. Then
  \<^verbatim>\<open>main\<close> prints no message on \<^verbatim>\<open>stderr\<close>, on \<^verbatim>\<open>stdout\<close> only the arrays of the cron strings among its words, and
  starts the service; the service prints each difference between the
  snapshot and the new state exactly once, and nothing else, takes everything down when the signal
  comes, and the process ends with the status of failure.
\<close>

theorem process_reports_changes:
  assumes "list_all is_cstr av" and "av \<noteq> []" and "grants al sizeof_args" and "meaning av = Serve args (map (\<lambda>(q, e). Argv q) es)"
    and "friendly w rank" and "roomy w room" and "handle_signals w"
    and "\<forall>(q, e) \<in> set es. rank q < fuel \<and> room q < MAX_PATH_SIZE" and "list_all (plain_root w fuel) es"
    and "\<forall>st sv0. stack_ok st \<and> contents st = map (\<lambda>(q, e). Some (Argv q)) (rev es) \<and>
      service_init w fuel (stack_top st + 1) (service_start st) = Inr sv0 \<longrightarrow> clock (sv_state sv0) \<le> T"
    and "still T w" and "list_all (becomes T w new) (root_paths es)"
    and "\<forall>t. w_terminate w t \<longrightarrow> T + 2 * length (root_paths es) + 2 * n < t"
    and "advancing w k" and "k < n" and "terminating w E" and "E < m" and "(1 + m) * unat sizeof_event < 2 ^ 30"
  shows "main_says al (prog # av) = [] \<and>
    main_prints al (prog # av) = case_prod (displayed no_args False) (read_words av) \<and>
    backd al w fuel n m (prog # av) = Inr EXIT_FAILURE \<and>
    (\<exists>st freed sv. main al (prog # av) = Inr (Starts args st) \<and>
       service w fuel n m st = Inr (EXIT_FAILURE, [], freed, sv) \<and>
       mset (printed (reports (sv_state sv))) = mset (root_diffs new es))"
proof -
  have performs: "performs no_args False [] av (main_start (prog # av))"
    by (rule option_loop_performs [OF assms(1) reading_start])
  have serve: "case_prod (perform no_args False []) (read_words av) = Serve args (map (\<lambda>(q, e). Argv q) es)"
    using assms(4) by (simp add: meaning_def Let_def case_prod_unfold)
  obtain st where st: "main al (prog # av) = Inr (Starts args st)" "stack_ok st"
    and names: "contents st = map (\<lambda>(q, e). Some (Argv q)) (rev es)"
    using performs serve assms(2,3) by (auto simp: performs_def main_loop rev_map comp_def case_prod_unfold)
  have "main_says al (prog # av) = []"
    "main_prints al (prog # av) = case_prod (displayed no_args False) (read_words av)"
    using performs serve explain_iff [of no_args False _ _ "[]"] assms(2,3)
    by (simp_all add: performs_def main_says_def main_prints_def outputs_def case_prod_unfold)
  moreover obtain sv0 where init: "service_init w fuel (stack_top st + 1) (service_start st) = Inr sv0"
    using service_init_fills [OF assms(5) st(2) contents_nth_ok(1) [OF names assms(9,8)]] by blast
  moreover have "clock (sv_state sv0) \<le> T"
    using assms(10) st(2) names init by blast
  ultimately show ?thesis
    using daemon_reports_changes_once [OF assms(5-7) st(2) names assms(8,9) init _ assms(11-18)] st(1)
    by (auto simp: backd_def)
qed

text \<open>\<^verbatim>\<open>backd d\<close> on a file that grows at the twentieth system call.\<close>

theorem process_reports_changes_witness:
  "main_says sample_heap [[98], [100]] = [] \<and> main_prints sample_heap [[98], [100]] = [] \<and> backd sample_heap growing_world 2 2 101 [[98], [100]] = Inr EXIT_FAILURE \<and>
   (\<exists>st freed sv. main sample_heap [[98], [100]] = Inr (Starts no_args st) \<and>
      service growing_world 2 2 101 st = Inr (EXIT_FAILURE, [], freed, sv) \<and>
      mset (printed (reports (sv_state sv))) = {#([100], ''MODIFY'')#})"
proof -
  let ?es = "[([100], Leaf reg_stat)]" and ?new = "\<lambda>_. reg_stat\<lparr>st_size := 11\<rparr>"
  have paths: "root_paths ?es = [[100]]" "root_diffs ?new ?es = [([100], ''MODIFY'')]"
    by (simp add: root_paths_def, code_simp)
  have "case_prod (displayed no_args False) (read_words [[100]]) = []"
    by code_simp
  moreover have "meaning [[100]] = Serve no_args (map (\<lambda>(q, e). Argv q) ?es)"
    by code_simp
  moreover have "\<forall>st sv0. stack_ok st \<and> contents st = map (\<lambda>(q, e). Some (Argv q)) (rev ?es) \<and>
      service_init growing_world 2 (stack_top st + 1) (service_start st) = Inr sv0 \<longrightarrow> clock (sv_state sv0) \<le> 20"
    by (intro allI impI, elim conjE, rule growing_init) (simp_all only: list.map rev.simps append.simps prod.case)
  moreover have "list_all (becomes 20 growing_world ?new) (root_paths ?es)"
    by (simp add: paths becomes_def growing_world_def)
  moreover have "\<forall>t. w_terminate growing_world t \<longrightarrow> 20 + 2 * length (root_paths ?es) + 2 * 2 < t"
    by (simp add: paths growing_world_def tick_world_def sample_world_def)
  moreover have "handle_signals growing_world" "sample_rank [100] < 2" "sample_room [100] < MAX_PATH_SIZE"
    by (simp_all add: handle_signals_def growing_world_def tick_world_def sample_world_def
        sample_rank_def sample_room_def basename_def strip_slashes_def MAX_PATH_SIZE_def)
  ultimately show ?thesis
    using process_reports_changes [OF _ _ _ _ growing_world_runs(1,2) _ _ _ _ growing_still _ _
        growing_world_runs(3) _ growing_world_runs(4), of "[[100]]" sample_heap no_args ?es 2 ?new 2 101 "[98]"]
      growing_leaf paths(2)
    by (simp add: sizeof_event_def is_cstr_def sample_heap_def)
qed

end
