(* ===== verification/Assertions.thy ===== *)
theory Assertions
  imports Watch_Properties Logging
begin

text \<open>
  The checking macros of \<^verbatim>\<open>daemon/incs/assert.h\<close>, which are compiled in (the release build sets
  \<^verbatim>\<open>DISABLE_CHECKS\<close>, the header asks for \<^verbatim>\<open>XRE_DISABLE_CHECKS\<close>): a condition that fails is reported on
  \<^verbatim>\<open>stderr\<close> and the function returns. What they return is part of the definitions of the other
  theories; here are the reports, beside the functions whose argument can be NULL when
  the daemon calls them: \<open>fs_target_children_push\<close>, \<open>fs_target_delete\<close>, \<open>fs_target_print\<close>, and the
  release loop of \<^verbatim>\<open>daemon/srcs/loop.c\<close> that calls the last two.
\<close>

section \<open>The macros\<close>

record site =
  at_file :: bytes
  at_line :: nat
  at_expr :: bytes

definition assertion_failed :: "site \<Rightarrow> bytes" where
  "assertion_failed at =
     bytes_of ''Assertion failed: '' @ at_file at @ [58] @ digits (at_line at) @ [32, 40] @ at_expr at @ [41, 10]"

text \<open>The messages, and the value the function returns; \<open>rest\<close> is the function behind the check.\<close>

definition return_val_if_fail :: "bool \<Rightarrow> site \<Rightarrow> 'a \<Rightarrow> bytes list \<times> 'a \<Rightarrow> bytes list \<times> 'a" where
  "return_val_if_fail ok at val rest = (if \<not> ok then ([assertion_failed at], val) else rest)"

definition return_if_fail :: "bool \<Rightarrow> site \<Rightarrow> bytes list \<Rightarrow> bytes list" where
  "return_if_fail ok at rest = (if \<not> ok then [assertion_failed at] else rest)"

definition fs_target_c :: "nat \<Rightarrow> string \<Rightarrow> site" where
  "fs_target_c line expr = \<lparr>at_file = bytes_of ''srcs/fs/fs_target.c'', at_line = line, at_expr = bytes_of expr\<rparr>"

section \<open>Functions that are called with NULL\<close>

definition push_said ::
  "allocator \<Rightarrow> fs_target cptr kids \<Rightarrow> fs_target cptr \<Rightarrow> bytes list \<times> (fs_target cptr kids \<times> bool) res" where
  "push_said al kids other =
     return_val_if_fail (other \<noteq> Null) (fs_target_c 118 ''other'') (Inr (kids, False))
       ([], fs_target_children_push al kids other)"

definition delete_said :: "fs_target cptr \<Rightarrow> bytes list \<times> released list res" where
  "delete_said entry =
     return_val_if_fail (entry \<noteq> Null) (fs_target_c 244 ''entry'') (Inr []) ([], fs_target_delete entry)"

text \<open>A released target is not looked into: reading it is a fault of \<open>fs_target_print\<close>.\<close>

function print_asserts :: "fs_target cptr \<Rightarrow> bytes option \<Rightarrow> bytes list"
  and children_assert :: "fs_target cptr list \<Rightarrow> bytes option \<Rightarrow> bytes list" where
  "print_asserts target initial_path =
     return_if_fail (target \<noteq> Null) (fs_target_c 259 ''target'')
       (return_if_fail (initial_path \<noteq> None) (fs_target_c 260 ''initial_path'')
         (case target of
            Ptr t \<Rightarrow>
              if f_type (t_info t) \<noteq> directory then []
              else (case t_children t of Kids ps cap \<Rightarrow> children_assert ps initial_path | _ \<Rightarrow> [])
          | _ \<Rightarrow> []))"
| "children_assert [] initial_path = []"
| "children_assert (p # ps) initial_path = print_asserts p initial_path @ children_assert ps initial_path"
  by pat_completeness auto
termination
proof (relation "measure (case_sum (\<lambda>(p, i). size_cptr size p) (\<lambda>(ps, i). size_list (size_cptr size) ps))"; simp?)
  fix t :: fs_target and ps :: "fs_target cptr list" and cap :: u64
  assume "t_children t = Kids ps cap"
  then show "size_list (size_cptr size) ps < Suc (size t)"
    by (cases t) simp
qed

text \<open>\<^verbatim>\<open>service_deinit\<close>: for each entry the printing of the entry after the last, then its release.\<close>

fun deinit_asserts :: "service \<Rightarrow> nat \<Rightarrow> nat \<Rightarrow> bytes list" where
  "deinit_asserts sv i 0 = []"
| "deinit_asserts sv i (Suc k) =
     (case load_slot (sv_fp sv) i of
        Inl _ \<Rightarrow> []
      | Inr target \<Rightarrow>
          if target = Null then deinit_asserts sv (i + 1) k
          else
            case (load_slot (sv_fp sv) (sv_index sv), load_slot (sv_paths sv) (sv_index sv)) of
              (Inr shown, Inr path) \<Rightarrow>
                print_asserts shown (map_option name_text path) @
                (case (fs_target_print shown (map_option name_text path) 0, fs_target_delete target) of
                   (Inr lines, Inr freed) \<Rightarrow> fst (delete_said target) @ deinit_asserts sv (i + 1) k
                 | _ \<Rightarrow> [])
            | _ \<Rightarrow> [])"

section \<open>What they report\<close>

lemma push_said_result: "snd (push_said al kids other) = fs_target_children_push al kids other"
  by (simp add: push_said_def return_val_if_fail_def fs_target_children_push_def)

lemma delete_said_result: "snd (delete_said entry) = fs_target_delete entry"
  by (cases entry) (simp_all add: delete_said_def return_val_if_fail_def)

lemma delete_said_silent: "entry \<noteq> Null \<Longrightarrow> fst (delete_said entry) = []"
  by (simp add: delete_said_def return_val_if_fail_def)

lemma deinit_asserts_all:
  assumes ok: "service_ok sv"
  shows "i + k = sv_index sv \<Longrightarrow> deinit_asserts sv i k = replicate k (assertion_failed (fs_target_c 259 ''target''))"
proof (induction k arbitrary: i)
  case (Suc k)
  have i: "i < sv_index sv" "i < length (sv_fp sv)" "sv_index sv < length (sv_fp sv)" "sv_index sv < length (sv_paths sv)"
    using Suc.prems ok by (auto simp: service_ok_def)
  then have t: "live (sv_fp sv ! i)"
    using ok by (auto simp: service_ok_def live_all_nth)
  then obtain t where ptr: "sv_fp sv ! i = Ptr t"
    by (cases "sv_fp sv ! i") auto
  then obtain freed where "fs_target_dealloc t = Inr freed"
    using dealloc_counts(1) [of t] t by auto
  moreover have "sv_fp sv ! sv_index sv = Null"
    using ok i(3) Cons_nth_drop_Suc [OF i(3)] by (auto simp: service_ok_def) (metis list.pred_inject(2))
  ultimately show ?case
    using Suc.IH [of "i + 1"] Suc.prems i ptr
    by (simp add: load_slot_def delete_said_silent return_if_fail_def)
qed simp

text \<open>
  C34: the shutdown complains about itself. Whatever the daemon has done, when it ends it prints
  for every snapshot, instead of the tree, that an assertion failed: the entry it hands to
  \<open>fs_target_print\<close> is the one after the last, which is NULL. Nothing else is reported, and
  no tree is printed.
\<close>

theorem shutdown_asserts:
  assumes "service_ok sv"
  shows "deinit_asserts sv 0 (sv_index sv) =
      replicate (sv_index sv) (assertion_failed (fs_target_c 259 ''target'')) \<and>
    (\<exists>freed. service_deinit sv 0 (sv_index sv) = Inr ([], freed))"
  using deinit_asserts_all [OF assms, of 0] service_deinit_ok [OF assms, of 0 "sv_index sv"] by auto

theorem shutdown_asserts_witness:
  "deinit_asserts sample_service 0 1 =
    [bytes_of ''Assertion failed: srcs/fs/fs_target.c:259 (target)'' @ [10]]"
proof -
  have "assertion_failed (fs_target_c 259 ''target'') =
      bytes_of ''Assertion failed: srcs/fs/fs_target.c:259 (target)'' @ [10]"
    by code_simp
  then show ?thesis
    using shutdown_asserts [OF sample_service_ok(1)] by (simp add: sample_service_def)
qed

end
