(* ===== verification/Dynstr.thy ===== *)
theory Dynstr
  imports Path Memory
begin

text \<open>
  The growable string of \<^verbatim>\<open>daemon/srcs/lib/dynstr.c\<close>: a block that holds the characters and
  their terminator, the size in use (terminator included) and the capacity, both \<^verbatim>\<open>size_t\<close>.
  \<open>src\<close> arguments are C strings given by their bytes before the terminator.
\<close>

section \<open>Operations\<close>

record dynstr =
  d_ptr :: bytes
  d_size :: u64
  d_cap :: u64

definition sizeof_dynstr :: u64 where
  "sizeof_dynstr = 24"

definition dynstr_new :: "allocator \<Rightarrow> u64 \<Rightarrow> dynstr option res" where
  "dynstr_new al n =
     (let init_size = n + 1 in
      if \<not> grants al sizeof_dynstr then Inr None
      else case malloc al init_size of
        None \<Rightarrow> Inr None
      | Some ptr \<Rightarrow>
          map_res (\<lambda>ptr. Some \<lparr>d_ptr = ptr, d_size = 1, d_cap = init_size\<rparr>) (store_byte ptr 0 0))"

definition dynstr_from :: "allocator \<Rightarrow> bytes \<Rightarrow> u64 \<Rightarrow> dynstr option res" where
  "dynstr_from al src n =
     (let init_size = n + 1 in
      if \<not> grants al sizeof_dynstr then Inr None
      else case malloc al init_size of
        None \<Rightarrow> Inr None
      | Some ptr \<Rightarrow>
          bind_res (mem_copy ptr 0 src 0 (unat n)) (\<lambda>ptr.
          map_res (\<lambda>ptr. Some \<lparr>d_ptr = ptr, d_size = n + 1, d_cap = init_size\<rparr>)
            (store_byte ptr (unat n) 0)))"

text \<open>\<open>n\<close> is the size the block has to hold.\<close>

definition dynstr_adjust :: "allocator \<Rightarrow> dynstr \<Rightarrow> u64 \<Rightarrow> dynstr \<times> bool" where
  "dynstr_adjust al self n =
     (if n + 1 < d_cap self then (self, True)
      else
        let size = (if n < push_bit 1 (d_cap self) then push_bit 1 (d_cap self) else n) in
        case realloc al (d_ptr self) size of
          Realloc_Failed \<Rightarrow> (self, False)
        | Realloc_Released \<Rightarrow> (self\<lparr>d_ptr := []\<rparr>, False)
        | Realloc_Moved ptr \<Rightarrow> (self\<lparr>d_cap := size, d_ptr := ptr\<rparr>, True))"

definition dynstr_append :: "allocator \<Rightarrow> dynstr \<Rightarrow> bytes \<Rightarrow> (dynstr \<times> bool) res" where
  "dynstr_append al self src =
     (let size = of_nat (length src);
          (self, ok) = dynstr_adjust al self (d_size self + size) in
      if \<not> ok then Inr (self, False)
      else
        map_res (\<lambda>ptr. (self\<lparr>d_ptr := ptr, d_size := d_size self + size\<rparr>, True))
          (mem_copy (d_ptr self) (unat (d_size self - 1)) (src @ [0]) 0 (length src + 1)))"

definition dynstr_assign :: "allocator \<Rightarrow> bytes \<Rightarrow> dynstr option res" where
  "dynstr_assign al src =
     bind_res (dynstr_new al (of_nat (length src))) (\<lambda>str.
       case str of
         None \<Rightarrow> Inr None
       | Some str \<Rightarrow>
           map_res (\<lambda>ptr. Some (str\<lparr>d_ptr := ptr, d_size := of_nat (length src) + 1\<rparr>))
             (mem_copy (d_ptr str) 0 (src @ [0]) 0 (length src + 1)))"

definition dynstr_inject :: "allocator \<Rightarrow> dynstr \<Rightarrow> bytes \<Rightarrow> u64 \<Rightarrow> (dynstr \<times> bool) res" where
  "dynstr_inject al self src p =
     (let str_size = of_nat (length src);
          (self, ok) = dynstr_adjust al self (d_size self + str_size) in
      if \<not> ok then Inr (self, False)
      else
        bind_res
          (if d_size self = 1 then Inr (d_ptr self)
           else mem_move (d_ptr self) (unat (p + str_size)) (unat p) (unat (d_size self - p))) (\<lambda>ptr.
        map_res (\<lambda>ptr. (self\<lparr>d_ptr := ptr, d_size := d_size self + str_size\<rparr>, True))
          (mem_copy ptr (unat p) src 0 (length src))))"

definition dynstr_wipe :: "dynstr \<Rightarrow> u64 \<Rightarrow> u64 \<Rightarrow> dynstr res" where
  "dynstr_wipe self start stop =
     (let n = stop - start in
      map_res (\<lambda>ptr. self\<lparr>d_ptr := ptr, d_size := d_size self - n\<rparr>)
        (mem_move (d_ptr self) (unat start) (unat stop) (unat (d_size self - start - n))))"

text \<open>What \<open>dynstr_kill\<close> hands to \<^verbatim>\<open>free\<close>: the block, then the header.\<close>

definition dynstr_kill :: "dynstr \<Rightarrow> bytes \<times> dynstr" where
  "dynstr_kill self = (d_ptr self, self)"

definition dynstr_clear :: "dynstr \<Rightarrow> dynstr res" where
  "dynstr_clear self =
     map_res (\<lambda>ptr. self\<lparr>d_size := 0, d_ptr := ptr\<rparr>) (store_byte (d_ptr self) 0 0)"

definition dynstr_cap :: "dynstr \<Rightarrow> u64" where
  "dynstr_cap self = d_cap self"

definition dynstr_len :: "dynstr \<Rightarrow> u64" where
  "dynstr_len self = d_size self"

section \<open>Well-formed strings\<close>

text \<open>
  The block is the string, its terminator and unused room; sizes stay where \<open>malloc\<close> can still
  grant them.
\<close>

definition dynstr_is :: "dynstr \<Rightarrow> bytes \<Rightarrow> bool" where
  "dynstr_is self s \<longleftrightarrow> is_cstr s \<and> unat (d_size self) = length s + 1 \<and>
     length (d_ptr self) = unat (d_cap self) \<and> unat (d_cap self) < 2 ^ 63 \<and>
     (\<exists>rest. d_ptr self = s @ 0 # rest)"

text \<open>\<^verbatim>\<open>malloc\<close> refuses sizes that no object can have.\<close>

definition bounded_heap :: "allocator \<Rightarrow> bool" where
  "bounded_heap al \<longleftrightarrow> (\<forall>n. grants al n \<longrightarrow> unat n < 2 ^ 63)"

lemma dynstr_adjust_ok:
  assumes heap: "bounded_heap al" and d: "dynstr_is self s" and n: "unat n + 1 < 2 ^ 64"
    and need: "length s + 1 \<le> unat n"
  obtains self' ok where "dynstr_adjust al self n = (self', ok)" and "dynstr_is self' s"
    and "d_size self' = d_size self" and "ok \<Longrightarrow> unat n \<le> unat (d_cap self')" and "\<not> ok \<Longrightarrow> self' = self"
proof (cases "n + 1 < d_cap self")
  case True
  have "unat (n + 1) = unat n + 1"
    using n by (simp add: unat_u64_add)
  then have "unat n \<le> unat (d_cap self)"
    using True by (simp add: word_less_nat_alt)
  then show thesis
    using that [of self True] True d by (simp add: dynstr_adjust_def)
next
  case False
  obtain rest where ptr: "d_ptr self = s @ 0 # rest"
    using d by (auto simp: dynstr_is_def)
  define size where "size = (if n < push_bit 1 (d_cap self) then push_bit 1 (d_cap self) else n)"
  have "unat (push_bit 1 (d_cap self)) = 2 * unat (d_cap self)"
    using d by (simp add: dynstr_is_def push_bit_eq_mult unat_u64_mult)
  then have sz: "unat n \<le> unat size" "length s + 1 \<le> unat size"
    using need by (auto simp: size_def word_less_nat_alt not_less)
  show thesis
  proof (cases "realloc al (d_ptr self) size")
    case Realloc_Failed
    then show ?thesis
      using that [of self False] False d by (simp add: dynstr_adjust_def size_def Let_def)
  next
    case Realloc_Released
    then have "size = 0"
      by (rule libc.resize_released)
    then show ?thesis
      using sz by simp
  next
    case (Realloc_Moved b)
    have "grants al size"
      using Realloc_Moved by (auto simp: realloc_def split: if_splits)
    then have small: "unat size < 2 ^ 63"
      using heap by (simp add: bounded_heap_def)
    obtain zs where b: "b = (s @ [0]) @ zs" "length (s @ [0]) + length zs = unat size"
      using libc.resize_keeps [of al "s @ [0]" rest size b] Realloc_Moved ptr sz by auto
    let ?self = "self\<lparr>d_cap := size, d_ptr := b\<rparr>"
    have "dynstr_is ?self s"
      using d b small by (auto simp: dynstr_is_def)
    then show ?thesis
      using that [of ?self True] False Realloc_Moved sz by (simp add: dynstr_adjust_def size_def Let_def)
  qed
qed

lemma dynstr_is_string: "dynstr_is self s \<Longrightarrow> cstr (d_ptr self) = s"
  by (auto simp: dynstr_is_def cstr_append)

section \<open>What the operations do\<close>

text \<open>Writing \<open>t\<close> and its terminator over the old terminator.\<close>

lemma dynstr_rest:
  assumes "dynstr_is self s" and "k \<le> unat (d_cap self)" and "length s < k"
  obtains mid post where "d_ptr self = s @ 0 # mid @ post" and "length mid = k - length s - 1"
proof -
  obtain rest where "d_ptr self = s @ 0 # rest" "length s + 1 + length rest = unat (d_cap self)"
    using assms(1) by (auto simp: dynstr_is_def)
  then show thesis
    using that [of "take (k - length s - 1) rest" "drop (k - length s - 1) rest"] assms(2,3) by simp
qed

lemma dynstr_sizes:
  assumes "dynstr_is self s" and "length t < 2 ^ 62"
  shows "unat (d_size self + of_nat (length t)) = length s + length t + 1"
    and "unat (of_nat (length t) :: u64) = length t" and "unat (d_size self - 1) = length s"
    and "length s + length t + 1 < 2 ^ 63 + 2 ^ 62"
proof -
  have s: "unat (d_size self) = length s + 1" "length s + 1 < 2 ^ 63"
    using assms(1) by (auto simp: dynstr_is_def)
  show t: "unat (of_nat (length t) :: u64) = length t"
    using assms(2) by (simp add: unat_u64_of_nat)
  show "unat (d_size self + of_nat (length t)) = length s + length t + 1"
    using s t assms(2) by (simp add: unat_u64_add)
  show "unat (d_size self - 1) = length s"
    using s by (simp add: unat_u64_sub)
  show "length s + length t + 1 < 2 ^ 63 + 2 ^ 62"
    using s assms(2) by simp
qed

lemma dynstr_adjust_add:
  assumes "bounded_heap al" and "dynstr_is self s" and "length t < 2 ^ 62"
  obtains d ok where "dynstr_adjust al self (d_size self + of_nat (length t)) = (d, ok)"
    and "dynstr_is d s" and "d_size d = d_size self" and "ok \<Longrightarrow> length s + length t + 1 \<le> unat (d_cap d)"
proof -
  let ?n = "d_size self + of_nat (length t)"
  note sz = dynstr_sizes [OF assms(2,3)]
  have n: "unat ?n + 1 < 2 ^ 64" "length s + 1 \<le> unat ?n"
    using sz by simp_all
  obtain d ok where "dynstr_adjust al self ?n = (d, ok)" "dynstr_is d s" "d_size d = d_size self"
    "ok \<longrightarrow> unat ?n \<le> unat (d_cap d)"
    using dynstr_adjust_ok [OF assms(1,2) n] by blast
  then show thesis
    using that sz(1) by simp
qed

lemma dynstr_append_ok:
  assumes "bounded_heap al" and "dynstr_is self s" and "is_cstr t" and "length t < 2 ^ 62"
  shows "\<exists>self' ok. dynstr_append al self t = Inr (self', ok) \<and> dynstr_is self' (if ok then s @ t else s)"
proof -
  note sz = dynstr_sizes [OF assms(2,4)]
  obtain d ok where adj: "dynstr_adjust al self (d_size self + of_nat (length t)) = (d, ok)"
    and d: "dynstr_is d s" "d_size d = d_size self" and cap: "ok \<Longrightarrow> length s + length t + 1 \<le> unat (d_cap d)"
    using dynstr_adjust_add [OF assms(1,2,4)] by blast
  show ?thesis
  proof (cases ok)
    case True
    obtain mid post where ptr: "d_ptr d = s @ 0 # mid @ post" and mid: "length mid = length t"
      using dynstr_rest [OF d(1) cap [OF True]] by auto
    have "mem_copy (s @ (0 # mid) @ post) (length s) (t @ [0]) 0 (length t + 1) = Inr (s @ (t @ [0]) @ post)"
      by (rule mem_copy_from_start) (use mid in simp_all)
    then have "dynstr_append al self t =
        Inr (d\<lparr>d_ptr := s @ t @ 0 # post, d_size := d_size self + of_nat (length t)\<rparr>, True)"
      using adj True d(2) ptr sz(3) by (simp add: dynstr_append_def)
    moreover have "dynstr_is (d\<lparr>d_ptr := s @ t @ 0 # post, d_size := d_size self + of_nat (length t)\<rparr>) (s @ t)"
      using d(1) assms(3) sz(1) ptr mid by (auto simp: dynstr_is_def)
    ultimately show ?thesis
      by auto
  next
    case False
    then show ?thesis
      using adj d(1) by (auto simp: dynstr_append_def)
  qed
qed

lemma dynstr_inject_ok:
  assumes "bounded_heap al" and "dynstr_is self s" and "is_cstr t" and "length t < 2 ^ 62"
    and ne: "s \<noteq> []" and p: "unat p \<le> length s"
  shows "\<exists>self' ok. dynstr_inject al self t p = Inr (self', ok) \<and>
    dynstr_is self' (if ok then take (unat p) s @ t @ drop (unat p) s else s)"
proof -
  note sz = dynstr_sizes [OF assms(2,4)]
  obtain d ok where adj: "dynstr_adjust al self (d_size self + of_nat (length t)) = (d, ok)"
    and d: "dynstr_is d s" "d_size d = d_size self" and cap: "ok \<Longrightarrow> length s + length t + 1 \<le> unat (d_cap d)"
    using dynstr_adjust_add [OF assms(1,2,4)] by blast
  show ?thesis
  proof (cases ok)
    case True
    let ?A = "take (unat p) s" and ?B = "drop (unat p) s"
    obtain mid post where ptr: "d_ptr d = s @ 0 # mid @ post" and mid: "length mid = length t"
      using dynstr_rest [OF d(1) cap [OF True]] by auto
    have s: "unat (d_size self) = length s + 1"
      using assms(2) by (simp add: dynstr_is_def)
    have one: "d_size d \<noteq> 1"
      using d(2) s ne by auto
    have off: "unat (p + of_nat (length t)) = unat p + length t"
      using p sz(2,4) by (simp add: unat_u64_add)
    have len: "unat (d_size d - p) = length ?B + 1"
      using d(2) s p by (simp add: unat_u64_sub)
    have split: "d_ptr d = ?A @ (?B @ [0]) @ mid @ post"
      using ptr by simp
    obtain X where X: "length X = length t"
      and move: "mem_move (?A @ (?B @ [0]) @ mid @ post) (length ?A + length t) (length ?A) (length (?B @ [0])) =
        Inr (?A @ X @ (?B @ [0]) @ post)"
      using mem_move_up [OF mid] by blast
    have "mem_move (d_ptr d) (unat (p + of_nat (length t))) (unat p) (unat (d_size d - p)) =
        Inr (?A @ X @ (?B @ [0]) @ post)"
      using move p off len unfolding split by simp
    moreover have "mem_copy (?A @ X @ (?B @ [0]) @ post) (unat p) t 0 (length t) = Inr (?A @ t @ (?B @ [0]) @ post)"
      by (rule mem_copy_from_start) (use X p in simp_all)
    ultimately have "dynstr_inject al self t p =
        Inr (d\<lparr>d_ptr := ?A @ t @ ?B @ 0 # post, d_size := d_size self + of_nat (length t)\<rparr>, True)"
      using adj True one d(2) by (simp add: dynstr_inject_def)
    moreover have "dynstr_is (d\<lparr>d_ptr := ?A @ t @ ?B @ 0 # post, d_size := d_size self + of_nat (length t)\<rparr>)
        (?A @ t @ ?B)"
    proof -
      have "is_cstr ?A" "is_cstr ?B"
        using d(1) is_cstr_simps(3) [of ?A ?B] by (simp_all add: dynstr_is_def)
      moreover have "length (?A @ t @ ?B @ 0 # post) = length (d_ptr d)"
        using ptr mid p by simp
      ultimately show ?thesis
        using d(1) assms(3) sz(1) p by (auto simp: dynstr_is_def)
    qed
    ultimately show ?thesis
      by auto
  next
    case False
    then show ?thesis
      using adj d(1) by (auto simp: dynstr_inject_def)
  qed
qed

lemma dynstr_wipe_ok:
  assumes "dynstr_is self s" and "unat a \<le> unat b" and "unat b \<le> length s"
  shows "\<exists>self'. dynstr_wipe self a b = Inr self' \<and> dynstr_is self' (take (unat a) s @ drop (unat b) s)"
proof -
  let ?A = "take (unat a) s" and ?X = "drop (unat a) (take (unat b) s)" and ?B = "drop (unat b) s"
  obtain rest where ptr: "d_ptr self = s @ 0 # rest"
    using assms(1) by (auto simp: dynstr_is_def)
  have s: "unat (d_size self) = length s + 1"
    using assms(1) by (simp add: dynstr_is_def)
  have n: "unat (b - a) = unat b - unat a"
    using assms(2) by (simp add: unat_u64_sub)
  then have len: "unat (d_size self - a - (b - a)) = length ?B + 1" "unat (d_size self - (b - a)) = length s + 1 - (unat b - unat a)"
    using s assms(2,3) by (simp_all add: unat_u64_sub)
  have whole: "s = ?A @ ?X @ ?B"
    using assms(2) by (metis append.assoc append_take_drop_id take_take min.absorb1)
  have split: "d_ptr self = ?A @ ?X @ (?B @ [0]) @ rest"
    using ptr whole by (metis append.assoc append_Cons append_Nil)
  obtain S where S: "length S = length ?X"
    and move: "mem_move (?A @ ?X @ (?B @ [0]) @ rest) (length ?A) (length ?A + length ?X) (length (?B @ [0])) =
      Inr (?A @ (?B @ [0]) @ S @ rest)"
    using mem_move_down by blast
  have "mem_move (d_ptr self) (unat a) (unat b) (unat (d_size self - a - (b - a))) = Inr (?A @ ?B @ 0 # S @ rest)"
    using move assms(2,3) len(1) unfolding split by simp
  moreover have "dynstr_is (self\<lparr>d_ptr := ?A @ ?B @ 0 # S @ rest, d_size := d_size self - (b - a)\<rparr>) (?A @ ?B)"
  proof -
    have "is_cstr ?A \<and> is_cstr ?B"
      using assms(1) whole is_cstr_simps(3) by (metis dynstr_is_def)
    moreover have "length (?A @ ?B @ 0 # S @ rest) = length (d_ptr self)"
      using ptr S assms(2,3) by simp
    ultimately show ?thesis
      using assms len(2) by (auto simp: dynstr_is_def)
  qed
  ultimately show ?thesis
    by (auto simp: dynstr_wipe_def Let_def)
qed

lemma dynstr_new_ok:
  assumes "bounded_heap al" and "unat n < 2 ^ 62"
  shows "case dynstr_new al n of Inr None \<Rightarrow> \<not> (grants al sizeof_dynstr \<and> grants al (n + 1))
    | Inr (Some d) \<Rightarrow> dynstr_is d [] | Inl f \<Rightarrow> False"
proof (cases "grants al sizeof_dynstr \<and> grants al (n + 1)")
  case True
  then have "unat (n + 1) < 2 ^ 63"
    using assms(1) by (simp add: bounded_heap_def)
  moreover have n: "unat (n + 1) = unat n + 1"
    using assms(2) by (simp add: unat_u64_add)
  ultimately show ?thesis
    using True by (simp add: dynstr_new_def malloc_def store_byte_def dynstr_is_def upt_conv_Cons del: upt_Suc)
qed (auto simp: dynstr_new_def malloc_def Let_def)

lemma dynstr_assign_ok:
  assumes "bounded_heap al" and "is_cstr t" and "length t < 2 ^ 62"
  shows "case dynstr_assign al t of Inr None \<Rightarrow> \<not> (grants al sizeof_dynstr \<and> grants al (of_nat (length t) + 1))
    | Inr (Some d) \<Rightarrow> dynstr_is d t | Inl f \<Rightarrow> False"
proof (cases "grants al sizeof_dynstr \<and> grants al (of_nat (length t) + 1)")
  case True
  have n: "unat (of_nat (length t) + 1 :: u64) = length t + 1"
    using assms(3) by (simp add: unat_u64_add unat_u64_of_nat)
  have "unat (of_nat (length t) + 1 :: u64) < 2 ^ 63"
    using n assms(3) by simp
  then show ?thesis
    using True assms(2) n
    by (simp add: dynstr_assign_def dynstr_new_def malloc_def store_byte_def mem_copy_def mem_load_def
        mem_store_def dynstr_is_def)
qed (auto simp: dynstr_assign_def dynstr_new_def malloc_def Let_def)

text \<open>Clearing sets the size to 0, not 1: the next append starts one byte before the block.\<close>

lemma clear_then_append:
  assumes d: "dynstr_is self s" and room: "length t + 1 < unat (d_cap self)"
  shows "\<exists>self'. dynstr_clear self = Inr self' \<and> cstr (d_ptr self') = [] \<and> d_size self' = 0 \<and>
    dynstr_append al self' t = Inl Out_Of_Bounds"
proof -
  have cap: "length (d_ptr self) = unat (d_cap self)" "unat (d_cap self) < 2 ^ 63"
    using d by (simp_all add: dynstr_is_def)
  obtain x xs where ptr: "d_ptr self = x # xs"
    using cap(1) room by (cases "d_ptr self") auto
  let ?d = "self\<lparr>d_size := 0, d_ptr := 0 # xs\<rparr>"
  have "unat (of_nat (length t) :: u64) = length t"
    using room cap(2) by (simp add: unat_u64_of_nat)
  then have "unat (of_nat (length t) + 1 :: u64) = length t + 1"
    using room cap(2) by (simp add: unat_u64_add)
  then have adj: "dynstr_adjust al ?d (of_nat (length t)) = (?d, True)"
    using room by (simp add: dynstr_adjust_def word_less_nat_alt)
  have "dynstr_clear self = Inr ?d"
    using ptr by (simp add: dynstr_clear_def store_byte_def)
  moreover have "unat (0 - 1 :: u64) = 2 ^ 64 - 1"
    by (simp add: unat_SIZE_MAX)
  then have "mem_copy (0 # xs) (unat (0 - 1 :: u64)) (t @ [0]) 0 (length t + 1) = Inl Out_Of_Bounds"
    using cap ptr by (simp add: mem_copy_def mem_load_def mem_store_def)
  then have "dynstr_append al ?d t = Inl Out_Of_Bounds"
    using adj by (simp add: dynstr_append_def)
  ultimately show ?thesis
    by (simp add: cstr_def)
qed

section \<open>Runs of operations\<close>

datatype dynstr_op = Append_Str bytes | Inject_Str bytes u64 | Wipe_Str u64 u64

text \<open>What the caller may do to a string \<open>s\<close>; injecting into the empty string is left out.\<close>

fun str_pre :: "dynstr_op \<Rightarrow> bytes \<Rightarrow> bool" where
  "str_pre (Append_Str t) s \<longleftrightarrow> is_cstr t \<and> length t < 2 ^ 62"
| "str_pre (Inject_Str t p) s \<longleftrightarrow> is_cstr t \<and> length t < 2 ^ 62 \<and> s \<noteq> [] \<and> unat p \<le> length s"
| "str_pre (Wipe_Str a b) s \<longleftrightarrow> unat a \<le> unat b \<and> unat b \<le> length s"

fun str_op :: "dynstr_op \<Rightarrow> bytes \<Rightarrow> bytes" where
  "str_op (Append_Str t) s = s @ t"
| "str_op (Inject_Str t p) s = take (unat p) s @ t @ drop (unat p) s"
| "str_op (Wipe_Str a b) s = take (unat a) s @ drop (unat b) s"

fun run_str_op :: "allocator \<Rightarrow> dynstr_op \<Rightarrow> dynstr \<Rightarrow> (dynstr \<times> bool) res" where
  "run_str_op al (Append_Str t) d = dynstr_append al d t"
| "run_str_op al (Inject_Str t p) d = dynstr_inject al d t p"
| "run_str_op al (Wipe_Str a b) d = map_res (\<lambda>d. (d, True)) (dynstr_wipe d a b)"

lemma run_str_op_ok:
  assumes "bounded_heap al" and "dynstr_is d s" and "str_pre op s"
  shows "\<exists>d' ok. run_str_op al op d = Inr (d', ok) \<and> dynstr_is d' (if ok then str_op op s else s)"
proof (cases op)
  case (Append_Str t)
  with assms(3) have t: "is_cstr t" "length t < 2 ^ 62"
    by simp_all
  show ?thesis
    unfolding Append_Str run_str_op.simps str_op.simps by (rule dynstr_append_ok [OF assms(1,2) t])
next
  case (Inject_Str t p)
  with assms(3) have t: "is_cstr t" "length t < 2 ^ 62" "s \<noteq> []" "unat p \<le> length s"
    by simp_all
  show ?thesis
    unfolding Inject_Str run_str_op.simps str_op.simps by (rule dynstr_inject_ok [OF assms(1,2) t])
next
  case (Wipe_Str a b)
  with assms(3) have "unat a \<le> unat b" "unat b \<le> length s"
    by simp_all
  then obtain d' where "dynstr_wipe d a b = Inr d'" "dynstr_is d' (take (unat a) s @ drop (unat b) s)"
    using dynstr_wipe_ok [OF assms(2)] by blast
  then have "run_str_op al op d = Inr (d', True) \<and> dynstr_is d' (if True then str_op op s else s)"
    by (simp add: Wipe_Str)
  then show ?thesis
    by blast
qed

text \<open>A caller that stops at the first operation the heap refuses.\<close>

fun run_str_ops :: "allocator \<Rightarrow> dynstr_op list \<Rightarrow> dynstr \<Rightarrow> (dynstr \<times> bool) res" where
  "run_str_ops al [] d = Inr (d, True)"
| "run_str_ops al (op # ops) d =
     bind_res (run_str_op al op d) (\<lambda>(d, ok). if ok then run_str_ops al ops d else Inr (d, False))"

fun str_pres :: "dynstr_op list \<Rightarrow> bytes \<Rightarrow> bool" where
  "str_pres [] s \<longleftrightarrow> True"
| "str_pres (op # ops) s \<longleftrightarrow> str_pre op s \<and> str_pres ops (str_op op s)"

lemma run_str_ops_ok:
  assumes "bounded_heap al"
  shows "dynstr_is d s \<Longrightarrow> str_pres ops s \<Longrightarrow>
    \<exists>d' ok n. run_str_ops al ops d = Inr (d', ok) \<and> n \<le> length ops \<and> (ok \<longrightarrow> n = length ops) \<and>
      dynstr_is d' (fold str_op (take n ops) s)"
proof (induction ops arbitrary: d s)
  case (Cons op ops)
  have "str_pre op s"
    using Cons.prems(2) by simp
  then obtain d1 ok where run: "run_str_op al op d = Inr (d1, ok)" and d1: "dynstr_is d1 (if ok then str_op op s else s)"
    using run_str_op_ok [OF assms Cons.prems(1)] by blast
  show ?case
  proof (cases ok)
    case True
    with d1 have "dynstr_is d1 (str_op op s)"
      by simp
    from Cons.IH [OF this] Cons.prems(2) obtain d' ok' n where
      "run_str_ops al ops d1 = Inr (d', ok') \<and> n \<le> length ops \<and> (ok' \<longrightarrow> n = length ops) \<and>
        dynstr_is d' (fold str_op (take n ops) (str_op op s))"
      by auto
    then have "run_str_ops al (op # ops) d = Inr (d', ok') \<and> Suc n \<le> length (op # ops) \<and>
        (ok' \<longrightarrow> Suc n = length (op # ops)) \<and> dynstr_is d' (fold str_op (take (Suc n) (op # ops)) s)"
      using run True by simp
    then show ?thesis
      by blast
  next
    case False
    then have "run_str_ops al (op # ops) d = Inr (d1, False) \<and> 0 \<le> length (op # ops) \<and>
        (False \<longrightarrow> 0 = length (op # ops)) \<and> dynstr_is d1 (fold str_op (take 0 (op # ops)) s)"
      using run d1 by simp
    then show ?thesis
      by blast
  qed
qed auto

section \<open>Properties\<close>

text \<open>
  C14: A string built from a C string and then extended, injected into and cut, by a caller that
  keeps the positions inside the text (and injects into no empty text), never touches memory
  outside its block; it always holds exactly the text that the operations granted so far give,
  with its terminator, and its length counts the terminator. When every growth is granted that
  is the text all the operations give.
\<close>

theorem dynstr_run_refines:
  assumes "bounded_heap al" and "is_cstr t" and "length t < 2 ^ 62" and "str_pres ops t"
    and "dynstr_assign al t = Inr (Some d)"
  shows "\<exists>d' ok n. run_str_ops al ops d = Inr (d', ok) \<and> (ok \<longrightarrow> n = length ops) \<and>
    cstr (d_ptr d') = fold str_op (take n ops) t \<and>
    unat (dynstr_len d') = length (fold str_op (take n ops) t) + 1 \<and>
    unat (dynstr_len d') \<le> unat (dynstr_cap d') \<and> unat (dynstr_cap d') = length (d_ptr d')"
proof -
  have "dynstr_is d t"
    using dynstr_assign_ok [OF assms(1,2,3)] assms(5) by simp
  then obtain d' ok n where run: "run_str_ops al ops d = Inr (d', ok)" "ok \<longrightarrow> n = length ops"
    and d': "dynstr_is d' (fold str_op (take n ops) t)"
    using run_str_ops_ok [OF assms(1) _ assms(4)] by blast
  have "unat (d_size d') \<le> unat (d_cap d')"
    using d' by (auto simp: dynstr_is_def)
  with d' have "unat (dynstr_len d') = length (fold str_op (take n ops) t) + 1"
    and "unat (dynstr_len d') \<le> unat (dynstr_cap d')" and "unat (dynstr_cap d') = length (d_ptr d')"
    by (simp_all add: dynstr_len_def dynstr_cap_def dynstr_is_def)
  then show ?thesis
    using run dynstr_is_string [OF d'] by blast
qed

text \<open>"ab", with "cd" appended, "x" put before the last character, and the first one cut.\<close>

definition sample_edits :: "dynstr_op list" where
  "sample_edits = [Append_Str [99, 100], Inject_Str [120] 3, Wipe_Str 0 1]"

definition hundred_bytes :: allocator where
  "hundred_bytes = \<lparr>grants = (\<lambda>n. n \<le> 100), junk = (\<lambda>i. 7), zero_frees = True\<rparr>"

lemma bounded_hundred: "bounded_heap hundred_bytes"
  by (auto simp: bounded_heap_def hundred_bytes_def word_le_nat_alt)

theorem dynstr_run_refines_witness:
  "\<exists>d d'. dynstr_assign hundred_bytes [97, 98] = Inr (Some d) \<and>
    run_str_ops hundred_bytes sample_edits d = Inr (d', True) \<and> cstr (d_ptr d') = [98, 99, 120, 100]"
proof -
  have pre: "str_pres sample_edits [97, 98]"
    by (simp add: sample_edits_def is_cstr_def)
  let ?d = "\<lparr>d_ptr = [97, 98, 0], d_size = 3, d_cap = 3\<rparr>"
  have d: "dynstr_assign hundred_bytes [97, 98] = Inr (Some ?d)"
    by code_simp
  have "map_res snd (run_str_ops hundred_bytes sample_edits ?d) = Inr True"
    by code_simp
  then obtain d' where d': "run_str_ops hundred_bytes sample_edits ?d = Inr (d', True)"
    by (cases "run_str_ops hundred_bytes sample_edits ?d") auto
  have "cstr (d_ptr d') = fold str_op sample_edits [97, 98]"
    using dynstr_run_refines [OF bounded_hundred _ _ pre d] d' by (auto simp: is_cstr_def)
  then show ?thesis
    using d d' by (auto simp: sample_edits_def)
qed

text \<open>
  C37: Clearing a string empties the text but records the size 0 where every other operation counts
  the terminator; the next append that needs no growth writes one byte in front of the block.
\<close>

theorem clear_append_faults:
  assumes "dynstr_is self s" and "length t + 1 < unat (d_cap self)"
  shows "\<exists>self'. dynstr_clear self = Inr self' \<and> cstr (d_ptr self') = [] \<and> dynstr_len self' = 0 \<and>
    dynstr_append al self' t = Inl Out_Of_Bounds"
  using clear_then_append [OF assms] by (simp add: dynstr_len_def)

theorem clear_append_faults_witness:
  "\<exists>self'. dynstr_clear \<lparr>d_ptr = [97, 98, 0, 7], d_size = 3, d_cap = 4\<rparr> = Inr self' \<and>
    dynstr_append hundred_bytes self' [99] = Inl Out_Of_Bounds"
proof -
  have "dynstr_is \<lparr>d_ptr = [97, 98, 0, 7], d_size = 3, d_cap = 4\<rparr> [97, 98]"
    by (simp add: dynstr_is_def is_cstr_def)
  from clear_append_faults [OF this, of "[99]"] show ?thesis
    by auto
qed

end
