(* ===== verification/Files.thy ===== *)
theory Files
  imports Target
begin

text \<open>
  The file helpers of \<^verbatim>\<open>daemon/srcs/lib/fs.c\<close>. They are
  thin layers over system calls, so the kernel is a parameter: a record of calls on a state of its
  own, \<open>'s\<close>. What the helpers rely on is stated where it is needed (\<open>seekable\<close>).
\<close>

section \<open>The kernel\<close>

datatype whence = SEEK_SET | SEEK_CUR

text \<open>
  Failing calls return \<open>None\<close> or \<open>-1\<close>; the booleans are \<^verbatim>\<open>errno == ESPIPE\<close> and
  \<^verbatim>\<open>errno == EBADF\<close>. \<^verbatim>\<open>read\<close> returns the bytes it stores.
\<close>

record 's kernel =
  k_access :: "'s \<Rightarrow> bytes \<Rightarrow> bool"
  k_stat :: "'s \<Rightarrow> bytes \<Rightarrow> stat option"
  k_fstat :: "'s \<Rightarrow> int \<Rightarrow> stat option"
  k_getfl :: "'s \<Rightarrow> int \<Rightarrow> int"
  k_getfd :: "'s \<Rightarrow> int \<Rightarrow> int \<times> bool"
  k_open :: "'s \<Rightarrow> bytes \<Rightarrow> u32 \<Rightarrow> int \<times> 's"
  k_lseek :: "'s \<Rightarrow> int \<Rightarrow> int \<Rightarrow> whence \<Rightarrow> (int \<times> bool) \<times> 's"
  k_read :: "'s \<Rightarrow> int \<Rightarrow> u64 \<Rightarrow> bytes option \<times> 's"
  k_tcgetpgrp :: "'s \<Rightarrow> int \<Rightarrow> int"

section \<open>Names\<close>

definition S_IFDIR :: u32 where "S_IFDIR = 0x4000"
definition S_IFREG :: u32 where "S_IFREG = 0x8000"

definition file_exists :: "'s kernel \<Rightarrow> 's \<Rightarrow> bytes \<Rightarrow> bool" where
  "file_exists k s fn = k_access k s fn"

definition file_is_dir :: "'s kernel \<Rightarrow> 's \<Rightarrow> bytes \<Rightarrow> bool" where
  "file_is_dir k s fn = (case k_stat k s fn of
      Some sb \<Rightarrow> S_IFDIR AND st_mode sb = S_IFDIR
    | None \<Rightarrow> False)"

definition file_is_regular :: "'s kernel \<Rightarrow> 's \<Rightarrow> bytes \<Rightarrow> bool" where
  "file_is_regular k s fn = (case k_stat k s fn of
      Some sb \<Rightarrow> S_IFREG AND st_mode sb = S_IFREG
    | None \<Rightarrow> False)"

text \<open>Whether it succeeded, and what \<^verbatim>\<open>*size\<close> holds afterwards.\<close>

definition file_get_size :: "'s kernel \<Rightarrow> 's \<Rightarrow> bytes \<Rightarrow> u64 \<Rightarrow> bool \<times> u64" where
  "file_get_size k s fn sz = (case k_stat k s fn of
      Some sb \<Rightarrow> (True, st_size sb)
    | None \<Rightarrow> (False, sz))"

section \<open>Descriptors\<close>

definition fd_is_block_device :: "'s kernel \<Rightarrow> 's \<Rightarrow> int \<Rightarrow> bool" where
  "fd_is_block_device k s fd = (case k_fstat k s fd of
      None \<Rightarrow> False | Some st \<Rightarrow> st_mode st AND S_IFMT = 0x6000)"

definition fd_is_character_device :: "'s kernel \<Rightarrow> 's \<Rightarrow> int \<Rightarrow> bool" where
  "fd_is_character_device k s fd = (case k_fstat k s fd of
      None \<Rightarrow> False | Some st \<Rightarrow> st_mode st AND S_IFMT = 0x2000)"

definition fd_is_regular :: "'s kernel \<Rightarrow> 's \<Rightarrow> int \<Rightarrow> bool" where
  "fd_is_regular k s fd = (case k_fstat k s fd of
      None \<Rightarrow> False | Some st \<Rightarrow> st_mode st AND S_IFMT = 0x8000)"

definition fd_is_pipe :: "'s kernel \<Rightarrow> 's \<Rightarrow> int \<Rightarrow> bool \<times> 's" where
  "fd_is_pipe k s fd = (let ((ret, espipe), s) = k_lseek k s fd 0 SEEK_CUR in (ret < 0 \<and> espipe, s))"

definition O_ACCMODE :: u32 where "O_ACCMODE = 3"
definition O_RDONLY :: u32 where "O_RDONLY = 0"
definition O_WRONLY :: u32 where "O_WRONLY = 1"
definition O_CREAT :: u32 where "O_CREAT = 0x40"
definition O_TRUNC :: u32 where "O_TRUNC = 0x200"
definition O_APPEND :: u32 where "O_APPEND = 0x400"

definition fd_is_readable :: "'s kernel \<Rightarrow> 's \<Rightarrow> int \<Rightarrow> bool" where
  "fd_is_readable k s fd =
     (let ret = k_getfl k s fd in ret \<noteq> - 1 \<and> word_of_int ret AND O_ACCMODE \<noteq> O_WRONLY)"

definition fd_is_writable :: "'s kernel \<Rightarrow> 's \<Rightarrow> int \<Rightarrow> bool" where
  "fd_is_writable k s fd =
     (let ret = k_getfl k s fd in ret \<noteq> - 1 \<and> word_of_int ret AND O_ACCMODE \<noteq> O_RDONLY)"

definition fd_is_valid :: "'s kernel \<Rightarrow> 's \<Rightarrow> int \<Rightarrow> bool" where
  "fd_is_valid k s fd = (let (ret, ebadf) = k_getfd k s fd in ret \<noteq> - 1 \<or> \<not> ebadf)"

definition fd_is_control_term :: "'s kernel \<Rightarrow> 's \<Rightarrow> int \<Rightarrow> bool" where
  "fd_is_control_term k s fd = (k_tcgetpgrp k s fd > 0)"

section \<open>Opening\<close>

text \<open>Whether it succeeded, what \<^verbatim>\<open>*fd\<close> holds, and the state of the kernel.\<close>

definition file_open_read :: "'s kernel \<Rightarrow> 's \<Rightarrow> bytes \<Rightarrow> bool \<times> int \<times> 's" where
  "file_open_read k s fn = (let (fd, s) = k_open k s fn O_RDONLY in (fd \<noteq> - 1, fd, s))"

definition xre_file_open_append :: "'s kernel \<Rightarrow> 's \<Rightarrow> bytes \<Rightarrow> bool \<times> int \<times> 's" where
  "xre_file_open_append k s fn =
     (let (fd, s) = k_open k s fn (O_CREAT OR O_APPEND OR O_WRONLY) in (fd \<noteq> - 1, fd, s))"

definition file_open_write :: "'s kernel \<Rightarrow> 's \<Rightarrow> bytes \<Rightarrow> bool \<times> int \<times> 's" where
  "file_open_write k s fn =
     (let (fd, s) = k_open k s fn (O_CREAT OR O_TRUNC OR O_WRONLY) in (fd \<noteq> - 1, fd, s))"

section \<open>Reading\<close>

text \<open>\<open>dest\<close> is the block the destination points to; a failing \<^verbatim>\<open>read\<close> stores nothing.\<close>

definition fd_read :: "'s kernel \<Rightarrow> 's \<Rightarrow> int \<Rightarrow> bytes \<Rightarrow> u64 \<Rightarrow> (bool \<times> bytes \<times> 's) res" where
  "fd_read k s fd dest n =
     (let (ret, s) = k_read k s fd n in
      case ret of
        None \<Rightarrow> Inr (False, dest, s)
      | Some bs \<Rightarrow>
          map_res (\<lambda>dest. (int (length bs) = sint n, dest, s)) (mem_copy dest 0 bs 0 (length bs)))"

definition fd_read_at :: "'s kernel \<Rightarrow> 's \<Rightarrow> int \<Rightarrow> bytes \<Rightarrow> u64 \<Rightarrow> int \<Rightarrow> (bool \<times> bytes \<times> 's) res" where
  "fd_read_at k s fd dest n offset =
     (let ((ret, _), s) = k_lseek k s fd offset SEEK_SET in
      if ret = - 1 then Inr (False, dest, s)
      else if ret \<noteq> offset then Inr (False, dest, s)
      else
        let (ret, s) = k_read k s fd n in
        case ret of
          None \<Rightarrow> Inr (False, dest, s)
        | Some bs \<Rightarrow>
            map_res (\<lambda>dest. (int (length bs) = sint n, dest, s)) (mem_copy dest 0 bs 0 (length bs)))"

definition fd_sneek_read :: "'s kernel \<Rightarrow> 's \<Rightarrow> int \<Rightarrow> bytes \<Rightarrow> u64 \<Rightarrow> (bool \<times> bytes \<times> 's) res" where
  "fd_sneek_read k s fd dest n =
     (let ((start_offset, _), s) = k_lseek k s fd 0 SEEK_CUR in
      if start_offset = - 1 then Inr (False, dest, s)
      else
        let (ret, s) = k_read k s fd n in
        case ret of
          None \<Rightarrow> Inr (False, dest, s)
        | Some bs \<Rightarrow>
            bind_res (mem_copy dest 0 bs 0 (length bs)) (\<lambda>dest.
              if int (length bs) \<noteq> sint n then Inr (False, dest, s)
              else
                let ((ret, _), s) = k_lseek k s fd start_offset SEEK_SET in
                if ret = - 1 then Inr (False, dest, s)
                else if ret \<noteq> start_offset then Inr (False, dest, s)
                else Inr (True, dest, s)))"

section \<open>What reading does to a regular file\<close>

text \<open>
  \<^verbatim>\<open>lseek\<close> and \<^verbatim>\<open>read\<close> on a regular file of the given content that nobody writes to, as POSIX
  documents them; \<open>pos\<close> is the offset of the descriptor in a state of the kernel.
\<close>

definition seekable :: "'s kernel \<Rightarrow> int \<Rightarrow> bytes \<Rightarrow> ('s \<Rightarrow> int) \<Rightarrow> bool" where
  "seekable k fd content pos \<longleftrightarrow>
     (\<forall>s. 0 \<le> pos s) \<and>
     (\<forall>s. fst (fst (k_lseek k s fd 0 SEEK_CUR)) = pos s \<and> pos (snd (k_lseek k s fd 0 SEEK_CUR)) = pos s) \<and>
     (\<forall>s off. 0 \<le> off \<longrightarrow> fst (fst (k_lseek k s fd off SEEK_SET)) = off \<and> pos (snd (k_lseek k s fd off SEEK_SET)) = off) \<and>
     (\<forall>s n. unat n < 2 ^ 63 \<longrightarrow>
        fst (k_read k s fd n) = Some (take (unat n) (drop (nat (pos s)) content)) \<and>
        pos (snd (k_read k s fd n)) = pos s + int (length (take (unat n) (drop (nat (pos s)) content))))"

text \<open>The next \<open>n\<close> bytes from an offset, fewer at the end of the file.\<close>

definition upcoming :: "bytes \<Rightarrow> int \<Rightarrow> u64 \<Rightarrow> bytes" where
  "upcoming content off n = take (unat n) (drop (nat off) content)"

lemma length_upcoming: "length (upcoming content off n) \<le> unat n"
  by (simp add: upcoming_def)

lemma seekable_read:
  assumes "seekable k fd content pos" and "unat n < 2 ^ 63"
  obtains s' where "k_read k s fd n = (Some (upcoming content (pos s) n), s')"
    and "pos s' = pos s + int (length (upcoming content (pos s) n))"
  using assms unfolding seekable_def upcoming_def by (metis prod.collapse)

lemma seekable_seek:
  assumes "seekable k fd content pos" and "0 \<le> off"
  obtains e s' where "k_lseek k s fd off SEEK_SET = ((off, e), s')" and "pos s' = off"
  using assms unfolding seekable_def by (metis prod.collapse)

lemma seekable_tell:
  assumes "seekable k fd content pos"
  obtains e s' where "k_lseek k s fd 0 SEEK_CUR = ((pos s, e), s')" and "pos s' = pos s" and "0 \<le> pos s"
  using assms unfolding seekable_def by (metis prod.collapse)

lemma read_into:
  assumes "length bs \<le> length dest"
  shows "mem_copy dest 0 bs 0 (length bs) = Inr (bs @ drop (length bs) dest)"
  using assms by (simp add: mem_copy_def mem_load_def mem_store_def)

lemma int_eq_sint: "unat (n :: u64) < 2 ^ 63 \<Longrightarrow> int k = sint n \<longleftrightarrow> k = unat n"
  by (simp add: sint_u64 del: of_nat_unat)

lemma fd_read_ok:
  assumes reg: "seekable k fd content pos" and n: "unat n \<le> length dest" "unat n < 2 ^ 63"
  shows "\<exists>s'. fd_read k s fd dest n =
      Inr (length (upcoming content (pos s) n) = unat n,
        upcoming content (pos s) n @ drop (length (upcoming content (pos s) n)) dest, s') \<and>
    pos s' = pos s + int (length (upcoming content (pos s) n))"
proof -
  obtain s' where "k_read k s fd n = (Some (upcoming content (pos s) n), s')"
    "pos s' = pos s + int (length (upcoming content (pos s) n))"
    using seekable_read [OF reg n(2)] by blast
  then show ?thesis
    using read_into [of "upcoming content (pos s) n" dest] length_upcoming [of content "pos s" n] n
    by (simp add: fd_read_def int_eq_sint)
qed

lemma fd_read_at_ok:
  assumes reg: "seekable k fd content pos" and n: "unat n \<le> length dest" "unat n < 2 ^ 63" and off: "0 \<le> off"
  shows "\<exists>s'. fd_read_at k s fd dest n off =
      Inr (length (upcoming content off n) = unat n,
        upcoming content off n @ drop (length (upcoming content off n)) dest, s') \<and>
    pos s' = off + int (length (upcoming content off n))"
proof -
  obtain e s1 where "k_lseek k s fd off SEEK_SET = ((off, e), s1)" and s1: "pos s1 = off"
    using seekable_seek [OF reg off] by blast
  moreover obtain s' where "fd_read k s1 fd dest n =
      Inr (length (upcoming content off n) = unat n,
        upcoming content off n @ drop (length (upcoming content off n)) dest, s')"
    "pos s' = off + int (length (upcoming content off n))"
    using fd_read_ok [OF reg n, of s1] s1 by auto
  moreover have "off \<noteq> - 1"
    using off by simp
  ultimately show ?thesis
    by (simp add: fd_read_at_def fd_read_def)
qed

text \<open>Peeking succeeds when all \<open>n\<close> bytes are there; only then the offset is put back.\<close>

lemma fd_sneek_read_ok:
  assumes reg: "seekable k fd content pos" and n: "unat n \<le> length dest" "unat n < 2 ^ 63"
  shows "\<exists>s'. fd_sneek_read k s fd dest n =
      Inr (length (upcoming content (pos s) n) = unat n,
        upcoming content (pos s) n @ drop (length (upcoming content (pos s) n)) dest, s') \<and>
    pos s' = (if length (upcoming content (pos s) n) = unat n then pos s
      else pos s + int (length (upcoming content (pos s) n)))"
proof -
  obtain e s1 where tell: "k_lseek k s fd 0 SEEK_CUR = ((pos s, e), s1)" "pos s1 = pos s" "0 \<le> pos s"
    using seekable_tell [OF reg] by blast
  obtain s2 where read: "k_read k s1 fd n = (Some (upcoming content (pos s) n), s2)"
    "pos s2 = pos s + int (length (upcoming content (pos s) n))"
    using seekable_read [OF reg n(2), of s1] tell(2) by auto
  obtain e' s3 where rewind: "k_lseek k s2 fd (pos s) SEEK_SET = ((pos s, e'), s3)" "pos s3 = pos s"
    using seekable_seek [OF reg tell(3)] by blast
  have "pos s \<noteq> - 1"
    using tell(3) by simp
  then show ?thesis
    using tell(1) read rewind read_into [of "upcoming content (pos s) n" dest] length_upcoming [of content "pos s" n] n
    by (simp add: fd_sneek_read_def int_eq_sint)
qed

section \<open>Properties\<close>

text \<open>
  C38: on a regular file nobody writes to, \<open>fd_sneek_read\<close> succeeds exactly when all the bytes asked
  for are there; then it leaves the offset alone, so that \<open>fd_read\<close> reads the same bytes next.
  When there are fewer it fails with the offset moved to the end of the file, although it has
  only peeked.
\<close>

theorem sneek_read_peeks:
  assumes "seekable k fd content pos" and "unat n \<le> length dest" and "unat n < 2 ^ 63"
  shows "\<exists>ok block s'. fd_sneek_read k s fd dest n = Inr (ok, block, s') \<and>
    (ok \<longleftrightarrow> unat n \<le> length content - nat (pos s)) \<and>
    (if ok then pos s' = pos s \<and> (\<exists>s''. fd_read k s' fd dest n = Inr (True, block, s''))
     else pos s' = pos s + int (length content - nat (pos s)))"
proof -
  let ?bs = "upcoming content (pos s) n"
  obtain s' where run: "fd_sneek_read k s fd dest n = Inr (length ?bs = unat n, ?bs @ drop (length ?bs) dest, s')"
    and pos: "pos s' = (if length ?bs = unat n then pos s else pos s + int (length ?bs))"
    using fd_sneek_read_ok [OF assms] by blast
  obtain s'' where again: "fd_read k s' fd dest n =
      Inr (length (upcoming content (pos s') n) = unat n,
        upcoming content (pos s') n @ drop (length (upcoming content (pos s') n)) dest, s'')"
    using fd_read_ok [OF assms] by blast
  have len: "length ?bs = min (length content - nat (pos s)) (unat n)"
    by (simp add: upcoming_def)
  show ?thesis
  proof (cases "length ?bs = unat n")
    case True
    then show ?thesis
      using run pos again len by auto
  next
    case False
    then show ?thesis
      using run pos len by (auto simp: min_def split: if_splits)
  qed
qed

text \<open>A kernel with one regular file "abc", whose state is the offset.\<close>

definition abc_kernel :: "int kernel" where
  "abc_kernel = \<lparr>k_access = (\<lambda>s fn. True), k_stat = (\<lambda>s fn. None), k_fstat = (\<lambda>s fd. None),
     k_getfl = (\<lambda>s fd. 0), k_getfd = (\<lambda>s fd. (0, False)), k_open = (\<lambda>s fn fl. (3, 0)),
     k_lseek = (\<lambda>s fd off wh. let p = (case wh of SEEK_SET \<Rightarrow> off | SEEK_CUR \<Rightarrow> max 0 s + off) in ((p, False), p)),
     k_read = (\<lambda>s fd n. let bs = take (unat n) (drop (nat s) [97, 98, 99]) in (Some bs, max 0 s + int (length bs))),
     k_tcgetpgrp = (\<lambda>s fd. - 1)\<rparr>"

lemma abc_seekable: "seekable abc_kernel 3 [97, 98, 99] (max 0)"
proof -
  have "nat (max 0 s) = nat s" for s
    by simp
  then show ?thesis
    by (auto simp: seekable_def abc_kernel_def Let_def)
qed

theorem sneek_read_peeks_witness:
  "\<exists>s' s''. fd_sneek_read abc_kernel 1 3 [0, 0] 2 = Inr (True, [98, 99], s') \<and>
    fd_read abc_kernel s' 3 [0, 0] 2 = Inr (True, [98, 99], s'')"
proof -
  have "fd_sneek_read abc_kernel 1 3 [0, 0] 2 = Inr (True, [98, 99], 1)"
    by code_simp
  then show ?thesis
    using sneek_read_peeks [OF abc_seekable, of 2 "[0, 0]" 1] by auto
qed

text \<open>
  The tests on file names look at one bit of the file type. For every known type
  \<open>file_is_dir\<close> also holds of block devices and sockets, and \<open>file_is_regular\<close> of sockets and
  symbolic links; \<open>fd_is_regular\<close> compares all the bits and holds of regular files alone.
\<close>

theorem mode_bit_tests:
  assumes "k_stat k s fn = Some sb" and "k_fstat k s fd = Some sb" and "filetype_of (st_mode sb) \<noteq> unknown"
  shows "(file_is_dir k s fn \<longleftrightarrow> filetype_of (st_mode sb) \<in> {directory, blockdev, sock}) \<and>
    (file_is_regular k s fn \<longleftrightarrow> filetype_of (st_mode sb) \<in> {normal, symbolic_link, sock}) \<and>
    (fd_is_regular k s fd \<longleftrightarrow> filetype_of (st_mode sb) = normal)"
proof -
  let ?t = "st_mode sb AND S_IFMT"
  have bits: "S_IFDIR AND st_mode sb = S_IFDIR AND ?t" "S_IFREG AND st_mode sb = S_IFREG AND ?t"
    by (simp_all add: S_IFDIR_def S_IFREG_def S_IFMT_def and.left_commute [of _ "st_mode sb"] and.commute [of _ "st_mode sb"])
  have "?t \<in> {0x1000, 0x2000, 0x4000, 0x6000, 0x8000, 0xA000, 0xC000}"
    using assms(3) by (auto simp: filetype_of_def Let_def split: if_splits)
  then show ?thesis
    using assms(1,2) unfolding file_is_dir_def file_is_regular_def fd_is_regular_def filetype_of_def Let_def
    by (elim insertE) (simp_all add: bits, simp_all add: S_IFDIR_def S_IFREG_def)
qed

theorem mode_bit_tests_witness:
  "file_is_dir (abc_kernel\<lparr>k_stat := (\<lambda>s fn. Some (zero_stat\<lparr>st_mode := 0x61A4\<rparr>)),
     k_fstat := (\<lambda>s fd. Some (zero_stat\<lparr>st_mode := 0x61A4\<rparr>))\<rparr>) 0 [97]"
proof -
  have "filetype_of 0x61A4 = blockdev"
    by code_simp
  then show ?thesis
    using mode_bit_tests [of "abc_kernel\<lparr>k_stat := (\<lambda>s fn. Some (zero_stat\<lparr>st_mode := 0x61A4\<rparr>)),
      k_fstat := (\<lambda>s fd. Some (zero_stat\<lparr>st_mode := 0x61A4\<rparr>))\<rparr>" 0 "[97]" "zero_stat\<lparr>st_mode := 0x61A4\<rparr>" 3]
    by simp
qed

end
