(* ===== verification/Boot.thy ===== *)
theory Boot
  imports Files
begin

text \<open>
  The daemon side of \<^verbatim>\<open>daemon/srcs/boot.c\<close>: the log file and the steps that would detach the
  process. \<open>backd_init\<close> calls the service directly; the calls of \<open>__init_service\<close> are in a comment
  there, so nothing of the running program goes through it.
\<close>

section \<open>The name of the log file\<close>

text \<open>\<open>src\<close> and \<open>dst\<close> are positions in the same buffer.\<close>

function sanitize_loop :: "bytes \<Rightarrow> nat \<Rightarrow> nat \<Rightarrow> bytes res" where
  "sanitize_loop filename src dst =
     (if \<not> src < length filename then Inl Out_Of_Bounds
      else if filename ! src \<noteq> 0 then
        bind_res
          (if filename ! src = 58 \<or> filename ! src = 43 \<or> filename ! src = 45
           then store_byte filename dst 95
           else store_byte filename dst (filename ! src)) (\<lambda>filename.
        sanitize_loop filename (src + 1) (dst + 1))
      else store_byte filename dst 0)"
  by pat_completeness auto
termination
  by (relation "measure (\<lambda>(filename, src, dst). length filename - src)")
     (auto simp: store_byte_def split: if_splits)

declare sanitize_loop.simps [simp del]

definition sanitize_filename :: "bytes \<Rightarrow> bytes res" where
  "sanitize_filename filename = sanitize_loop filename 0 0"

text \<open>The buffer of 50 bytes; its format has no conversion, so the time does not matter.\<close>

definition init_logfile :: "'s kernel \<Rightarrow> 's \<Rightarrow> (int \<times> 's) res" where
  "init_logfile k s =
     map_res (\<lambda>name.
         let (ok, fd, s) = file_open_write k s (cstr name) in (if ok then fd else - 1, s))
       (sanitize_filename (bytes_of ''backd_temp.log'' @ replicate 36 0))"

section \<open>Detaching the process\<close>

text \<open>The further calls \<open>__init_service\<close> makes.\<close>

record 's detach =
  d_open_max :: int
  d_close :: "'s \<Rightarrow> int \<Rightarrow> 's"
  d_dup2 :: "'s \<Rightarrow> int \<Rightarrow> int \<Rightarrow> int \<times> 's"
  d_ignore_signals :: "'s \<Rightarrow> 's"
  d_setsid :: "'s \<Rightarrow> int \<times> 's"
  d_umask :: "'s \<Rightarrow> u32 \<Rightarrow> 's"
  d_chdir :: "'s \<Rightarrow> bytes \<Rightarrow> int \<times> 's"

text \<open>\<open>for (int x = n; x; x--) close(x);\<close>\<close>

fun close_loop :: "'s detach \<Rightarrow> nat \<Rightarrow> 's \<Rightarrow> 's" where
  "close_loop d 0 s = s"
| "close_loop d (Suc x) s = close_loop d x (d_close d s (int (Suc x)))"

text \<open>Whether it succeeded, and the kernel; a negative \<^verbatim>\<open>_SC_OPEN_MAX\<close> makes the loop leave the integers.\<close>

definition init_service :: "'s kernel \<Rightarrow> 's detach \<Rightarrow> 's \<Rightarrow> (bool \<times> 's) res" where
  "init_service k d s =
     (if d_open_max d < 0 then Inl Out_Of_Fuel
      else
        bind_res (init_logfile k (close_loop d (nat (d_open_max d)) s)) (\<lambda>(log_fd, s).
        if log_fd = - 1 then Inr (False, s)
        else
          let (ret, s) = d_dup2 d s log_fd 2 in
          if ret = - 1 then Inr (False, s)
          else
            let (ret, s) = d_setsid d (d_ignore_signals d (d_close d s log_fd)) in
            if ret = - 1 then Inr (False, s)
            else
              let (ret, s) = d_chdir d (d_umask d s 0) [SLASH] in
              Inr (ret \<noteq> - 1, s)))"

section \<open>Sanitizing\<close>

definition sane :: "u8 \<Rightarrow> u8" where
  "sane c = (if c = 58 \<or> c = 43 \<or> c = 45 then 95 else c)"

lemma sanitize_loop_append:
  "is_cstr s \<Longrightarrow> sanitize_loop (pre @ s @ 0 # rest) (length pre) (length pre) = Inr (pre @ map sane s @ 0 # rest)"
proof (induction s arbitrary: pre)
  case Nil
  then show ?case
    by (simp add: sanitize_loop.simps [of "pre @ 0 # rest"] store_byte_def)
next
  case (Cons c s)
  have c: "c \<noteq> 0" and s: "is_cstr s"
    using Cons.prems by (auto simp: is_cstr_def)
  have "sanitize_loop (pre @ (c # s) @ 0 # rest) (length pre) (length pre) =
      sanitize_loop ((pre @ [sane c]) @ s @ 0 # rest) (length (pre @ [sane c])) (length (pre @ [sane c]))"
    by (subst sanitize_loop.simps) (simp add: c store_byte_def sane_def nth_append)
  also have "\<dots> = Inr ((pre @ [sane c]) @ map sane s @ 0 # rest)"
    by (rule Cons.IH [OF s])
  finally show ?case
    by simp
qed

lemma sanitize_filename_eq:
  "is_cstr s \<Longrightarrow> sanitize_filename (s @ 0 # rest) = Inr (map sane s @ 0 # rest)"
  using sanitize_loop_append [of s "[]" rest] by (simp add: sanitize_filename_def)

lemma sane_simps: "sane c \<notin> {58, 43, 45}" "sane (sane c) = sane c" "sane c = 0 \<longleftrightarrow> c = 0"
  by (simp_all add: sane_def)

text \<open>
  C40: \<open>sanitize_filename\<close> works in place within the buffer: it keeps the length of the name and
  every byte but \<^verbatim>\<open>:\<close>, \<^verbatim>\<open>+\<close> and \<^verbatim>\<open>-\<close>, leaves none of those, and doing it twice changes nothing more.
\<close>

theorem sanitize_in_place:
  assumes "is_cstr s"
  shows "\<exists>buf. sanitize_filename (s @ 0 # rest) = Inr buf \<and> sanitize_filename buf = Inr buf \<and>
    length (cstr buf) = length s \<and> set (cstr buf) \<inter> {58, 43, 45} = {} \<and>
    (\<forall>i < length s. s ! i \<notin> {58, 43, 45} \<longrightarrow> cstr buf ! i = s ! i) \<and> drop (length s) buf = 0 # rest"
proof -
  have s': "is_cstr (map sane s)"
    using assms by (auto simp: is_cstr_def sane_simps(3))
  have "map sane (map sane s) = map sane s"
    by (simp add: sane_simps(2))
  moreover have "cstr (map sane s @ 0 # rest) = map sane s"
    by (rule cstr_append [OF s'])
  moreover have "set (map sane s) \<inter> {58, 43, 45} = {}"
    using sane_simps(1) by fastforce
  ultimately show ?thesis
    using sanitize_filename_eq [OF assms, of rest] sanitize_filename_eq [OF s', of rest]
    by (auto simp: sane_def)
qed

theorem sanitize_in_place_witness:
  "\<exists>buf. sanitize_filename [97, 58, 98, 0, 7] = Inr buf \<and> sanitize_filename buf = Inr buf \<and> length (cstr buf) = 3"
  using sanitize_in_place [of "[97, 58, 98]" "[7]"] by (auto simp: is_cstr_def)

end
