(* ===== verification/Compare.thy ===== *)
theory Compare
  imports Prelude
begin

text \<open>
  The orders a listing can be sorted by: \<^verbatim>\<open>daemon/srcs/lib/cmp.c\<close>. The build does not compile
  this file and the daemon does not call it. \<^verbatim>\<open>strcoll\<close> is the parameter \<open>strcoll\<close> and the
  flag \<^verbatim>\<open>f_samesort\<close>, which lives in a header that is not in the repository, the parameter
  \<open>f_samesort\<close>. A comparator answers a C \<^verbatim>\<open>int\<close> of which only the sign matters.
\<close>

section \<open>Entries\<close>

text \<open>
  The seconds and nanoseconds are signed \<^verbatim>\<open>long\<close>s; \<open>st_length\<close> is \<^verbatim>\<open>st_size\<close>, a signed \<^verbatim>\<open>off_t\<close>.
\<close>

record timespec =
  tv_sec :: u64
  tv_nsec :: u64

record fts_stat =
  st_atim :: timespec
  st_mtim :: timespec
  st_ctim :: timespec
  st_birthtim :: timespec
  st_length :: u64

record ftsent =
  fts_name :: bytes
  fts_statp :: fts_stat

section \<open>The comparators\<close>

definition namecmp :: "(bytes \<Rightarrow> bytes \<Rightarrow> int) \<Rightarrow> ftsent \<Rightarrow> ftsent \<Rightarrow> int" where
  "namecmp strcoll a b = strcoll (fts_name a) (fts_name b)"

definition revnamecmp :: "(bytes \<Rightarrow> bytes \<Rightarrow> int) \<Rightarrow> ftsent \<Rightarrow> ftsent \<Rightarrow> int" where
  "revnamecmp strcoll a b = strcoll (fts_name b) (fts_name a)"

definition modcmp :: "(bytes \<Rightarrow> bytes \<Rightarrow> int) \<Rightarrow> bool \<Rightarrow> ftsent \<Rightarrow> ftsent \<Rightarrow> int" where
  "modcmp strcoll f_samesort a b =
     (if sint (tv_sec (st_mtim (fts_statp b))) > sint (tv_sec (st_mtim (fts_statp a))) then 1
      else if sint (tv_sec (st_mtim (fts_statp b))) < sint (tv_sec (st_mtim (fts_statp a))) then - 1
      else if sint (tv_nsec (st_mtim (fts_statp b))) > sint (tv_nsec (st_mtim (fts_statp a))) then 1
      else if sint (tv_nsec (st_mtim (fts_statp b))) < sint (tv_nsec (st_mtim (fts_statp a))) then - 1
      else if f_samesort then strcoll (fts_name b) (fts_name a)
      else strcoll (fts_name a) (fts_name b))"

definition revmodcmp :: "(bytes \<Rightarrow> bytes \<Rightarrow> int) \<Rightarrow> bool \<Rightarrow> ftsent \<Rightarrow> ftsent \<Rightarrow> int" where
  "revmodcmp strcoll f_samesort a b = modcmp strcoll f_samesort b a"

definition acccmp :: "(bytes \<Rightarrow> bytes \<Rightarrow> int) \<Rightarrow> bool \<Rightarrow> ftsent \<Rightarrow> ftsent \<Rightarrow> int" where
  "acccmp strcoll f_samesort a b =
     (if sint (tv_sec (st_atim (fts_statp b))) > sint (tv_sec (st_atim (fts_statp a))) then 1
      else if sint (tv_sec (st_atim (fts_statp b))) < sint (tv_sec (st_atim (fts_statp a))) then - 1
      else if sint (tv_nsec (st_atim (fts_statp b))) > sint (tv_nsec (st_atim (fts_statp a))) then 1
      else if sint (tv_nsec (st_atim (fts_statp b))) < sint (tv_nsec (st_atim (fts_statp a))) then - 1
      else if f_samesort then strcoll (fts_name b) (fts_name a)
      else strcoll (fts_name a) (fts_name b))"

definition revacccmp :: "(bytes \<Rightarrow> bytes \<Rightarrow> int) \<Rightarrow> bool \<Rightarrow> ftsent \<Rightarrow> ftsent \<Rightarrow> int" where
  "revacccmp strcoll f_samesort a b = acccmp strcoll f_samesort b a"

definition birthcmp :: "(bytes \<Rightarrow> bytes \<Rightarrow> int) \<Rightarrow> bool \<Rightarrow> ftsent \<Rightarrow> ftsent \<Rightarrow> int" where
  "birthcmp strcoll f_samesort a b =
     (if sint (tv_sec (st_birthtim (fts_statp b))) > sint (tv_sec (st_birthtim (fts_statp a))) then 1
      else if sint (tv_sec (st_birthtim (fts_statp b))) < sint (tv_sec (st_birthtim (fts_statp a))) then - 1
      else if sint (tv_nsec (st_birthtim (fts_statp b))) > sint (tv_nsec (st_birthtim (fts_statp a))) then 1
      else if sint (tv_nsec (st_birthtim (fts_statp b))) < sint (tv_nsec (st_birthtim (fts_statp a))) then - 1
      else if f_samesort then strcoll (fts_name b) (fts_name a)
      else strcoll (fts_name a) (fts_name b))"

definition revbirthcmp :: "(bytes \<Rightarrow> bytes \<Rightarrow> int) \<Rightarrow> bool \<Rightarrow> ftsent \<Rightarrow> ftsent \<Rightarrow> int" where
  "revbirthcmp strcoll f_samesort a b = birthcmp strcoll f_samesort b a"

definition statcmp :: "(bytes \<Rightarrow> bytes \<Rightarrow> int) \<Rightarrow> bool \<Rightarrow> ftsent \<Rightarrow> ftsent \<Rightarrow> int" where
  "statcmp strcoll f_samesort a b =
     (if sint (tv_sec (st_ctim (fts_statp b))) > sint (tv_sec (st_ctim (fts_statp a))) then 1
      else if sint (tv_sec (st_ctim (fts_statp b))) < sint (tv_sec (st_ctim (fts_statp a))) then - 1
      else if sint (tv_nsec (st_ctim (fts_statp b))) > sint (tv_nsec (st_ctim (fts_statp a))) then 1
      else if sint (tv_nsec (st_ctim (fts_statp b))) < sint (tv_nsec (st_ctim (fts_statp a))) then - 1
      else if f_samesort then strcoll (fts_name b) (fts_name a)
      else strcoll (fts_name a) (fts_name b))"

definition revstatcmp :: "(bytes \<Rightarrow> bytes \<Rightarrow> int) \<Rightarrow> bool \<Rightarrow> ftsent \<Rightarrow> ftsent \<Rightarrow> int" where
  "revstatcmp strcoll f_samesort a b = statcmp strcoll f_samesort b a"

definition sizecmp :: "(bytes \<Rightarrow> bytes \<Rightarrow> int) \<Rightarrow> ftsent \<Rightarrow> ftsent \<Rightarrow> int" where
  "sizecmp strcoll a b =
     (if sint (st_length (fts_statp b)) > sint (st_length (fts_statp a)) then 1
      else if sint (st_length (fts_statp b)) < sint (st_length (fts_statp a)) then - 1
      else strcoll (fts_name a) (fts_name b))"

definition revsizecmp :: "(bytes \<Rightarrow> bytes \<Rightarrow> int) \<Rightarrow> ftsent \<Rightarrow> ftsent \<Rightarrow> int" where
  "revsizecmp strcoll a b = sizecmp strcoll b a"

section \<open>Comparators by sign\<close>

text \<open>
  What a sorting routine needs of its comparator: exchanging the arguments exchanges the sign,
  and \<open>\<le> 0\<close> is transitive.
\<close>

locale sign_order =
  fixes cmp :: "'a \<Rightarrow> 'a \<Rightarrow> int"
  assumes flip: "sgn (cmp b a) = - sgn (cmp a b)"
    and chain: "cmp a b \<le> 0 \<Longrightarrow> cmp b c \<le> 0 \<Longrightarrow> cmp a c \<le> 0"
begin

lemma same [simp]: "cmp a a = 0"
  using flip [of a a] by (simp add: sgn_if split: if_splits)

lemma flip_iff: "cmp b a \<le> 0 \<longleftrightarrow> 0 \<le> cmp a b" "cmp b a = 0 \<longleftrightarrow> cmp a b = 0"
  using flip [of a b] by (auto simp: sgn_if split: if_splits)

lemma total: "cmp a b \<le> 0 \<or> cmp b a \<le> 0"
  using flip_iff(1) [of b a] by linarith

lemma tie_trans: "cmp a b = 0 \<Longrightarrow> cmp b c = 0 \<Longrightarrow> cmp a c = 0"
  using chain [of a b c] chain [of c b a] flip_iff by fastforce

lemma reversed: "sign_order (\<lambda>a b. cmp b a)"
  by unfold_locales (use flip in blast, use chain flip_iff in blast)

lemma by_name: "sign_order (\<lambda>a b. cmp (f a) (f b))"
  by unfold_locales (rule flip, rule chain)

text \<open>A key in front, the greater key first; entries with equal keys are compared by \<open>cmp\<close>.\<close>

lemma key_first:
  fixes key :: "'a \<Rightarrow> int"
  shows "sign_order (\<lambda>a b. if key b > key a then 1 else if key b < key a then - 1 else cmp a b)"
proof
  fix a b c
  show "sgn (if key a > key b then 1 else if key a < key b then - 1 else cmp b a) =
      - sgn (if key b > key a then 1 else if key b < key a then - 1 else cmp a b)"
    using flip [of a b] by simp
  show "(if key b > key a then 1 else if key b < key a then - 1 else cmp a b) \<le> 0 \<Longrightarrow>
      (if key c > key b then 1 else if key c < key b then - 1 else cmp b c) \<le> 0 \<Longrightarrow>
      (if key c > key a then 1 else if key c < key a then - 1 else cmp a c) \<le> 0"
    using chain [of a b c] by (simp split: if_splits)
qed

end

text \<open>A collation of names orders entries under every comparator of the file.\<close>

locale collation =
  sign_order strcoll for strcoll :: "bytes \<Rightarrow> bytes \<Rightarrow> int"
begin

lemma names: "sign_order (\<lambda>a b. if samesort then strcoll (fts_name b) (fts_name a) else strcoll (fts_name a) (fts_name b))"
  using by_name [of fts_name] sign_order.reversed [OF by_name [of fts_name]] by (cases samesort) simp_all

lemmas two_keys = sign_order.key_first [OF sign_order.key_first [OF names]]

sublocale name_order: sign_order "namecmp strcoll"
  using by_name [of fts_name] unfolding namecmp_def .

sublocale mod_order: sign_order "modcmp strcoll samesort" for samesort
  unfolding modcmp_def by (rule two_keys)

sublocale acc_order: sign_order "acccmp strcoll samesort" for samesort
  unfolding acccmp_def by (rule two_keys)

sublocale birth_order: sign_order "birthcmp strcoll samesort" for samesort
  unfolding birthcmp_def by (rule two_keys)

sublocale stat_order: sign_order "statcmp strcoll samesort" for samesort
  unfolding statcmp_def by (rule two_keys)

sublocale size_order: sign_order "sizecmp strcoll"
  unfolding sizecmp_def by (rule sign_order.key_first) (rule by_name)

end

section \<open>The collation of the C locale\<close>

text \<open>
  A program that never calls \<^verbatim>\<open>setlocale\<close> collates by unsigned bytes, as \<^verbatim>\<open>strcmp\<close> does; the C
  library promises the sign only.
\<close>

fun strcmp :: "bytes \<Rightarrow> bytes \<Rightarrow> int" where
  "strcmp [] [] = 0"
| "strcmp [] (y # ys) = - 1"
| "strcmp (x # xs) [] = 1"
| "strcmp (x # xs) (y # ys) = (if x < y then - 1 else if y < x then 1 else strcmp xs ys)"

lemma strcmp_flip: "strcmp ys xs = - strcmp xs ys"
  by (induction xs ys rule: strcmp.induct) auto

lemma strcmp_chain: "strcmp xs ys \<le> 0 \<Longrightarrow> strcmp ys zs \<le> 0 \<Longrightarrow> strcmp xs zs \<le> 0"
proof (induction xs ys arbitrary: zs rule: strcmp.induct)
  case (4 x xs y ys)
  then show ?case
    by (cases zs) (auto split: if_splits)
next
  case (1)
  then show ?case
    by simp
next
  case (2 y ys)
  then show ?case
    by (cases zs) auto
qed simp

lemma strcmp_sgn: "sgn (strcmp ys xs) = - sgn (strcmp xs ys)"
  by (subst strcmp_flip) (rule sgn_minus)

interpretation c_locale: collation strcmp
  by unfold_locales (rule strcmp_sgn, rule strcmp_chain)

section \<open>Properties\<close>

definition comparators :: "(bytes \<Rightarrow> bytes \<Rightarrow> int) \<Rightarrow> bool \<Rightarrow> (ftsent \<Rightarrow> ftsent \<Rightarrow> int) list" where
  "comparators strcoll f_samesort =
     [namecmp strcoll, modcmp strcoll f_samesort, acccmp strcoll f_samesort, birthcmp strcoll f_samesort,
      statcmp strcoll f_samesort, sizecmp strcoll,
      revnamecmp strcoll, revmodcmp strcoll f_samesort, revacccmp strcoll f_samesort,
      revbirthcmp strcoll f_samesort, revstatcmp strcoll f_samesort, revsizecmp strcoll]"

lemma reverse_comparators:
  "revnamecmp coll = (\<lambda>a b. namecmp coll b a)"
  "revmodcmp coll samesort = (\<lambda>a b. modcmp coll samesort b a)"
  "revacccmp coll samesort = (\<lambda>a b. acccmp coll samesort b a)"
  "revbirthcmp coll samesort = (\<lambda>a b. birthcmp coll samesort b a)"
  "revstatcmp coll samesort = (\<lambda>a b. statcmp coll samesort b a)"
  "revsizecmp coll = (\<lambda>a b. sizecmp coll b a)"
  by (simp_all add: fun_eq_iff revnamecmp_def namecmp_def revmodcmp_def revacccmp_def revbirthcmp_def
      revstatcmp_def revsizecmp_def)

context collation
begin

lemma all_orders:
  assumes "cmp \<in> set (comparators strcoll samesort)"
  shows "sign_order cmp"
proof -
  note forward = name_order.sign_order_axioms mod_order.sign_order_axioms acc_order.sign_order_axioms
    birth_order.sign_order_axioms stat_order.sign_order_axioms size_order.sign_order_axioms
  have "list_all sign_order (comparators strcoll samesort)"
    unfolding comparators_def list.pred_inject(2) reverse_comparators
    by (intro conjI list.pred_inject(1) forward forward [THEN sign_order.reversed])
  then show ?thesis
    using assms by (simp only: list_all_iff)
qed

end

text \<open>
  C33: whenever the collation is an order up to ties, so is every comparator of the file, forward and
  reversed, with either setting of \<^verbatim>\<open>f_samesort\<close>: exchanging two entries exchanges the sign, and
  an entry that does not come after a second, which does not come after a third, does not come
  after the third. A sorting routine may rely on each of them.
\<close>

theorem comparators_are_orders:
  assumes "\<forall>m n. sgn (strcoll n m) = - sgn (strcoll m n)"
    and "\<forall>l m n. strcoll l m \<le> 0 \<and> strcoll m n \<le> 0 \<longrightarrow> strcoll l n \<le> 0"
    and "cmp \<in> set (comparators strcoll f_samesort)"
  shows "sgn (cmp b a) = - sgn (cmp a b) \<and> (cmp a b \<le> 0 \<and> cmp b c \<le> 0 \<longrightarrow> cmp a c \<le> 0)"
proof -
  have "collation strcoll"
    by unfold_locales (use assms(1,2) in blast)+
  then have "sign_order cmp"
    using assms(3) by (rule collation.all_orders)
  then show ?thesis
    unfolding sign_order_def by blast
qed

definition at_time :: "u64 \<Rightarrow> u64 \<Rightarrow> bytes \<Rightarrow> ftsent" where
  "at_time sec nsec n =
     (let t = \<lparr>tv_sec = sec, tv_nsec = nsec\<rparr> in
      \<lparr>fts_name = n, fts_statp = \<lparr>st_atim = t, st_mtim = t, st_ctim = t, st_birthtim = t, st_length = 0\<rparr>\<rparr>)"

theorem comparators_are_orders_witness:
  "modcmp strcmp True (at_time 1 0 [97]) (at_time 1 0 [98]) = 1 \<and>
    sgn (modcmp strcmp True (at_time 1 0 [98]) (at_time 1 0 [97])) = - 1"
proof -
  have "modcmp strcmp True \<in> set (comparators strcmp True)"
    by (simp add: comparators_def)
  moreover have "\<forall>m n. sgn (strcmp n m) = - sgn (strcmp m n)"
    "\<forall>l m n. strcmp l m \<le> 0 \<and> strcmp m n \<le> 0 \<longrightarrow> strcmp l n \<le> 0"
    using strcmp_sgn strcmp_chain by blast+
  ultimately have "sgn (modcmp strcmp True (at_time 1 0 [98]) (at_time 1 0 [97])) =
      - sgn (modcmp strcmp True (at_time 1 0 [97]) (at_time 1 0 [98]))"
    using comparators_are_orders by blast
  moreover have "modcmp strcmp True (at_time 1 0 [97]) (at_time 1 0 [98]) = 1"
    by (simp add: modcmp_def at_time_def Let_def)
  ultimately show ?thesis
    by simp
qed

text \<open>Nanoseconds since the epoch, for a normalized time.\<close>

definition normalized :: "timespec \<Rightarrow> bool" where
  "normalized t \<longleftrightarrow> 0 \<le> sint (tv_nsec t) \<and> sint (tv_nsec t) < 1000000000"

definition nanoseconds :: "timespec \<Rightarrow> int" where
  "nanoseconds t = sint (tv_sec t) * 1000000000 + sint (tv_nsec t)"

text \<open>Newest first, entries of the same time by name, in reverse when the flag asks for it.\<close>

definition newest_first ::
  "(bytes \<Rightarrow> bytes \<Rightarrow> int) \<Rightarrow> bool \<Rightarrow> (fts_stat \<Rightarrow> timespec) \<Rightarrow> ftsent \<Rightarrow> ftsent \<Rightarrow> int" where
  "newest_first strcoll f_samesort stamp a b =
     (let s = nanoseconds (stamp (fts_statp a)); t = nanoseconds (stamp (fts_statp b)) in
      if s \<noteq> t then sgn (t - s)
      else if f_samesort then strcoll (fts_name b) (fts_name a) else strcoll (fts_name a) (fts_name b))"

lemma nanoseconds_lex:
  assumes "normalized s" and "normalized t"
  shows "nanoseconds s < nanoseconds t \<longleftrightarrow>
    sint (tv_sec s) < sint (tv_sec t) \<or> sint (tv_sec s) = sint (tv_sec t) \<and> sint (tv_nsec s) < sint (tv_nsec t)"
    and "nanoseconds s = nanoseconds t \<longleftrightarrow>
    sint (tv_sec s) = sint (tv_sec t) \<and> sint (tv_nsec s) = sint (tv_nsec t)"
proof -
  have *: "(x * 1000000000 + i < y * 1000000000 + j \<longleftrightarrow> x < y \<or> x = y \<and> i < j) \<and>
      (x * 1000000000 + i = y * 1000000000 + j \<longleftrightarrow> x = y \<and> i = j)"
    if "0 \<le> i" "i < 1000000000" "0 \<le> j" "j < 1000000000" for x y i j :: int
  proof (cases x y rule: linorder_cases)
    case less
    then have "x + 1 \<le> y"
      by simp
    then show ?thesis
      using that by linarith
  next
    case greater
    then have "y + 1 \<le> x"
      by simp
    then show ?thesis
      using that by linarith
  qed simp
  show "nanoseconds s < nanoseconds t \<longleftrightarrow>
    sint (tv_sec s) < sint (tv_sec t) \<or> sint (tv_sec s) = sint (tv_sec t) \<and> sint (tv_nsec s) < sint (tv_nsec t)"
    "nanoseconds s = nanoseconds t \<longleftrightarrow> sint (tv_sec s) = sint (tv_sec t) \<and> sint (tv_nsec s) = sint (tv_nsec t)"
    unfolding nanoseconds_def using * assms unfolding normalized_def by blast+
qed

lemma time_key:
  assumes "normalized s" and "normalized t"
  shows "(if sint (tv_sec t) > sint (tv_sec s) then 1
      else if sint (tv_sec t) < sint (tv_sec s) then - 1
      else if sint (tv_nsec t) > sint (tv_nsec s) then 1
      else if sint (tv_nsec t) < sint (tv_nsec s) then - 1 else x) =
    (if nanoseconds s \<noteq> nanoseconds t then sgn (nanoseconds t - nanoseconds s) else x)"
  using nanoseconds_lex [OF assms] nanoseconds_lex [OF assms(2,1)] by (auto simp: sgn_if)

text \<open>
  On entries with normalized times the four time comparators compute the reference order
  \<open>newest_first\<close> of their time stamp, over the whole range of signed 64 bit seconds: the later
  entry comes first, and the collation decides between entries of the same nanosecond.
\<close>

theorem time_comparators_newest_first:
  assumes "list_all normalized [st_mtim (fts_statp a), st_atim (fts_statp a), st_birthtim (fts_statp a), st_ctim (fts_statp a)]"
    and "list_all normalized [st_mtim (fts_statp b), st_atim (fts_statp b), st_birthtim (fts_statp b), st_ctim (fts_statp b)]"
  shows "modcmp strcoll f_samesort a b = newest_first strcoll f_samesort st_mtim a b \<and>
    acccmp strcoll f_samesort a b = newest_first strcoll f_samesort st_atim a b \<and>
    birthcmp strcoll f_samesort a b = newest_first strcoll f_samesort st_birthtim a b \<and>
    statcmp strcoll f_samesort a b = newest_first strcoll f_samesort st_ctim a b"
proof -
  have norm: "normalized (st_mtim (fts_statp a))" "normalized (st_atim (fts_statp a))"
    "normalized (st_birthtim (fts_statp a))" "normalized (st_ctim (fts_statp a))"
    "normalized (st_mtim (fts_statp b))" "normalized (st_atim (fts_statp b))"
    "normalized (st_birthtim (fts_statp b))" "normalized (st_ctim (fts_statp b))"
    using assms by simp_all
  show ?thesis
    unfolding modcmp_def acccmp_def birthcmp_def statcmp_def newest_first_def Let_def
    by (intro conjI time_key norm)
qed

theorem time_comparators_newest_first_witness:
  "modcmp strcmp False (at_time (- 1) 999999999 [97]) (at_time 0 0 [97]) = 1"
proof -
  have norm: "list_all normalized [st_mtim (fts_statp e), st_atim (fts_statp e), st_birthtim (fts_statp e), st_ctim (fts_statp e)]"
    if "e \<in> {at_time (- 1) 999999999 [97], at_time 0 0 [97]}" for e
    using that by (auto simp: at_time_def normalized_def Let_def)
  have "newest_first strcmp False st_mtim (at_time (- 1) 999999999 [97]) (at_time 0 0 [97]) = 1"
    by (simp add: newest_first_def at_time_def nanoseconds_def Let_def)
  then show ?thesis
    using time_comparators_newest_first [OF norm norm, of "at_time (- 1) 999999999 [97]" "at_time 0 0 [97]" strcmp False]
    by simp
qed

end
