(* ===== verification/Spec2Isabelle.thy ===== *)
theory Spec2Isabelle
  imports Array_Properties Watch_Properties Mirror_Properties Monitor_Properties Cron_Properties Format_Properties
    Main_Properties Command_Line Process Assertions Dynstr Files Boot Logging Compare
begin

text \<open>
  Verification of \<^verbatim>\<open>backd\<close>, a daemon in C that watches files: it takes a snapshot of every
  file and directory named on its command line, compares each of them with \<^verbatim>\<open>lstat\<close> once per
  second, and prints an event for every change until a signal ends it. All sources are under
  \<^verbatim>\<open>src/daemon\<close>; the theories follow them file by file.

  \<^bold>\<open>How the parts interact.\<close> \<^verbatim>\<open>main\<close> (\<open>Options\<close>) reads the options with \<^verbatim>\<open>getopts_next\<close>, hands a cron
  string to the parser (\<open>Cron\<close>) and numbers to \<^verbatim>\<open>atoi32\<close> (\<open>Numbers\<close>), pushes the file names on a
  stack (\<open>Names\<close>), reverses it, and starts the service (\<open>Service\<close>). The service pops the names,
  builds a tree of targets for each (\<open>Snapshot\<close>), observes all the trees in rounds (\<open>Routine\<close>)
  and releases them. A round walks a tree, keeps the path of the current target in one buffer
  (\<open>Path\<close>), asks \<^verbatim>\<open>lstat\<close>, and appends to the history of the target (\<open>Event\<close>). Histories and
  child lists live in the growable array (\<open>Array\<close>).

  \<^bold>\<open>Theories, in the order of their imports.\<close>

  \<^item> \<open>Prelude\<close>: machine integers as 64, 32 and 8 bit words, faults, results (\<open>Inl\<close> a fault,
    \<open>Inr\<close> a value), pointers that may be NULL or released (\<open>cptr\<close>), checked slots, and the
    generic lemmas (\<open>wordnat\<close> collects the facts that read word arithmetic on numbers).
  \<^item> \<open>Memory\<close>: blocks of bytes, \<^verbatim>\<open>memcpy\<close> and \<^verbatim>\<open>memmove\<close> with their bounds, \<^verbatim>\<open>malloc\<close> and
    \<^verbatim>\<open>realloc\<close> as a parameter with the contract \<open>allocator_contract\<close>.
  \<^item> \<open>Sequence\<close>: the arithmetic of \<^verbatim>\<open>array_adjust\<close> (\<open>adjust_plan\<close>), typed sequences that share
    it, and the contract \<open>growable_sequence\<close>, interpreted for both representations.
  \<^item> \<open>Array\<close>: every operation of \<^verbatim>\<open>srcs/lib/array.c\<close> on the bytes of its block, the record \<open>array\<close>
    being \<^verbatim>\<open>array_t\<close>. \<open>Array_Refine\<close> has the invariant and the refinement of growing, pushing and
    inserting to typed sequences, \<open>Array_Edit\<close> removal and exchange, \<open>Array_Copy\<close> creation, copies
    and filters, \<open>Array_Spec\<close> the one outcome, in natural numbers, that every call on a list with a
    capacity has, \<open>Array_Run\<close> that arbitrary programs over one array have it, \<open>Array_Properties\<close>
    the properties.
  \<^item> \<open>Path\<close>: C strings, \<^verbatim>\<open>set_current_wd\<close> and \<^verbatim>\<open>unset_current_wd\<close> of \<^verbatim>\<open>srcs/fs/routine.c\<close> on the
    1024 bytes of \<^verbatim>\<open>__cur_path\<close>, and the contract \<open>path_walk\<close> of what a walk needs of them.
  \<^item> \<open>Target\<close>: the data of \<^verbatim>\<open>incs/fs_target.h\<close>, the state of the daemon (current path, counters of
    \<^verbatim>\<open>perf.c\<close>, clock, printed events) and the system it runs on (\<open>world\<close>).
  \<^item> \<open>Event\<close>: \<^verbatim>\<open>srcs/fs/events\<close>: the first event, the comparison of two statuses, detection.
  \<^item> \<open>Snapshot\<close>: \<^verbatim>\<open>srcs/fs/fs_target.c\<close>: creation, release and printing of trees. \<open>Tree\<close> has the
    live trees and the proof that creation returns one.
  \<^item> \<open>Routine\<close>: a round of \<^verbatim>\<open>srcs/fs/routine.c\<close>; what it keeps and what it may change. \<open>Mirror\<close> shows
    that a snapshot mirrors a file system at rest, entry by entry, \<open>Report\<close> that a round prints
    exactly what has changed since.
  \<^item> \<open>Names\<close>: the stack of \<^verbatim>\<open>main.c\<close>, and the contract \<open>bounded_stack\<close>, first in first out.
  \<^item> \<open>Service\<close>: \<^verbatim>\<open>srcs/loop.c\<close> and \<^verbatim>\<open>srcs/lib/time.c\<close>: the snapshot phase, the busy wait, the rounds,
    the release; its invariant and the lemma that a run ends.
  \<^item> \<open>Monitor\<close>: the service without its memory: a tree of types, names and latest statuses, and a
    journal of clock, counters and lines. Every number of rounds refines it, on every system.
    \<open>Monitor_Spec\<close> proves of the monitor that its counters add up and that a change is printed
    once and that no line is printed without a change, \<open>Lasting\<close> that no change that lasts for a round
    is missed; \<open>Accounts\<close> and \<open>Frozen\<close> do the same for the snapshot phase (its counters; that it depends
    on the file system up to its own end only), and \<open>Changes\<close> joins them to a whole run.
  \<^item> \<open>Watch_Properties\<close>, \<open>Mirror_Properties\<close>, \<open>Monitor_Properties\<close>: the properties of the watching side.
  \<^item> \<open>Text\<close>, \<open>Cron\<close>, \<open>Cron_Marks\<close>, \<open>Cron_Spec\<close>, \<open>Cron_Properties\<close>: \<^verbatim>\<open>srcs/lib/cron-parse.c\<close>, when its
    marking loop ends and what it marks, the meaning of expressions, and that the parser
    computes it.
  \<^item> \<open>Format\<close>, \<open>Format_Spec\<close>, \<open>Numbers\<close>, \<open>Format_Properties\<close>: \<^verbatim>\<open>srcs/lib/stringf.c\<close>, the text a format
    stands for without a buffer, \<^verbatim>\<open>srcs/lib/atoi.c\<close>.
  \<^item> \<open>Options\<close>, \<open>Main_Properties\<close>: \<^verbatim>\<open>srcs/lib/args.c\<close>, \<^verbatim>\<open>srcs/main.c\<close> and the process as a whole;
    \<open>Messages\<close>: what \<^verbatim>\<open>main\<close> prints on \<^verbatim>\<open>stderr\<close> and \<^verbatim>\<open>stdout\<close>; \<open>Command_Line\<close>: the words of a command line, what
    they mean and what is said about them, which \<^verbatim>\<open>main\<close> computes; \<open>Process\<close>: the whole process, from
    the command line to the reports of the service.
  \<^item> \<open>Assertions\<close>: the checking macros of \<^verbatim>\<open>incs/assert.h\<close> and what they report when the release of
    the snapshots passes NULL.
  \<^item> \<open>Dynstr\<close>: \<^verbatim>\<open>srcs/lib/dynstr.c\<close>; \<open>Files\<close>: \<^verbatim>\<open>srcs/lib/fs.c\<close>; \<open>Boot\<close>: \<^verbatim>\<open>srcs/boot.c\<close>; \<open>Logging\<close>:
    \<^verbatim>\<open>srcs/lib/logging.c\<close>, the text of an event, and the report of \<^verbatim>\<open>srcs/perf.c\<close>; \<open>Compare\<close>: the orders of
    \<^verbatim>\<open>srcs/lib/cmp.c\<close>, with the contract \<open>sign_order\<close> of a comparator.
\<close>

text \<open>
  \<^bold>\<open>State.\<close> A block of memory is the list of its bytes, and an access outside it is the fault
  \<^const>\<open>Out_Of_Bounds\<close>; so a theorem that an operation returns \<open>Inr\<close> says that it stays inside its
  blocks. A block owned by one record is a field of it; a target owns its children, so a tree of
  targets is a value, and only what the code may leave dangling (released targets, released child
  arrays, the header of a failed array) is a pointer. The checks of the hardened runtime of
  \<^verbatim>\<open>array.h\<close> abort the process; they are the fault \<^const>\<open>Hardened_Check\<close>. A file name is in \<open>argv\<close> or
  is a string literal of the program; a store into a literal is the fault \<^const>\<open>Read_Only_Write\<close>, and
  signed arithmetic that overflows, where C leaves the behaviour undefined, is \<^const>\<open>Signed_Overflow\<close>.
  Sizes of objects are those of x86-64 Linux. The five arrays of the
  cron parser, the name stack and the path buffer are globals in the code and are passed along
  here. Time is the number of system calls made: every answer of the system is a function of it,
  so a \<open>world\<close> may change between any two calls and a theorem about all worlds covers every
  interleaving of the daemon with whatever else runs.

  \<^bold>\<open>What is shown.\<close> Memory safety of the array, and for every program over it the exact elements, capacity
  and returned booleans; the invariant of a round and of the service; that the service, and the process
  from \<^verbatim>\<open>main\<close> on, runs to its end on a cooperating system; that a snapshot mirrors a file system
  at rest, and that a round prints exactly the entries that differ from it; that from the command
  line to the end of the process a change is reported exactly once, at whatever moment it happens;
  that on every system, however often its files change, no line is printed without a change and
  no change that lasts for a round is missed, and that the counters agree with the targets and the
  lines; the meaning of command lines, what \<^verbatim>\<open>main\<close> prints for them, and the meaning of cron expressions;
  formatting as truncation of a specified text, with the round trip through \<^verbatim>\<open>atoi32\<close> of every integer
  that can be printed; strings,
  file helpers, log lines. Several theorems state behaviour the code does not
  mean to have (released targets that are returned, a name \<^verbatim>\<open>current\<close> that crashes, the least
  integer that cannot be printed, a path buffer that overflows, a step of zero
  that never ends, appending to a cleared string): they hold of the code as it is.

  \<^bold>\<open>Fuel.\<close> Recursion that follows the outside world carries fuel, and running out is the fault
  \<^const>\<open>Out_Of_Fuel\<close>. Creation takes one unit per level of directories, and more than the depth of
  the file system is enough (\<open>create_within\<close>, \<open>create_mirror\<close>). The wait takes a unit per turn, enough when
  the clock advances by a second within that many turns (\<open>spin_ok\<close>). The rounds take one unit each,
  enough when a signal arrives (\<open>service_rounds_end\<close>). The snapshot phase takes one unit per name and
  one for the empty stack. Marking a cron range takes at most 257 turns (\<open>CRON_FUEL\<close>), unless the
  step is zero, when no amount is enough (\<open>step_loop_ends_iff\<close>). All other loops are total functions.

  \<^bold>\<open>Not modelled.\<close> The macros of \<^verbatim>\<open>incs/assert.h\<close> and \<^verbatim>\<open>incs/array.h\<close> that nothing uses. A check of an
  argument that is never NULL is not written out: the argument is a value. The log lines of the
  service are what \<open>logger\<close> makes of them and are not collected; of what it prints, the events are.
  The system calls, \<^verbatim>\<open>strtol\<close>, \<^verbatim>\<open>strcoll\<close>, \<^verbatim>\<open>strftime\<close>, \<^verbatim>\<open>vfprintf\<close> and the allocator are parameters or
  follow the C library on LP64. The handler of the signals only sets a flag, which
  is \<open>w_terminate\<close>; a signal that arrives before \<open>handle_signals\<close> ends the process outside the model.
  A failing \<^verbatim>\<open>read\<close> is taken to store nothing. \<^verbatim>\<open>main\<close> is started with at least the
  name of the program.

  \<^bold>\<open>Bounds.\<close> \<open>process_reports_changes\<close> and \<open>service_refines_monitor\<close> count the rounds, because a
  history beyond a gigabyte may refuse further events (after more than six million changes of
  one file); what a refusal does is part of \<open>track_appends_change\<close>.

  \<^bold>\<open>Plan.\<close> Left for later: the array operations that take a second array or read the spare capacity
  (\<open>array_pull\<close>, \<open>array_filter\<close>, \<open>array_append_from_capacity\<close>) as steps of \<open>Array_Run\<close>; the log lines of
  the service in order with its events.
\<close>

end
